(* ===== verification/Prelude.thy ===== *)
theory Prelude
  imports Main "HOL-Library.Word"
begin

text \<open>
  The vocabulary the component theories share: the machine integers of the Rust source, the
  \<open>Result\<close> values its fallible functions return, the loops over a sequence that stop at the first
  error, and the generic facts on lists, options and words that carry the component proofs.

  \<^item> \<open>u32\<close>, \<open>u64\<close> and \<open>u128\<close> are words, so addition wraps exactly where the source would; the code
    widens to \<open>u128\<close> before it adds or multiplies.
  \<^item> \<open>usize\<close> values (lengths, indices, counters) are \<open>nat\<close>; \<open>saturating_add\<close> and friends cap at
    \<open>usize_max\<close> as the standard library does on a 64-bit target.
  \<^item> \<open>Result<T, E>\<close> is the sum \<open>'e + 'a\<close>: \<open>Inl\<close> is \<open>Err\<close>, \<open>Inr\<close> is \<open>Ok\<close>.
\<close>

section \<open>Machine integers\<close>

type_synonym u32 = "32 word"
type_synonym u64 = "64 word"
type_synonym u128 = "128 word"

definition usize_max :: nat where
  "usize_max = 2 ^ 64 - 1"

definition saturating_add :: "nat \<Rightarrow> nat \<Rightarrow> nat" where
  "saturating_add a b = min (a + b) usize_max"

definition saturating_mul :: "nat \<Rightarrow> nat \<Rightarrow> nat" where
  "saturating_mul a b = min (a * b) usize_max"

definition checked_add :: "nat \<Rightarrow> nat \<Rightarrow> nat option" where
  "checked_add a b = (if a + b \<le> usize_max then Some (a + b) else None)"

text \<open>\<open>usize::div_ceil\<close>; subtraction on \<open>nat\<close> already saturates at 0.\<close>

definition div_ceil :: "nat \<Rightarrow> nat \<Rightarrow> nat" where
  "div_ceil a b = a div b + (if a mod b = 0 then 0 else 1)"

text \<open>\<open>std::cmp::Ordering\<close> and \<open>Ordering::then_with\<close>.\<close>

datatype ordering = Less | Equal | Greater

definition cmp :: "'a::linorder \<Rightarrow> 'a \<Rightarrow> ordering" where
  "cmp a b = (if a < b then Less else if a = b then Equal else Greater)"

definition then_with :: "ordering \<Rightarrow> ordering \<Rightarrow> ordering" where
  "then_with a b = (if a = Equal then b else a)"

text \<open>\<open>Iterator::cmp\<close>: the lexicographic comparison of two sequences.\<close>

fun iter_cmp :: "'a::linorder list \<Rightarrow> 'a list \<Rightarrow> ordering" where
  "iter_cmp [] [] = Equal"
| "iter_cmp [] (y # ys) = Less"
| "iter_cmp (x # xs) [] = Greater"
| "iter_cmp (x # xs) (y # ys) = then_with (cmp x y) (iter_cmp xs ys)"

lemma cmp_simps [simp]:
  "cmp a b = Less \<longleftrightarrow> a < b"
  "cmp a b = Equal \<longleftrightarrow> a = b"
  "cmp a b = Greater \<longleftrightarrow> b < a"
  by (auto simp: cmp_def)

lemma cmp_cases [simp]:
  "a < b \<Longrightarrow> cmp a b = Less"
  "cmp a a = Equal"
  "b < a \<Longrightarrow> cmp a b = Greater"
  by (auto simp: cmp_def)

section \<open>Results and early returns\<close>

text \<open>
  A panic (an index out of bounds, a failed \<open>expect\<close>) is the error value \<open>Panic\<close>; an operation whose
  source can panic returns \<open>(panic, 'a) result\<close>.
\<close>

datatype panic = Panic

type_synonym ('e, 'a) result = "'e + 'a"

definition res_bind :: "('e, 'a) result \<Rightarrow> ('a \<Rightarrow> ('e, 'b) result) \<Rightarrow> ('e, 'b) result" where
  "res_bind r f = (case r of Inl e \<Rightarrow> Inl e | Inr a \<Rightarrow> f a)"

definition ok_or :: "'a option \<Rightarrow> 'e \<Rightarrow> ('e, 'a) result" where
  "ok_or x e = (case x of None \<Rightarrow> Inl e | Some a \<Rightarrow> Inr a)"

text \<open>\<open>if bad { return Err(e) }\<close>: the guard that lets the rest of the body run.\<close>

definition ensure :: "bool \<Rightarrow> 'e \<Rightarrow> ('e, unit) result" where
  "ensure ok e = (if ok then Inr () else Inl e)"

text \<open>\<open>for x in xs { f(x)?; }\<close>: run the body on each element, stop at the first error.\<close>

fun for_each :: "('a \<Rightarrow> ('e, unit) result) \<Rightarrow> 'a list \<Rightarrow> ('e, unit) result" where
  "for_each f [] = Inr ()"
| "for_each f (x # xs) = res_bind (f x) (\<lambda>_. for_each f xs)"

text \<open>The same loop over a mutable accumulator.\<close>

fun for_fold :: "('a \<Rightarrow> 's \<Rightarrow> ('e, 's) result) \<Rightarrow> 'a list \<Rightarrow> 's \<Rightarrow> ('e, 's) result" where
  "for_fold f [] s = Inr s"
| "for_fold f (x # xs) s = res_bind (f x s) (\<lambda>s'. for_fold f xs s')"

text \<open>\<open>xs.map(f).collect()\<close> where \<open>f\<close> may fail.\<close>

fun for_map :: "('a \<Rightarrow> ('e, 'b) result) \<Rightarrow> 'a list \<Rightarrow> ('e, 'b list) result" where
  "for_map f [] = Inr []"
| "for_map f (x # xs) = res_bind (f x) (\<lambda>y. res_bind (for_map f xs) (\<lambda>ys. Inr (y # ys)))"

named_theorems result_simps \<open>unfolding of results, guards and early returns\<close>

lemma res_bind_simps [simp]:
  "res_bind (Inl e) f = Inl e"
  "res_bind (Inr a) f = f a"
  by (simp_all add: res_bind_def)

lemma res_bind_Inr_iff [result_simps]:
  "res_bind r f = Inr b \<longleftrightarrow> (\<exists>a. r = Inr a \<and> f a = Inr b)"
  by (cases r) simp_all

lemma res_bind_Inl_iff [result_simps]:
  "res_bind r f = Inl e \<longleftrightarrow> r = Inl e \<or> (\<exists>a. r = Inr a \<and> f a = Inl e)"
  by (cases r) simp_all

text \<open>A recursive call behind a bind may assume that what it waits for succeeded.\<close>

lemma res_bind_cong [fundef_cong]:
  "r = r' \<Longrightarrow> (\<And>a. r' = Inr a \<Longrightarrow> f a = g a) \<Longrightarrow> res_bind r f = res_bind r' g"
  by (cases r') simp_all

lemma ok_or_Inr_iff [result_simps]: "ok_or x e = Inr a \<longleftrightarrow> x = Some a"
  by (cases x) (simp_all add: ok_or_def)

lemma ok_or_simps [simp]: "ok_or None e = Inl e" "ok_or (Some a) e = Inr a"
  by (simp_all add: ok_or_def)

lemma ensure_Inr_iff [result_simps]: "ensure b e = Inr u \<longleftrightarrow> b"
  by (simp add: ensure_def)

lemma ensure_Inl_iff [result_simps]: "ensure b e = Inl e' \<longleftrightarrow> \<not> b \<and> e' = e"
  by (auto simp: ensure_def)

lemma for_each_Inr_iff [result_simps]:
  "for_each f xs = Inr u \<longleftrightarrow> (\<forall>x \<in> set xs. f x = Inr ())"
  by (induction xs) (simp_all add: result_simps)

lemma for_each_append: "for_each f (xs @ ys) = res_bind (for_each f xs) (\<lambda>_. for_each f ys)"
proof (induction xs)
  case (Cons x xs)
  then show ?case by (cases "f x") simp_all
qed simp

lemma for_map_ok: "(\<And>x. x \<in> set xs \<Longrightarrow> f x = Inr (g x)) \<Longrightarrow> for_map f xs = Inr (map g xs)"
  by (induction xs) simp_all

lemma for_fold_ok:
  "(\<And>x s. x \<in> set xs \<Longrightarrow> f x s = Inr (g x s)) \<Longrightarrow> for_fold f xs s = Inr (fold g xs s)"
  by (induction xs arbitrary: s) simp_all

lemma for_fold_append: "for_fold f (xs @ ys) s = res_bind (for_fold f xs s) (for_fold f ys)"
proof (induction xs arbitrary: s)
  case (Cons x xs)
  then show ?case by (cases "f x s") simp_all
qed simp

lemma for_fold_map: "for_fold f (map g xs) s = for_fold (\<lambda>x. f (g x)) xs s"
  by (induction xs arbitrary: s) (simp_all add: res_bind_def split: sum.splits)

section \<open>Vectors\<close>

text \<open>
  \<open>Vec::resize\<close>, \<open>slice::get\<close> and \<open>Iterator::enumerate\<close> on lists. \<open>get_vec\<close> is \<open>None\<close> out of range,
  where indexing would panic.
\<close>

definition resize :: "nat \<Rightarrow> 'a \<Rightarrow> 'a list \<Rightarrow> 'a list" where
  "resize n d xs = take n xs @ replicate (n - length xs) d"

definition get_vec :: "'a list \<Rightarrow> nat \<Rightarrow> 'a option" where
  "get_vec xs i = (if i < length xs then Some (xs ! i) else None)"

lemma length_resize [simp]: "length (resize n d xs) = n"
  by (simp add: resize_def)

lemma nth_resize: "i < n \<Longrightarrow> resize n d xs ! i = (if i < length xs then xs ! i else d)"
  by (simp add: resize_def nth_append)

lemma resize_grow: "length xs \<le> n \<Longrightarrow> resize n d xs = xs @ replicate (n - length xs) d"
  by (simp add: resize_def)

lemma resize_shrink: "n \<le> length xs \<Longrightarrow> resize n d xs = take n xs"
  by (simp add: resize_def)

lemma get_vec_Some_iff: "get_vec xs i = Some x \<longleftrightarrow> i < length xs \<and> xs ! i = x"
  by (simp add: get_vec_def)

lemma get_vec_None_iff: "get_vec xs i = None \<longleftrightarrow> length xs \<le> i"
  by (simp add: get_vec_def)

lemma get_vec_nth [simp]: "i < length xs \<Longrightarrow> get_vec xs i = Some (xs ! i)"
  by (simp add: get_vec_def)

lemma get_vec_Cons: "get_vec (x # xs) i = (if i = 0 then Some x else get_vec xs (i - 1))"
  by (cases i) (auto simp: get_vec_def)

end
