(* ===== verification/Exact_Natural.thy ===== *)
theory Exact_Natural
  imports Prelude
begin

text \<open>
  The exact naturals of \<open>src/crates/kernel-exact/src/lib.rs\<close>: unbounded naturals as little-endian
  vectors of 64-bit limbs. The operations are the limb loops of the source, on words; the theorems
  relate each of them to the arithmetic of \<open>nat\<close> through \<open>nat_val\<close> and show that every result keeps
  the representation invariant \<open>nat_wf\<close>. Decimal output, bit access and the signed integers built on
  these naturals are in the theories that import this one.
\<close>

unbundle bit_operations_syntax

section \<open>Limbs\<close>

type_synonym u8 = "8 word"

text \<open>\<open>u128::to_le_bytes\<close> and \<open>u64::from_le_bytes\<close>.\<close>

definition u128_to_le_bytes :: "u128 \<Rightarrow> u8 list" where
  "u128_to_le_bytes v = map (\<lambda>i. ucast (drop_bit (8 * i) v)) [0..<16]"

definition u64_from_le_bytes :: "u8 list \<Rightarrow> u64" where
  "u64_from_le_bytes bs = foldr (\<lambda>b acc. ucast b OR push_bit 8 acc) bs 0"

definition low_u64 :: "u128 \<Rightarrow> u64" where
  "low_u64 v = u64_from_le_bytes (take 8 (u128_to_le_bytes v))"

abbreviation u128_from :: "u64 \<Rightarrow> u128" where
  "u128_from x \<equiv> ucast x"

text \<open>\<open>u64::try_from(x).expect(..)\<close> on a \<open>u128\<close>.\<close>

definition u64_expect :: "u128 \<Rightarrow> (panic, u64) result" where
  "u64_expect v = (if v < 2 ^ 64 then Inr (ucast v) else Inl Panic)"

section \<open>Exact naturals\<close>

record exact_natural =
  limbs :: "u64 list"

definition exact_zero :: exact_natural where
  "exact_zero = \<lparr>limbs = []\<rparr>"

definition from_u128 :: "u128 \<Rightarrow> exact_natural" where
  "from_u128 value =
     (if value = 0 then exact_zero
      else let low = low_u64 value;
               high = ucast (drop_bit 64 value) :: u64
           in \<lparr>limbs = [low] @ (if high \<noteq> 0 then [high] else [])\<rparr>)"

definition from_u64 :: "u64 \<Rightarrow> exact_natural" where
  "from_u64 value = from_u128 (u128_from value)"

definition exact_one :: exact_natural where
  "exact_one = from_u64 1"

text \<open>\<open>while limbs.last() == Some(&0) { limbs.pop(); }\<close>\<close>

definition normalize_limbs :: "u64 list \<Rightarrow> u64 list" where
  "normalize_limbs xs = rev (dropWhile (\<lambda>x. x = 0) (rev xs))"

definition from_shifted_u64 :: "u64 \<Rightarrow> nat \<Rightarrow> exact_natural" where
  "from_shifted_u64 value shift =
     (if value = 0 then exact_zero
      else let limb_shift = shift div 64;
               bit_shift = shift mod 64;
               ls = replicate (limb_shift + 2) 0;
               ls = ls[limb_shift := push_bit bit_shift value];
               ls = (if bit_shift \<noteq> 0 then ls[limb_shift + 1 := drop_bit (64 - bit_shift) value] else ls)
           in \<lparr>limbs = normalize_limbs ls\<rparr>)"

definition is_zero :: "exact_natural \<Rightarrow> bool" where
  "is_zero n = (limbs n = [])"

definition is_one :: "exact_natural \<Rightarrow> bool" where
  "is_one n = (length (limbs n) = 1 \<and> limbs n ! 0 = 1)"

text \<open>
  The loop of \<open>add_assign\<close> over the resized limbs of \<open>self\<close>; past its end \<open>other\<close> contributes 0.
  It returns the new limbs and the last carry.
\<close>

fun add_loop :: "u64 list \<Rightarrow> u64 list \<Rightarrow> u128 \<Rightarrow> u64 list \<times> u128" where
  "add_loop [] ys carry = ([], carry)"
| "add_loop (x # xs) ys carry =
     (let sum = u128_from x + u128_from (case ys of [] \<Rightarrow> 0 | y # _ \<Rightarrow> y) + carry;
          (zs, c) = add_loop xs (tl ys) (drop_bit 64 sum)
      in (low_u64 sum # zs, c))"

definition nat_add_assign :: "exact_natural \<Rightarrow> exact_natural \<Rightarrow> exact_natural" where
  "nat_add_assign self other =
     (let max_len = max (length (limbs self)) (length (limbs other));
          (zs, carry) = add_loop (resize max_len 0 (limbs self)) (limbs other) 0
      in \<lparr>limbs = (if carry \<noteq> 0 then zs @ [1] else zs)\<rparr>)"

definition add_u128 :: "exact_natural \<Rightarrow> u128 \<Rightarrow> exact_natural" where
  "add_u128 self amount = nat_add_assign self (from_u128 amount)"

fun mul_u64_loop :: "u64 \<Rightarrow> u64 list \<Rightarrow> u128 \<Rightarrow> u64 list \<times> u128" where
  "mul_u64_loop factor [] carry = ([], carry)"
| "mul_u64_loop factor (x # xs) carry =
     (let product = u128_from x * u128_from factor + carry;
          (zs, c) = mul_u64_loop factor xs (drop_bit 64 product)
      in (low_u64 product # zs, c))"

definition multiply_u64_assign :: "exact_natural \<Rightarrow> u64 \<Rightarrow> exact_natural" where
  "multiply_u64_assign self factor =
     (if factor = 0 then \<lparr>limbs = []\<rparr>
      else if factor = 1 then self
      else let (zs, carry) = mul_u64_loop factor (limbs self) 0
           in \<lparr>limbs = (if carry \<noteq> 0 then zs @ [low_u64 carry] else zs)\<rparr>)"

text \<open>
  \<open>multiply_assign\<close> is the schoolbook product: \<open>mul_row\<close> is the inner loop over the limbs of \<open>other\<close>
  at \<open>index = left_index + right_index\<close>, \<open>mul_carry\<close> the \<open>while carry != 0\<close> loop, \<open>mul_rows\<close> the outer
  loop. An index past the result is a panic.
\<close>

fun mul_row :: "u64 \<Rightarrow> u64 list \<Rightarrow> nat \<Rightarrow> u64 list \<Rightarrow> u128 \<Rightarrow> (panic, u64 list \<times> u128) result" where
  "mul_row left_limb [] index res carry = Inr (res, carry)"
| "mul_row left_limb (right_limb # rs) index res carry =
     res_bind (ok_or (get_vec res index) Panic) (\<lambda>cur.
       let product = u128_from left_limb * u128_from right_limb + u128_from cur + carry
       in mul_row left_limb rs (index + 1) (res[index := low_u64 product]) (drop_bit 64 product))"

lemma drop_bit_64_less: "0 < unat (c :: u128) \<Longrightarrow> unat (drop_bit 64 c) < unat c"
  by (simp add: drop_bit_eq_div unat_div_distrib)

function mul_carry :: "nat \<Rightarrow> u64 list \<Rightarrow> u128 \<Rightarrow> (panic, u64 list) result" where
  "mul_carry index res carry =
     (if carry = 0 then Inr res
      else let res = (if index = length res then res @ [0] else res) in
        if index < length res then
          let sum = u128_from (res ! index) + carry
          in mul_carry (index + 1) (res[index := low_u64 sum]) (drop_bit 64 sum)
        else Inl Panic)"
  by pat_completeness auto
termination
proof (relation "measures [\<lambda>(i, r, c). length r - i, \<lambda>(i, r, c). unat c]", goal_cases)
  case (2 index res carry res' sum)
  then show ?case
    by (auto simp: drop_bit_64_less unat_gt_0 split: if_splits)
qed simp

declare mul_carry.simps [simp del]

fun mul_rows :: "u64 list \<Rightarrow> nat \<Rightarrow> u64 list \<Rightarrow> u64 list \<Rightarrow> (panic, u64 list) result" where
  "mul_rows [] left_index others res = Inr res"
| "mul_rows (left_limb # ls) left_index others res =
     res_bind (mul_row left_limb others left_index res 0) (\<lambda>(res, carry).
       res_bind (mul_carry (left_index + length others) res carry) (\<lambda>res.
         mul_rows ls (left_index + 1) others res))"

definition multiply_assign :: "exact_natural \<Rightarrow> exact_natural \<Rightarrow> (panic, exact_natural) result" where
  "multiply_assign self other =
     (if is_zero self \<or> is_zero other then Inr \<lparr>limbs = []\<rparr>
      else res_bind (mul_rows (limbs self) 0 (limbs other)
                       (replicate (length (limbs self) + length (limbs other)) 0))
             (\<lambda>res. Inr \<lparr>limbs = normalize_limbs res\<rparr>))"

definition multiplied :: "exact_natural \<Rightarrow> exact_natural \<Rightarrow> (panic, exact_natural) result" where
  "multiplied self other = multiply_assign self other"

text \<open>\<open>Ord for ExactNatural\<close>: the longer limb vector is larger, then the most significant limb decides.\<close>

definition nat_cmp :: "exact_natural \<Rightarrow> exact_natural \<Rightarrow> ordering" where
  "nat_cmp self other =
     then_with (cmp (length (limbs self)) (length (limbs other)))
               (iter_cmp (rev (limbs self)) (rev (limbs other)))"

fun sub_loop :: "u64 list \<Rightarrow> u64 list \<Rightarrow> u128 \<Rightarrow> u64 list \<times> u128" where
  "sub_loop [] ys borrow = ([], borrow)"
| "sub_loop (x # xs) ys borrow =
     (let left = u128_from x;
          right = u128_from (case ys of [] \<Rightarrow> 0 | y # _ \<Rightarrow> y) + borrow
      in if left \<ge> right
         then let (zs, b) = sub_loop xs (tl ys) 0 in (low_u64 (left - right) # zs, b)
         else let (zs, b) = sub_loop xs (tl ys) 1
              in (low_u64 (push_bit 64 1 + left - right) # zs, b))"

definition checked_sub_assign :: "exact_natural \<Rightarrow> exact_natural \<Rightarrow> bool \<times> exact_natural" where
  "checked_sub_assign self other =
     (if nat_cmp self other = Less then (False, self)
      else let (zs, borrow) = sub_loop (limbs self) (limbs other) 0
           in (True, \<lparr>limbs = normalize_limbs zs\<rparr>))"

text \<open>\<open>u64::leading_zeros\<close>.\<close>

definition leading_zeros :: "u64 \<Rightarrow> nat" where
  "leading_zeros w = length (takeWhile (\<lambda>i. \<not> bit w i) (rev [0..<64]))"

definition bit_len :: "exact_natural \<Rightarrow> nat" where
  "bit_len n =
     (if limbs n = [] then 0
      else (length (limbs n) - 1) * 64 + (64 - leading_zeros (last (limbs n))))"

definition bit_at :: "exact_natural \<Rightarrow> nat \<Rightarrow> bool" where
  "bit_at n index =
     (let limb = index div 64; b = index mod 64
      in case get_vec (limbs n) limb of None \<Rightarrow> False
         | Some value \<Rightarrow> value AND push_bit b 1 \<noteq> 0)"

definition any_bits_below :: "exact_natural \<Rightarrow> nat \<Rightarrow> bool" where
  "any_bits_below n exclusive =
     (if exclusive = 0 then False
      else let full_limbs = exclusive div 64 in
        if list_ex (\<lambda>value. value \<noteq> 0) (take full_limbs (limbs n)) then True
        else let remaining = exclusive mod 64 in
          if remaining = 0 then False
          else case get_vec (limbs n) full_limbs of None \<Rightarrow> False
            | Some value \<Rightarrow> value AND (push_bit remaining 1 - 1) \<noteq> 0)"

definition limb_or_zero :: "exact_natural \<Rightarrow> nat \<Rightarrow> u64" where
  "limb_or_zero n i = (case get_vec (limbs n) i of None \<Rightarrow> 0 | Some x \<Rightarrow> x)"

definition shr_to_u64 :: "exact_natural \<Rightarrow> nat \<Rightarrow> u64" where
  "shr_to_u64 n shift =
     (let limb = shift div 64;
          bits = shift mod 64;
          low = drop_bit bits (limb_or_zero n limb)
      in if bits = 0 then low
         else let high = push_bit (64 - bits) (limb_or_zero n (limb + 1)) in low OR high)"

definition to_u64 :: "exact_natural \<Rightarrow> u64 option" where
  "to_u64 n = (if bit_len n \<le> 64 then Some (shr_to_u64 n 0) else None)"

text \<open>
  The long-division loop shared by \<open>div_rem_u64_assign\<close> and \<open>div_rem_u32\<close>: it walks the limbs from the
  most significant one, so it takes the reversed limb list and returns the quotient limbs in the
  same order.
\<close>

fun div_loop :: "u128 \<Rightarrow> u64 list \<Rightarrow> u128 \<Rightarrow> (panic, u64 list \<times> u128) result" where
  "div_loop divisor [] remainder = Inr ([], remainder)"
| "div_loop divisor (x # xs) remainder =
     (let value = push_bit 64 remainder OR u128_from x
      in res_bind (u64_expect (value div divisor)) (\<lambda>q.
           res_bind (div_loop divisor xs (value mod divisor)) (\<lambda>(qs, r).
             Inr (q # qs, r))))"

definition div_rem_u64_assign ::
  "exact_natural \<Rightarrow> u64 \<Rightarrow> (panic, (exact_natural \<times> u64) option) result" where
  "div_rem_u64_assign n divisor =
     (if divisor = 0 then Inr None
      else res_bind (div_loop (u128_from divisor) (rev (limbs n)) 0) (\<lambda>(qs, r).
             res_bind (u64_expect r) (\<lambda>r. Inr (Some (\<lparr>limbs = normalize_limbs (rev qs)\<rparr>, r)))))"

definition u32_expect :: "u128 \<Rightarrow> (panic, u32) result" where
  "u32_expect v = (if v < 2 ^ 32 then Inr (ucast v) else Inl Panic)"

definition div_rem_u32 :: "exact_natural \<Rightarrow> u32 \<Rightarrow> (panic, exact_natural \<times> u32) result" where
  "div_rem_u32 n divisor =
     res_bind (div_loop (ucast divisor) (rev (limbs n)) 0) (\<lambda>(qs, r).
       res_bind (u32_expect r) (\<lambda>r. Inr (\<lparr>limbs = normalize_limbs (rev qs)\<rparr>, r)))"

section \<open>The value of a limb vector\<close>

text \<open>\<open>limb_base\<close> is kept folded so that arithmetic on it stays symbolic.\<close>

definition limb_base :: nat where
  "limb_base = 2 ^ 64"

fun limbs_val :: "u64 list \<Rightarrow> nat" where
  "limbs_val [] = 0"
| "limbs_val (x # xs) = unat x + limb_base * limbs_val xs"

definition nat_val :: "exact_natural \<Rightarrow> nat" where
  "nat_val n = limbs_val (limbs n)"

text \<open>The representation invariant: no most significant zero limb.\<close>

definition normalized :: "u64 list \<Rightarrow> bool" where
  "normalized xs = (xs = [] \<or> last xs \<noteq> 0)"

definition nat_wf :: "exact_natural \<Rightarrow> bool" where
  "nat_wf n = normalized (limbs n)"

named_theorems limb_simps \<open>reading the u128 steps of the limb loops as arithmetic on nat\<close>

lemma limb_base_gt_1: "1 < limb_base"
  by (simp add: limb_base_def)

lemma limb_base_pos [simp]: "0 < limb_base" "limb_base \<noteq> 0"
  by (simp_all add: limb_base_def)

lemma limb_base_pow_pos [simp]: "0 < limb_base ^ k"
  by simp

lemma unat_limb_lt: "unat (x :: u64) < limb_base"
  using unsigned_less [of x] by (simp add: limb_base_def)

lemma bit_from_le_bytes:
  "bit (u64_from_le_bytes bs) n \<longleftrightarrow> n < 64 \<and> n div 8 < length bs \<and> bit (bs ! (n div 8)) (n mod 8)"
proof (induction bs arbitrary: n)
  case (Cons b bs)
  have "bit (u64_from_le_bytes (b # bs)) n
    \<longleftrightarrow> n < 64 \<and> (bit b n \<or> 8 \<le> n \<and> bit (u64_from_le_bytes bs) (n - 8))"
    by (auto simp: u64_from_le_bytes_def bit_simps)
  also have "\<dots> \<longleftrightarrow> n < 64 \<and> n div 8 < length (b # bs) \<and> bit ((b # bs) ! (n div 8)) (n mod 8)"
  proof (cases "8 \<le> n")
    case True
    then have "\<not> bit b n" by (auto dest: bit_imp_le_length)
    with True show ?thesis by (auto simp: Cons.IH nth_Cons' div_if [of n] mod_if [of n])
  qed auto
  finally show ?case .
qed (simp add: u64_from_le_bytes_def)

lemma low_u64_eq [code]: "low_u64 v = ucast v"
proof (rule bit_word_eqI)
  fix n assume "n < LENGTH(64)"
  then have n: "n < 64" and lt: "n div 8 < 8" by auto
  then have "n div 8 < 16" by simp
  with lt have "take 8 (u128_to_le_bytes v) ! (n div 8) = ucast (drop_bit (8 * (n div 8)) v)"
    and "length (take 8 (u128_to_le_bytes v)) = 8"
    by (simp_all add: u128_to_le_bytes_def)
  with n lt show "bit (low_u64 v) n = bit (ucast v :: u64) n"
    unfolding low_u64_def bit_from_le_bytes by (simp add: bit_simps)
qed

lemma unat_u128_from [limb_simps]: "unat (u128_from x) = unat x"
proof -
  have "unat x < 2 ^ 128" using unat_limb_lt [of x] by (simp add: limb_base_def)
  then show ?thesis by (simp add: unsigned_ucast_eq take_bit_nat_eq_self del: power_numeral)
qed

lemma unat_low_u64 [limb_simps]: "unat (low_u64 v) = unat v mod limb_base"
  by (simp add: low_u64_eq unsigned_ucast_eq take_bit_eq_mod limb_base_def)

lemma unat_high [limb_simps]: "unat (drop_bit 64 (v :: u128)) = unat v div limb_base"
  by (simp add: drop_bit_eq_div unat_div_distrib limb_base_def)

lemma unat_u128_add: "unat (a :: u128) + unat b < limb_base * limb_base \<Longrightarrow> unat (a + b) = unat a + unat b"
  by (simp add: unat_word_ariths limb_base_def)

lemma unat_u128_mult: "unat (a :: u128) * unat b < limb_base * limb_base \<Longrightarrow> unat (a * b) = unat a * unat b"
  by (simp add: unat_word_ariths limb_base_def)

text \<open>\<open>a * b + c + d\<close> with every factor a limb stays below \<open>2 ^ 128\<close>: the products of the source never wrap.\<close>

lemma limb_fma_bound:
  assumes "a < limb_base" "b < limb_base" "c < limb_base" "d < limb_base"
  shows "a * b + c + d < limb_base * limb_base"
proof -
  obtain B where B: "limb_base = Suc B" using limb_base_pos gr0_conv_Suc by blast
  then have "a * b \<le> B * B" using assms by (intro mult_le_mono) auto
  moreover have "c \<le> B" "d \<le> B" using assms B by auto
  ultimately show ?thesis by (simp add: B)
qed

lemma unat_fma [limb_simps]:
  assumes "unat d < limb_base"
  shows "unat (u128_from a * u128_from b + u128_from c + d) = unat a * unat b + unat c + unat d"
proof -
  note bnd = limb_fma_bound [OF unat_limb_lt unat_limb_lt unat_limb_lt assms, of a b c]
  then have "unat (u128_from a * u128_from b) = unat a * unat b"
    by (simp add: unat_u128_mult unat_u128_from)
  with bnd show ?thesis by (simp add: unat_u128_add unat_u128_from)
qed

lemma unat_mac [limb_simps]:
  assumes "unat d < limb_base"
  shows "unat (u128_from a * u128_from b + d) = unat a * unat b + unat d"
  using unat_fma [OF assms, of a b 0] by simp

lemma unat_sum3 [limb_simps]:
  assumes "unat c < limb_base"
  shows "unat (u128_from a + u128_from b + c) = unat a + unat b + unat c"
  using unat_fma [OF assms, of a 1 b] by simp

lemma fma_high_lt:
  assumes "unat d < limb_base"
  shows "(unat (a::u64) * unat (b::u64) + unat (c::u64) + unat (d::u128)) div limb_base < limb_base"
  by (rule less_mult_imp_div_less) (rule limb_fma_bound [OF unat_limb_lt unat_limb_lt unat_limb_lt assms])

lemma limbs_val_append: "limbs_val (xs @ ys) = limbs_val xs + limb_base ^ length xs * limbs_val ys"
  by (induction xs) (simp_all add: algebra_simps)

lemma limbs_val_replicate_0 [simp]: "limbs_val (replicate k 0) = 0"
  by (induction k) simp_all

lemma limbs_val_bound: "limbs_val xs < limb_base ^ length xs"
proof (induction xs)
  case (Cons x xs)
  have "unat x + limb_base * limbs_val xs < limb_base + limb_base * limbs_val xs"
    using unat_limb_lt by simp
  also have "\<dots> = limb_base * Suc (limbs_val xs)" by simp
  also have "\<dots> \<le> limb_base * limb_base ^ length xs"
    using Cons.IH by (intro mult_le_mono2) simp
  finally show ?case by simp
qed simp

lemma limbs_val_update:
  "i < length xs \<Longrightarrow>
   limbs_val (xs[i := y]) + limb_base ^ i * unat (xs ! i) = limbs_val xs + limb_base ^ i * unat y"
proof (induction xs arbitrary: i)
  case (Cons x xs)
  show ?case
  proof (cases i)
    case (Suc j)
    with Cons have "limbs_val (xs[j := y]) + limb_base ^ j * unat (xs ! j) = limbs_val xs + limb_base ^ j * unat y"
      by simp
    then have "limb_base * (limbs_val (xs[j := y]) + limb_base ^ j * unat (xs ! j))
      = limb_base * (limbs_val xs + limb_base ^ j * unat y)" by simp
    with Suc show ?thesis by (simp add: algebra_simps)
  qed simp
qed simp

lemma normalize_snoc [simp]: "normalize_limbs (xs @ [x]) = (if x = 0 then normalize_limbs xs else xs @ [x])"
  by (simp add: normalize_limbs_def)

lemma normalize_Nil [simp]: "normalize_limbs [] = []"
  by (simp add: normalize_limbs_def)

lemma limbs_val_normalize [simp]: "limbs_val (normalize_limbs xs) = limbs_val xs"
  by (induction xs rule: rev_induct) (simp_all add: limbs_val_append)

lemma normalized_Nil [simp]: "normalized []"
  by (simp add: normalized_def)

lemma normalized_normalize [simp]: "normalized (normalize_limbs xs)"
  by (induction xs rule: rev_induct) (simp_all add: normalized_def)

lemma length_normalize_limbs_le: "length (normalize_limbs xs) \<le> length xs"
  by (induction xs rule: rev_induct) simp_all

text \<open>Normalized vectors are exactly those whose value reaches their top limb.\<close>

lemma normalized_iff: "normalized xs \<longleftrightarrow> xs = [] \<or> limb_base ^ (length xs - 1) \<le> limbs_val xs"
proof (cases xs rule: rev_cases)
  case (snoc ys y)
  have "y \<noteq> 0 \<longleftrightarrow> 0 < unat y" by (simp add: unat_gt_0)
  moreover have "0 < unat y \<Longrightarrow> limb_base ^ length ys \<le> limbs_val xs"
    using snoc by (simp add: limbs_val_append trans_le_add2)
  moreover have "unat y = 0 \<Longrightarrow> limbs_val xs < limb_base ^ length ys"
    using limbs_val_bound [of ys] snoc by (simp add: limbs_val_append)
  ultimately show ?thesis
    using snoc by (auto simp: normalized_def limbs_val_append)
qed (simp add: normalized_def)

section \<open>Addition and scaling\<close>

lemma split_step:
  assumes "limbs_val zs + limb_base ^ n * c' = X + s div limb_base"
  shows "s mod limb_base + limb_base * limbs_val zs + limb_base ^ Suc n * c' = limb_base * X + s"
proof -
  have "limb_base * (limbs_val zs + limb_base ^ n * c') = limb_base * (X + s div limb_base)"
    using assms by simp
  then show ?thesis using mod_mult_div_eq [of s limb_base] by (simp add: algebra_simps)
qed

lemma add_loop_val:
  assumes "add_loop xs ys c = (zs, c')" "length ys \<le> length xs" "unat c \<le> 1"
  shows "limbs_val zs + limb_base ^ length xs * unat c' = limbs_val xs + limbs_val ys + unat c
    \<and> unat c' \<le> 1 \<and> length zs = length xs"
  using assms
proof (induction xs arbitrary: ys c zs c')
  case (Cons x xs)
  define y where "y = (case ys of [] \<Rightarrow> 0 | y # _ \<Rightarrow> y)"
  define s where "s = u128_from x + u128_from y + c"
  obtain ws where rec: "add_loop xs (tl ys) (drop_bit 64 s) = (ws, c')" and zs: "zs = low_u64 s # ws"
    using Cons.prems(1) by (auto simp: Let_def y_def [symmetric] s_def [symmetric] split: prod.splits)
  have c: "unat c < limb_base" using Cons.prems(3) limb_base_gt_1 by simp
  have s: "unat s = unat x + unat y + unat c" by (simp add: s_def limb_simps c)
  have "unat s < 2 * limb_base" using s unat_limb_lt [of x] unat_limb_lt [of y] Cons.prems(3) by simp
  then have hi: "unat s div limb_base \<le> 1" by (simp add: less_Suc_eq_le [symmetric] less_mult_imp_div_less)
  have yv: "limbs_val ys = unat y + limb_base * limbs_val (tl ys)"
    by (simp add: y_def split: list.splits)
  have len: "length (tl ys) \<le> length xs" using Cons.prems(2) by simp
  note IH = Cons.IH [OF rec len, unfolded limb_simps, OF hi]
  then show ?case
    using split_step [of ws "length xs" "unat c'" "limbs_val xs + limbs_val (tl ys)" "unat s"]
    by (simp add: zs limb_simps yv s algebra_simps)
qed simp

lemma limbs_val_resize_grow: "length xs \<le> m \<Longrightarrow> limbs_val (resize m 0 xs) = limbs_val xs"
  by (simp add: resize_grow limbs_val_append)

lemma unat_le_1: "unat (c :: u128) \<le> 1 \<Longrightarrow> c \<noteq> 0 \<Longrightarrow> unat c = 1"
  using unat_gt_0 [of c] by simp

lemma nat_add_assign_val: "nat_val (nat_add_assign a b) = nat_val a + nat_val b"
proof -
  define m where "m = max (length (limbs a)) (length (limbs b))"
  obtain zs c where r: "add_loop (resize m 0 (limbs a)) (limbs b) 0 = (zs, c)" by fastforce
  have "limbs_val zs + limb_base ^ m * unat c = limbs_val (limbs a) + limbs_val (limbs b)"
    and "unat c \<le> 1" and "length zs = m"
    using add_loop_val [OF r] by (simp_all add: limbs_val_resize_grow m_def)
  moreover from this(2) have "c \<noteq> 0 \<Longrightarrow> unat c = 1" by (rule unat_le_1)
  ultimately show ?thesis
    by (cases "c = 0")
       (simp_all add: nat_add_assign_def m_def [symmetric] r nat_val_def limbs_val_append)
qed

lemma nat_add_assign_wf: "nat_wf a \<Longrightarrow> nat_wf b \<Longrightarrow> nat_wf (nat_add_assign a b)"
proof -
  assume wf: "nat_wf a" "nat_wf b"
  define m where "m = max (length (limbs a)) (length (limbs b))"
  obtain zs c where r: "add_loop (resize m 0 (limbs a)) (limbs b) 0 = (zs, c)" by fastforce
  have v: "limbs_val zs + limb_base ^ m * unat c = limbs_val (limbs a) + limbs_val (limbs b)"
    and len: "length zs = m"
    using add_loop_val [OF r] by (simp_all add: limbs_val_resize_grow m_def)
  have "0 < m \<Longrightarrow> limb_base ^ (m - 1) \<le> limbs_val (limbs a) + limbs_val (limbs b)"
    using wf by (auto simp: nat_wf_def normalized_iff m_def max_def split: if_splits
        intro: trans_le_add1 trans_le_add2)
  then have "c = 0 \<Longrightarrow> normalized zs" using v len by (auto simp: normalized_iff)
  then show ?thesis
    by (simp add: nat_add_assign_def m_def [symmetric] r nat_wf_def) (simp add: normalized_def)
qed

lemma mul_u64_loop_val:
  assumes "mul_u64_loop f xs c = (zs, c')" "unat c < limb_base"
  shows "limbs_val zs + limb_base ^ length xs * unat c' = limbs_val xs * unat f + unat c
    \<and> unat c' < limb_base \<and> length zs = length xs"
  using assms
proof (induction xs arbitrary: c zs c')
  case (Cons x xs)
  define s where "s = u128_from x * u128_from f + c"
  obtain ws where rec: "mul_u64_loop f xs (drop_bit 64 s) = (ws, c')" and zs: "zs = low_u64 s # ws"
    using Cons.prems(1) by (auto simp: Let_def s_def [symmetric] split: prod.splits)
  have s: "unat s = unat x * unat f + unat c" by (simp add: s_def limb_simps Cons.prems(2))
  have hi: "unat s div limb_base < limb_base" using fma_high_lt [OF Cons.prems(2), of x f 0] by (simp add: s)
  note IH = Cons.IH [OF rec, unfolded limb_simps, OF hi]
  then show ?case
    using split_step [of ws "length xs" "unat c'" "limbs_val xs * unat f" "unat s"]
    by (simp add: zs limb_simps s algebra_simps)
qed simp

lemma multiply_u64_assign_val: "nat_val (multiply_u64_assign n f) = nat_val n * unat f"
proof -
  obtain zs c where r: "mul_u64_loop f (limbs n) 0 = (zs, c)" by fastforce
  from mul_u64_loop_val [OF r]
  have "limbs_val zs + limb_base ^ length zs * unat c = limbs_val (limbs n) * unat f" and "unat c < limb_base"
    by simp_all
  moreover have "f = 0 \<longleftrightarrow> unat f = 0" by (simp add: unat_eq_zero)
  ultimately show ?thesis
    by (auto simp: multiply_u64_assign_def r nat_val_def limbs_val_append limb_simps)
qed

lemma multiply_u64_assign_wf: "nat_wf n \<Longrightarrow> nat_wf (multiply_u64_assign n f)"
proof -
  assume wf: "nat_wf n"
  obtain zs c where r: "mul_u64_loop f (limbs n) 0 = (zs, c)" by fastforce
  from mul_u64_loop_val [OF r]
  have v: "limbs_val zs + limb_base ^ length zs * unat c = limbs_val (limbs n) * unat f"
    and c: "unat c < limb_base" and len: "length zs = length (limbs n)" by simp_all
  have "f \<noteq> 0 \<Longrightarrow> limbs_val (limbs n) \<le> limbs_val (limbs n) * unat f" by (simp add: unat_gt_0 Suc_le_eq)
  then have "f \<noteq> 0 \<Longrightarrow> c = 0 \<Longrightarrow> normalized zs"
    using wf v len by (auto simp: nat_wf_def normalized_iff intro: order.trans)
  moreover have "c \<noteq> 0 \<Longrightarrow> low_u64 c \<noteq> 0"
    using c by (simp add: unat_eq_zero [symmetric] limb_simps)
  ultimately show ?thesis
    using wf by (simp add: multiply_u64_assign_def r nat_wf_def) (simp add: normalized_def)
qed

section \<open>Multiplication\<close>

lemma split_pow:
  "limb_base ^ i * (s mod limb_base) + limb_base ^ (i + 1) * (s div limb_base) = limb_base ^ i * s"
proof -
  have "limb_base ^ i * (s mod limb_base) + limb_base ^ (i + 1) * (s div limb_base)
    = limb_base ^ i * (s mod limb_base + limb_base * (s div limb_base))"
    by (simp only: distrib_left mult.assoc power_add power_one_right)
  then show ?thesis by (simp only: mod_mult_div_eq)
qed

lemma mul_row_val:
  assumes "index + length rs \<le> length res" "unat c < limb_base"
  shows "\<exists>res' c'. mul_row l rs index res c = Inr (res', c') \<and> length res' = length res
    \<and> unat c' < limb_base
    \<and> limbs_val res' + limb_base ^ (index + length rs) * unat c'
        = limbs_val res + limb_base ^ index * (unat l * limbs_val rs + unat c)"
  using assms
proof (induction rs arbitrary: index res c)
  case (Cons r rs)
  define p where "p = u128_from l * u128_from r + u128_from (res ! index) + c"
  have p: "unat p = unat l * unat r + unat (res ! index) + unat c"
    by (simp add: p_def limb_simps Cons.prems(2))
  have i: "index < length res" using Cons.prems(1) by simp
  have hi: "unat (drop_bit 64 p) < limb_base"
    using fma_high_lt [OF Cons.prems(2), of l r "res ! index"] by (simp add: limb_simps p)
  let ?res = "res[index := low_u64 p]"
  from Cons.IH [OF _ hi, of "index + 1" ?res] Cons.prems(1)
  obtain res' c' where rec: "mul_row l rs (index + 1) ?res (drop_bit 64 p) = Inr (res', c')"
    and "length res' = length res" "unat c' < limb_base"
    and v: "limbs_val res' + limb_base ^ (index + 1 + length rs) * unat c'
      = limbs_val ?res + limb_base ^ (index + 1) * (unat l * limbs_val rs + unat p div limb_base)"
    by (auto simp: limb_simps)
  have "limbs_val ?res + limb_base ^ index * unat (res ! index)
      = limbs_val res + limb_base ^ index * (unat p mod limb_base)"
    using limbs_val_update [OF i, of "low_u64 p"] by (simp add: limb_simps)
  moreover note split_pow [of index "unat p"]
  ultimately have "limbs_val res' + limb_base ^ (index + 1 + length rs) * unat c'
      + limb_base ^ index * unat (res ! index)
    = limbs_val res + limb_base ^ index * unat p + limb_base ^ (index + 1) * (unat l * limbs_val rs)"
    using v by (simp add: algebra_simps)
  then have "limbs_val res' + limb_base ^ (index + length (r # rs)) * unat c'
    = limbs_val res + limb_base ^ index * (unat l * limbs_val (r # rs) + unat c)"
    by (simp add: p algebra_simps)
  then show ?case
    using rec i \<open>length res' = length res\<close> \<open>unat c' < limb_base\<close>
    by (simp add: Let_def p_def [symmetric])
qed simp

lemma mul_carry_val:
  assumes "index \<le> length res" "unat c < limb_base"
  shows "\<exists>res'. mul_carry index res c = Inr res' \<and> length res \<le> length res'
    \<and> limbs_val res' = limbs_val res + limb_base ^ index * unat c"
  using assms
proof (induction index res c rule: mul_carry.induct)
  case (1 index res c)
  show ?case
  proof (cases "c = 0")
    case False
    define r where "r = (if index = length res then res @ [0] else res)"
    define s where "s = u128_from (r ! index) + c"
    have i: "index < length r" using "1.prems"(1) by (simp add: r_def)
    have s: "unat s = unat (r ! index) + unat c"
      using unat_sum3 [OF "1.prems"(2), of "r ! index" 0] by (simp add: s_def)
    have hi: "unat s div limb_base < limb_base"
      using fma_high_lt [OF "1.prems"(2), of "r ! index" 1 0] by (simp add: s)
    have rv: "limbs_val r = limbs_val res" by (simp add: r_def limbs_val_append)
    have upd: "limbs_val (r[index := low_u64 s]) + limb_base ^ index * unat (r ! index)
      = limbs_val res + limb_base ^ index * (unat s mod limb_base)"
      using limbs_val_update [OF i, of "low_u64 s"] by (simp add: limb_simps rv)
    obtain res' where rec: "mul_carry (index + 1) (r[index := low_u64 s]) (drop_bit 64 s) = Inr res'"
      and len: "length r \<le> length res'"
      and v: "limbs_val res' = limbs_val (r[index := low_u64 s])
        + limb_base ^ (index + 1) * (unat s div limb_base)"
      using "1.IH" [OF False refl, folded r_def, OF i refl, folded s_def] i hi
      by (auto simp: limb_simps)
    with v upd s split_pow [of index "unat s"] have "limbs_val res' = limbs_val res + limb_base ^ index * unat c"
      by (simp add: algebra_simps)
    moreover have "length res \<le> length res'" using len by (simp add: r_def split: if_splits)
    ultimately show ?thesis
      using rec i False by (subst mul_carry.simps) (simp add: Let_def r_def [symmetric] s_def [symmetric])
  qed (simp add: mul_carry.simps)
qed

lemma mul_rows_val:
  assumes "left + length ls + length others \<le> length res"
  shows "\<exists>res'. mul_rows ls left others res = Inr res'
    \<and> limbs_val res' = limbs_val res + limb_base ^ left * (limbs_val ls * limbs_val others)"
  using assms
proof (induction ls arbitrary: left res)
  case (Cons l ls)
  obtain r1 c where row: "mul_row l others left res 0 = Inr (r1, c)" "length r1 = length res" "unat c < limb_base"
    and v1: "limbs_val r1 + limb_base ^ (left + length others) * unat c
      = limbs_val res + limb_base ^ left * (unat l * limbs_val others)"
    using mul_row_val [of left others res 0 l] Cons.prems by auto
  obtain r2 where car: "mul_carry (left + length others) r1 c = Inr r2" "length r1 \<le> length r2"
    and v2: "limbs_val r2 = limbs_val r1 + limb_base ^ (left + length others) * unat c"
    using mul_carry_val [of "left + length others" r1 c] row Cons.prems by auto
  obtain r3 where rec: "mul_rows ls (left + 1) others r2 = Inr r3"
    and v3: "limbs_val r3 = limbs_val r2 + limb_base ^ (left + 1) * (limbs_val ls * limbs_val others)"
    using Cons.IH [of "left + 1" r2] Cons.prems row car by auto
  have "limbs_val r3 = limbs_val res + limb_base ^ left * (limbs_val (l # ls) * limbs_val others)"
    using v1 v2 v3 by (simp add: algebra_simps)
  then show ?case using row car rec by simp
qed simp

lemma multiplied_val:
  "\<exists>c. multiplied a b = Inr c \<and> nat_val c = nat_val a * nat_val b \<and> nat_wf c"
  using mul_rows_val [of 0 "limbs a" "limbs b" "replicate (length (limbs a) + length (limbs b)) 0"]
  by (auto simp: multiplied_def multiply_assign_def is_zero_def nat_val_def nat_wf_def)

section \<open>Comparison and subtraction\<close>

lemma iter_cmp_rev:
  "length xs = length ys \<Longrightarrow> iter_cmp (rev xs) (rev ys) = cmp (limbs_val xs) (limbs_val ys)"
proof (induction xs arbitrary: ys rule: rev_induct)
  case (snoc x xs)
  then obtain ws y where ys: "ys = ws @ [y]" and len: "length xs = length ws"
    by (cases ys rule: rev_cases) auto
  let ?B = "limb_base ^ length xs"
  have small: "limbs_val xs < ?B" "limbs_val ws < ?B"
    using limbs_val_bound [of xs] limbs_val_bound [of ws] len by simp_all
  have lt: "limbs_val us + ?B * m < limbs_val vs + ?B * n"
    if "m < n" "limbs_val us < ?B" for us vs m n
  proof -
    have "limbs_val us + ?B * m < ?B * Suc m" using that by simp
    also have "\<dots> \<le> ?B * n" using that by (intro mult_le_mono2) simp
    finally show ?thesis by simp
  qed
  consider "x < y" | "x = y" | "y < x" by (rule linorder_cases)
  then show ?case
  proof cases
    case 1
    then show ?thesis using lt [of "unat x" "unat y" xs ws] small
      by (simp add: ys len [symmetric] limbs_val_append then_with_def word_less_nat_alt [symmetric])
  next
    case 2
    then show ?thesis using snoc.IH [OF len]
      by (simp add: ys len [symmetric] limbs_val_append then_with_def) (simp add: cmp_def)
  next
    case 3
    then show ?thesis using lt [of "unat y" "unat x" ws xs] small
      by (simp add: ys len [symmetric] limbs_val_append then_with_def word_less_nat_alt [symmetric])
  qed
qed (simp add: cmp_def)

lemma shorter_smaller:
  assumes "normalized ys" "length xs < length ys"
  shows "limbs_val xs < limbs_val ys"
proof -
  have "limbs_val xs < limb_base ^ length xs" by (rule limbs_val_bound)
  also have "\<dots> \<le> limb_base ^ (length ys - 1)"
    using assms(2) by (intro power_increasing) (auto simp: Suc_le_eq)
  also have "\<dots> \<le> limbs_val ys" using assms by (auto simp: normalized_iff)
  finally show ?thesis .
qed

lemma nat_cmp_val: "nat_wf a \<Longrightarrow> nat_wf b \<Longrightarrow> nat_cmp a b = cmp (nat_val a) (nat_val b)"
  using iter_cmp_rev [of "limbs a" "limbs b"] shorter_smaller [of "limbs a" "limbs b"]
    shorter_smaller [of "limbs b" "limbs a"]
  by (cases "length (limbs a)" "length (limbs b)" rule: linorder_cases)
     (simp_all add: nat_cmp_def then_with_def cmp_def nat_wf_def nat_val_def)

lemma nat_val_inject: "nat_wf a \<Longrightarrow> nat_wf b \<Longrightarrow> nat_val a = nat_val b \<longleftrightarrow> a = b"
proof -
  have eq: "iter_cmp xs ys = Equal \<Longrightarrow> xs = ys" for xs ys :: "u64 list"
    by (induction xs ys rule: iter_cmp.induct) (auto simp: then_with_def split: if_splits)
  assume "nat_wf a" "nat_wf b"
  then have "nat_val a = nat_val b \<longleftrightarrow> nat_cmp a b = Equal" by (simp add: nat_cmp_val)
  moreover have "nat_cmp a b = Equal \<Longrightarrow> a = b"
    using eq [of "rev (limbs a)" "rev (limbs b)"] by (auto simp: nat_cmp_def then_with_def split: if_splits)
  ultimately show ?thesis by auto
qed

lemma sub_loop_val:
  assumes "sub_loop xs ys b = (zs, b')" "length ys \<le> length xs" "unat b \<le> 1"
  shows "limbs_val zs + limbs_val ys + unat b = limbs_val xs + limb_base ^ length xs * unat b'
    \<and> unat b' \<le> 1 \<and> length zs = length xs"
  using assms
proof (induction xs arbitrary: ys b zs b')
  case (Cons x xs)
  define y where "y = (case ys of [] \<Rightarrow> 0 | y # _ \<Rightarrow> y)"
  define r where "r = u128_from y + b"
  define nb where "nb = (if u128_from x \<ge> r then 0 else 1 :: u128)"
  define d where "d = (if u128_from x \<ge> r then u128_from x - r else push_bit 64 1 + u128_from x - r)"
  obtain ws where rec: "sub_loop xs (tl ys) nb = (ws, b')" and zs: "zs = low_u64 d # ws"
    using Cons.prems(1)
    by (auto simp: Let_def y_def [symmetric] r_def [symmetric] nb_def d_def split: prod.splits if_splits)
  have "unat b < limb_base" using Cons.prems(3) limb_base_gt_1 by simp
  then have r: "unat r = unat y + unat b" using unat_sum3 [of b 0 y] by (simp add: r_def)
  have rle: "unat r \<le> limb_base" using r unat_limb_lt [of y] Cons.prems(3) by simp
  have nb: "unat nb \<le> 1" by (simp add: nb_def)
  have step: "unat (low_u64 d) + unat r = unat x + limb_base * unat nb"
  proof (cases "u128_from x \<ge> r")
    case True
    then have le: "unat r \<le> unat x" by (simp add: word_le_nat_alt limb_simps)
    then have "unat (u128_from x - r) = unat x - unat r"
      using True by (simp add: unat_sub limb_simps)
    then show ?thesis using True le unat_limb_lt [of x] by (simp add: d_def nb_def limb_simps)
  next
    case False
    then have lt: "unat x < unat r" by (simp add: word_le_nat_alt limb_simps)
    have one: "unat (push_bit 64 1 :: u128) = limb_base" by (simp add: limb_base_def push_bit_eq_mult)
    have "unat (push_bit 64 1 + u128_from x) = limb_base + unat x"
      by (subst unat_u128_add) (use limb_fma_bound [of 0 0 "unat x" 0] unat_limb_lt [of x] limb_base_gt_1 in
        \<open>simp_all add: one limb_simps limb_base_def\<close>)
    moreover from this have "r \<le> push_bit 64 1 + u128_from x"
      using rle by (simp add: word_le_nat_alt)
    ultimately have "unat (push_bit 64 1 + u128_from x - r) = limb_base + unat x - unat r"
      by (simp add: unat_sub)
    then show ?thesis using False lt rle by (simp add: d_def nb_def limb_simps)
  qed
  have yv: "limbs_val ys = unat y + limb_base * limbs_val (tl ys)"
    by (simp add: y_def split: list.splits)
  have len: "length (tl ys) \<le> length xs" using Cons.prems(2) by simp
  note IH = Cons.IH [OF rec len nb]
  then have "limb_base * (limbs_val ws + limbs_val (tl ys) + unat nb)
    = limb_base * (limbs_val xs + limb_base ^ length xs * unat b')" by simp
  with step r have "limbs_val zs + limbs_val ys + unat b
    = limbs_val (x # xs) + limb_base ^ length (x # xs) * unat b'"
    by (simp add: zs yv algebra_simps)
  with IH show ?case by (simp add: zs)
qed simp

lemma checked_sub_assign_val:
  assumes "nat_wf a" "nat_wf b"
  shows "checked_sub_assign a b = (if nat_val a < nat_val b then (False, a)
      else (True, snd (checked_sub_assign a b)))"
    and "nat_val b \<le> nat_val a \<Longrightarrow> nat_val (snd (checked_sub_assign a b)) = nat_val a - nat_val b"
    and "nat_wf (snd (checked_sub_assign a b))"
proof -
  obtain zs c where r: "sub_loop (limbs a) (limbs b) 0 = (zs, c)" by fastforce
  note cmp = nat_cmp_val [OF assms]
  show "checked_sub_assign a b = (if nat_val a < nat_val b then (False, a)
      else (True, snd (checked_sub_assign a b)))"
    by (simp add: checked_sub_assign_def cmp r)
  show "nat_wf (snd (checked_sub_assign a b))"
    using assms by (simp add: checked_sub_assign_def r nat_wf_def)
  assume le: "nat_val b \<le> nat_val a"
  then have "length (limbs b) \<le> length (limbs a)"
    using shorter_smaller [of "limbs b" "limbs a"] assms by (force simp: nat_wf_def nat_val_def not_less [symmetric])
  from sub_loop_val [OF r this]
  have v: "limbs_val zs + nat_val b = nat_val a + limb_base ^ length zs * unat c"
    by (simp add: nat_val_def)
  have "unat c = 0"
  proof (rule ccontr)
    assume "unat c \<noteq> 0"
    then have "limb_base ^ length zs \<le> limb_base ^ length zs * unat c" by simp
    with v le limbs_val_bound [of zs] show False by linarith
  qed
  with v show "nat_val (snd (checked_sub_assign a b)) = nat_val a - nat_val b"
    using le by (simp add: checked_sub_assign_def cmp r nat_val_def)
qed

section \<open>Division and decimal output\<close>

lemma unat_shl_or:
  assumes "unat r < limb_base"
  shows "unat (push_bit 64 r OR u128_from x) = unat r * limb_base + unat x"
proof -
  have disj: "push_bit 64 r AND u128_from x = 0"
    by (rule bit_word_eqI) (auto simp: bit_simps dest: bit_imp_le_length)
  have shl: "unat (push_bit 64 r) = unat r * limb_base"
    using assms by (simp add: push_bit_eq_mult unat_word_ariths limb_base_def)
  have "unat r * limb_base + unat x < limb_base * limb_base"
  proof -
    have "unat r * limb_base + unat x < Suc (unat r) * limb_base" using unat_limb_lt [of x] by simp
    also have "\<dots> \<le> limb_base * limb_base" using assms by (intro mult_le_mono1) simp
    finally show ?thesis .
  qed
  then show ?thesis
    by (simp add: disjunctive_add_eq_or [OF disj, symmetric] unat_u128_add shl unat_u128_from)
qed

lemma u64_expect_small: "unat v < limb_base \<Longrightarrow> \<exists>w. u64_expect v = Inr w \<and> unat w = unat v"
  by (simp add: u64_expect_def word_less_nat_alt limb_base_def unsigned_ucast_eq take_bit_nat_eq_self)

lemma div_loop_val:
  assumes "0 < unat d" "unat d < limb_base" "unat r < unat d"
  shows "\<exists>qs r'. div_loop d xs r = Inr (qs, r') \<and> length qs = length xs \<and> unat r' < unat d
    \<and> limbs_val (rev qs) * unat d + unat r' = unat r * limb_base ^ length xs + limbs_val (rev xs)"
  using assms(3)
proof (induction xs arbitrary: r)
  case (Cons x xs)
  define v where "v = push_bit 64 r OR u128_from x"
  have r: "unat r < limb_base" using Cons.prems assms(2) by simp
  have v: "unat v = unat r * limb_base + unat x" by (simp add: v_def unat_shl_or [OF r])
  have "unat v < Suc (unat r) * limb_base" using unat_limb_lt [of x] by (simp add: v)
  also have "\<dots> \<le> unat d * limb_base" using Cons.prems by (intro mult_le_mono1) simp
  finally have "unat v div unat d < limb_base" by (simp add: less_mult_imp_div_less mult.commute)
  then obtain q where q: "u64_expect (v div d) = Inr q" "unat q = unat v div unat d"
    using u64_expect_small [of "v div d"] by (auto simp: unat_div_distrib)
  have "unat (v mod d) < unat d" using assms(1) by (simp add: unat_mod_distrib)
  then obtain qs r' where rec: "div_loop d xs (v mod d) = Inr (qs, r')" "length qs = length xs" "unat r' < unat d"
    and vv: "limbs_val (rev qs) * unat d + unat r'
      = (unat v mod unat d) * limb_base ^ length xs + limbs_val (rev xs)"
    using Cons.IH [of "v mod d"] by (auto simp: unat_mod_distrib)
  have "limbs_val (rev (q # qs)) * unat d + unat r'
    = limb_base ^ length xs * (unat v div unat d * unat d + unat v mod unat d) + limbs_val (rev xs)"
    using vv rec(2) q(2) by (simp only: distrib_left) (simp add: limbs_val_append algebra_simps)
  also have "\<dots> = unat r * limb_base ^ length (x # xs) + limbs_val (rev (x # xs))"
    by (simp only: div_mult_mod_eq) (simp add: v limbs_val_append algebra_simps)
  finally show ?case using rec q by (simp add: v_def [symmetric])
qed simp

lemma div_loop_exact:
  assumes "0 < unat d" "unat d < limb_base"
  shows "\<exists>qs r. div_loop d (rev xs) 0 = Inr (qs, r) \<and> length qs = length xs
    \<and> limbs_val (rev qs) = limbs_val xs div unat d \<and> unat r = limbs_val xs mod unat d"
proof -
  obtain qs r where "div_loop d (rev xs) 0 = Inr (qs, r)" "length qs = length xs" "unat r < unat d"
    and eq: "limbs_val (rev qs) * unat d + unat r = limbs_val xs"
    using div_loop_val [OF assms, of 0 "rev xs"] assms by auto
  moreover have "limbs_val xs div unat d = limbs_val (rev qs)" "limbs_val xs mod unat d = unat r"
    using \<open>unat r < unat d\<close> by (simp_all add: eq [symmetric])
  ultimately show ?thesis by auto
qed

lemma div_rem_u64_assign_val:
  assumes "d \<noteq> 0"
  shows "\<exists>q r. div_rem_u64_assign n d = Inr (Some (q, r)) \<and> nat_wf q
    \<and> nat_val q = nat_val n div unat d \<and> unat r = nat_val n mod unat d"
proof -
  have d: "0 < unat (u128_from d)" "unat (u128_from d) < limb_base"
    using assms unat_limb_lt [of d] by (simp_all add: limb_simps unat_gt_0)
  obtain qs r where dl: "div_loop (u128_from d) (rev (limbs n)) 0 = Inr (qs, r)"
    and "limbs_val (rev qs) = limbs_val (limbs n) div unat d" and r: "unat r = limbs_val (limbs n) mod unat d"
    using div_loop_exact [OF d, of "limbs n"] by (auto simp: limb_simps)
  moreover have "unat r < limb_base" using r d by (simp add: limb_simps order.strict_trans [OF mod_less_divisor])
  then obtain w where "u64_expect r = Inr w" "unat w = unat r" using u64_expect_small by blast
  ultimately show ?thesis
    using assms by (simp add: div_rem_u64_assign_def nat_val_def nat_wf_def)
qed

lemma unat_ucast_u32: "unat (ucast (d :: u32) :: u128) = unat d"
proof -
  have "unat d < 2 ^ 32" using unsigned_less [of d, where ?'a = nat] by simp
  then have "unat d < 2 ^ 128" by simp
  then show ?thesis by (simp add: unsigned_ucast_eq take_bit_nat_eq_self del: power_numeral)
qed

lemma div_rem_u32_val:
  assumes "d \<noteq> 0"
  shows "\<exists>q r. div_rem_u32 n d = Inr (q, r) \<and> nat_wf q \<and> length (limbs q) \<le> length (limbs n)
    \<and> nat_val q = nat_val n div unat d \<and> unat r = nat_val n mod unat d"
proof -
  have lt: "unat d < 2 ^ 32" using unsigned_less [of d] by simp
  have d: "0 < unat (ucast d :: u128)" "unat (ucast d :: u128) < limb_base"
    using assms lt by (simp_all add: unat_ucast_u32 unat_gt_0 limb_base_def)
  obtain qs r where dl: "div_loop (ucast d) (rev (limbs n)) 0 = Inr (qs, r)" "length qs = length (limbs n)"
    and "limbs_val (rev qs) = limbs_val (limbs n) div unat d" and r: "unat r = limbs_val (limbs n) mod unat d"
    using div_loop_exact [OF d, of "limbs n"] by (auto simp: unat_ucast_u32)
  moreover have "unat r < 2 ^ 32"
    using r lt d by (simp add: unat_ucast_u32 order.strict_trans [OF mod_less_divisor])
  then have "\<exists>w. u32_expect r = Inr w \<and> unat w = unat r"
    by (simp add: u32_expect_def word_less_nat_alt unsigned_ucast_eq take_bit_nat_eq_self)
  ultimately show ?thesis
    using length_normalize_limbs_le [of "rev qs"]
    by (auto simp add: div_rem_u32_def nat_val_def nat_wf_def)
qed

lemma nat_val_eq_0: "nat_wf n \<Longrightarrow> nat_val n = 0 \<longleftrightarrow> limbs n = []"
  by (auto simp: nat_wf_def normalized_iff nat_val_def)

section \<open>Properties of exact naturals\<close>

text \<open>
  C7: addition and multiplication of exact naturals are exact at every size: the limb loops never
  wrap, the schoolbook product never indexes out of its buffer and its carry loop ends, the values are
  the sum and the product, and both results are again normalized.
\<close>

theorem exact_natural_ring:
  assumes "nat_wf a" "nat_wf b"
  shows "nat_wf (nat_add_assign a b) \<and> nat_val (nat_add_assign a b) = nat_val a + nat_val b
    \<and> (\<exists>c. multiplied a b = Inr c \<and> nat_wf c \<and> nat_val c = nat_val a * nat_val b)"
  using nat_add_assign_wf [OF assms] nat_add_assign_val multiplied_val by blast

theorem exact_natural_ring_witness:
  "let a = \<lparr>limbs = [18446744073709551615, 18446744073709551615]\<rparr>; b = \<lparr>limbs = [5, 1]\<rparr>
   in nat_wf a \<and> nat_wf b \<and> nat_add_assign a b = \<lparr>limbs = [4, 1, 1]\<rparr>
      \<and> nat_val (nat_add_assign a b) = nat_val a + nat_val b"
proof -
  have wf: "nat_wf \<lparr>limbs = [18446744073709551615, 18446744073709551615]\<rparr>" "nat_wf \<lparr>limbs = [5, 1]\<rparr>"
    by (simp_all add: nat_wf_def normalized_def)
  have "nat_add_assign \<lparr>limbs = [18446744073709551615, 18446744073709551615]\<rparr> \<lparr>limbs = [5, 1]\<rparr>
      = \<lparr>limbs = [4, 1, 1]\<rparr>"
    by (simp add: nat_add_assign_def resize_def low_u64_eq drop_bit_eq_div Let_def)
  with wf exact_natural_ring [OF wf] show ?thesis by (simp only: Let_def)
qed

text \<open>
  C17: \<open>checked_sub_assign\<close> reports failure and leaves the number alone exactly when it would go
  negative; otherwise it subtracts exactly and the result is normalized. The comparison it relies on
  orders normalized limb vectors as their values, and equal values have equal representations.
\<close>

theorem checked_sub_correct:
  assumes "nat_wf a" "nat_wf b"
  shows "nat_cmp a b = cmp (nat_val a) (nat_val b)
    \<and> (nat_val a = nat_val b \<longleftrightarrow> a = b)
    \<and> (nat_val a < nat_val b \<longrightarrow> checked_sub_assign a b = (False, a))
    \<and> (nat_val b \<le> nat_val a \<longrightarrow> (\<exists>c. checked_sub_assign a b = (True, c) \<and> nat_wf c
          \<and> nat_val c = nat_val a - nat_val b))"
proof -
  note sub = checked_sub_assign_val [OF assms]
  have "nat_val b \<le> nat_val a \<Longrightarrow> checked_sub_assign a b = (True, snd (checked_sub_assign a b))"
    using sub(1) by simp
  then show ?thesis
    using nat_cmp_val [OF assms] nat_val_inject [OF assms] sub by auto
qed

theorem checked_sub_correct_witness:
  "let a = \<lparr>limbs = [0, 1]\<rparr>; b = \<lparr>limbs = [1]\<rparr>
   in nat_wf a \<and> nat_wf b \<and> nat_val b \<le> nat_val a
      \<and> (\<exists>c. checked_sub_assign a b = (True, c) \<and> nat_val c = nat_val a - nat_val b)
      \<and> checked_sub_assign b a = (False, b)"
proof -
  have wf: "nat_wf \<lparr>limbs = [0, 1]\<rparr>" "nat_wf \<lparr>limbs = [1]\<rparr>"
    by (simp_all add: nat_wf_def normalized_def)
  have "nat_val \<lparr>limbs = [1]\<rparr> < nat_val \<lparr>limbs = [0, 1]\<rparr>"
    by (simp add: nat_val_def limb_base_def)
  with wf checked_sub_correct [OF wf] checked_sub_correct [OF wf(2,1)] show ?thesis
    by (simp only: Let_def) (auto simp: less_imp_le)
qed

text \<open>
  C18: division by a machine integer is exact long division: a zero divisor is reported as \<open>None\<close>; for
  any other divisor no quotient limb overflows (no \<open>expect\<close> fails), and the quotient and remainder are
  those of the values.
\<close>

theorem div_rem_u64_correct:
  "div_rem_u64_assign n 0 = Inr None
   \<and> (d \<noteq> 0 \<longrightarrow> (\<exists>q r. div_rem_u64_assign n d = Inr (Some (q, r)) \<and> nat_wf q
        \<and> nat_val q = nat_val n div unat d \<and> unat r = nat_val n mod unat d))"
  using div_rem_u64_assign_val by (simp add: div_rem_u64_assign_def)

theorem div_rem_u64_correct_witness:
  "\<exists>q r. div_rem_u64_assign \<lparr>limbs = [5, 1]\<rparr> 10 = Inr (Some (q, r)) \<and> nat_wf q
     \<and> nat_val q = 1844674407370955162 \<and> unat r = 1"
  using div_rem_u64_correct [of "\<lparr>limbs = [5, 1]\<rparr>" 10] by (simp add: nat_val_def limb_base_def)

end
