(* ===== verification/Exact_Decimal.thy ===== *)
theory Exact_Decimal
  imports Exact_Natural
begin

text \<open>
  Decimal output of exact naturals (\<open>ExactNatural::to_decimal_string\<close> in
  \<open>src/crates/kernel-exact/src/lib.rs\<close>): the loop that splits the number into base \<open>10 ^ 9\<close> chunks, its
  termination, and the proof that reading the string back gives the number.
\<close>

text \<open>\<open>u32::to_string\<close> and the format \<open>{:09}\<close>.\<close>

fun show_nat :: "nat \<Rightarrow> string" where
  "show_nat n = (if n < 10 then [char_of (48 + n)] else show_nat (n div 10) @ [char_of (48 + n mod 10)])"

declare show_nat.simps [simp del]

definition pad9 :: "nat \<Rightarrow> string" where
  "pad9 n = replicate (9 - length (show_nat n)) (CHR ''0'') @ show_nat n"

text \<open>
  The loop \<open>while !work.is_zero() { chunks.push(work.div_rem_u32(1_000_000_000)) }\<close>, least significant
  chunk first.
\<close>

function decimal_chunks :: "exact_natural \<Rightarrow> (panic, u32 list) result" where
  "decimal_chunks work =
     (if is_zero work then Inr []
      else case div_rem_u32 work 1000000000 of
        Inl p \<Rightarrow> Inl p
      | Inr (q, r) \<Rightarrow> (case decimal_chunks q of Inl p \<Rightarrow> Inl p | Inr cs \<Rightarrow> Inr (r # cs)))"
  by pat_completeness auto
termination
proof (relation "measure (\<lambda>n. nat_val n + length (limbs n))", goal_cases)
  case (2 work qr q r)
  then have nz: "limbs work \<noteq> []" by (simp add: is_zero_def)
  from 2 div_rem_u32_val [of 1000000000 work]
  have v: "nat_val q = nat_val work div 1000000000" "length (limbs q) \<le> length (limbs work)" "nat_wf q"
    by auto
  show ?case
  proof (cases "nat_val work = 0")
    case True
    with v have "limbs q = []" by (auto simp: nat_wf_def normalized_iff nat_val_def)
    with v True nz show ?thesis by simp
  next
    case False
    then have "nat_val q < nat_val work" using v(1) by simp
    with v(2) show ?thesis by simp
  qed
qed simp

declare decimal_chunks.simps [simp del]

definition to_decimal_string :: "exact_natural \<Rightarrow> (panic, string) result" where
  "to_decimal_string n =
     (if is_zero n then Inr ''0''
      else res_bind (decimal_chunks n) (\<lambda>chunks.
        case rev chunks of
          [] \<Rightarrow> Inl Panic
        | first # rest \<Rightarrow> Inr (show_nat (unat first) @ concat (map (\<lambda>c. pad9 (unat c)) rest))))"

text \<open>Reading a decimal string back.\<close>

definition digit_val :: "char \<Rightarrow> nat" where
  "digit_val c = of_char c - 48"

definition decimal_val :: "string \<Rightarrow> nat" where
  "decimal_val s = foldl (\<lambda>a c. 10 * a + digit_val c) 0 s"

definition is_digit :: "char \<Rightarrow> bool" where
  "is_digit c = (48 \<le> (of_char c :: nat) \<and> (of_char c :: nat) \<le> 57)"

lemma foldl_decimal: "foldl (\<lambda>a c. 10 * a + digit_val c) k s = k * 10 ^ length s + decimal_val s"
proof (induction s arbitrary: k rule: rev_induct)
  case (snoc x xs)
  show ?case by (simp add: decimal_val_def snoc [of k])
qed (simp add: decimal_val_def)

lemma decimal_val_append: "decimal_val (s @ t) = decimal_val s * 10 ^ length t + decimal_val t"
  using foldl_decimal [of "decimal_val s" t] by (simp add: decimal_val_def)

lemma decimal_digit [simp]:
  "n < 10 \<Longrightarrow> digit_val (char_of (48 + n)) = n" "n < 10 \<Longrightarrow> is_digit (char_of (48 + n))"
  by (simp_all add: digit_val_def is_digit_def)

lemma show_nat_val: "decimal_val (show_nat n) = n \<and> list_all is_digit (show_nat n)"
proof (induction n rule: show_nat.induct)
  case (1 n)
  show ?case
  proof (cases "n < 10")
    case True
    then show ?thesis by (subst (1 2) show_nat.simps) (simp add: decimal_val_def)
  next
    case False
    with 1 have "decimal_val (show_nat (n div 10)) = n div 10 \<and> list_all is_digit (show_nat (n div 10))" by blast
    then show ?thesis using False
      by (subst (1 2) show_nat.simps) (simp add: decimal_val_append, simp add: decimal_val_def)
  qed
qed

lemma show_nat_length: "k < 10 ^ Suc m \<Longrightarrow> length (show_nat k) \<le> Suc m"
proof (induction m arbitrary: k)
  case 0
  then show ?case by (simp add: show_nat.simps [of k])
next
  case (Suc m)
  then have "k div 10 < 10 ^ Suc m" by (simp add: less_mult_imp_div_less mult.commute)
  then show ?case using Suc.IH [of "k div 10"] by (simp add: show_nat.simps [of k])
qed

lemma decimal_val_zeros: "decimal_val (replicate k (CHR ''0'') @ s) = decimal_val s"
proof -
  have "decimal_val (replicate k (CHR ''0'')) = 0"
    by (induction k) (simp_all add: decimal_val_def digit_val_def)
  then show ?thesis by (simp add: decimal_val_append)
qed

lemma pad9_val: "k < 1000000000 \<Longrightarrow> length (pad9 k) = 9 \<and> decimal_val (pad9 k) = k \<and> list_all is_digit (pad9 k)"
  using show_nat_length [of k 8] show_nat_val [of k]
  by (simp add: pad9_def decimal_val_zeros list_all_length is_digit_def nth_append)

text \<open>The chunks are the base \<open>10 ^ 9\<close> digits of the number.\<close>

fun chunks_val :: "u32 list \<Rightarrow> nat" where
  "chunks_val [] = 0"
| "chunks_val (c # cs) = unat c + 1000000000 * chunks_val cs"

lemma decimal_chunks_val:
  "\<exists>cs. decimal_chunks n = Inr cs \<and> chunks_val cs = nat_val n \<and> (\<forall>c \<in> set cs. unat c < 1000000000)
     \<and> (cs = [] \<longleftrightarrow> is_zero n)"
proof (induction n rule: decimal_chunks.induct)
  case (1 n)
  show ?case
  proof (cases "is_zero n")
    case False
    obtain q r where qr: "div_rem_u32 n 1000000000 = Inr (q, r)"
      and v: "nat_val q = nat_val n div 1000000000" "unat r = nat_val n mod 1000000000"
      using div_rem_u32_val [of 1000000000 n] by auto
    from "1.IH" [OF False qr refl] obtain cs where
      "decimal_chunks q = Inr cs" "chunks_val cs = nat_val q" "\<forall>c \<in> set cs. unat c < 1000000000"
      by blast
    with qr v False show ?thesis by (subst decimal_chunks.simps) simp
  qed (simp add: decimal_chunks.simps is_zero_def nat_val_def)
qed

lemma concat_pad9_val:
  "(\<forall>c \<in> set cs. unat c < 1000000000) \<Longrightarrow>
   decimal_val (s @ concat (map (\<lambda>c. pad9 (unat c)) (rev cs)))
     = decimal_val s * 1000000000 ^ length cs + chunks_val cs"
proof (induction cs)
  case (Cons c cs)
  then have "decimal_val (s @ concat (map (\<lambda>c. pad9 (unat c)) (rev cs)))
     = decimal_val s * 1000000000 ^ length cs + chunks_val cs" by simp
  moreover have "unat c < 1000000000" using Cons.prems by simp
  ultimately have "decimal_val ((s @ concat (map (\<lambda>c. pad9 (unat c)) (rev cs))) @ pad9 (unat c))
     = (decimal_val s * 1000000000 ^ length cs + chunks_val cs) * 10 ^ 9 + unat c"
    using pad9_val [of "unat c"] by (simp only: decimal_val_append [of _ "pad9 (unat c)"])
  then show ?case by simp
qed simp

lemma chunks_val_append: "chunks_val (cs @ ds) = chunks_val cs + 1000000000 ^ length cs * chunks_val ds"
  by (induction cs) (simp_all add: algebra_simps)

lemma to_decimal_string_val:
  "\<exists>s. to_decimal_string n = Inr s \<and> decimal_val s = nat_val n \<and> list_all is_digit s"
proof (cases "is_zero n")
  case True
  then show ?thesis
    by (simp add: to_decimal_string_def decimal_val_def digit_val_def is_digit_def is_zero_def nat_val_def)
next
  case False
  obtain cs where cs: "decimal_chunks n = Inr cs" "chunks_val cs = nat_val n"
    "\<forall>c \<in> set cs. unat c < 1000000000" "cs \<noteq> []"
    using decimal_chunks_val [of n] False by blast
  then obtain ds first where ds: "cs = ds @ [first]" by (cases cs rule: rev_cases) auto
  have "decimal_val (show_nat (unat first) @ concat (map (\<lambda>c. pad9 (unat c)) (rev ds))) = nat_val n"
    using cs concat_pad9_val [of ds "show_nat (unat first)"] show_nat_val [of "unat first"]
    by (simp add: ds chunks_val_append mult.commute)
  moreover have "list_all is_digit (show_nat (unat first) @ concat (map (\<lambda>c. pad9 (unat c)) (rev ds)))"
    using cs(3) pad9_val show_nat_val by (auto simp: ds list_all_iff)
  ultimately show ?thesis using False cs(1) by (simp add: to_decimal_string_def ds)
qed

section \<open>Properties of decimal output\<close>

text \<open>
  C19: \<open>to_decimal_string\<close> returns for every exact natural: its chunk loop ends and never panics, the
  string consists of digits, and reading it back in base ten gives the number.
\<close>

theorem decimal_round_trip:
  "\<exists>s. to_decimal_string n = Inr s \<and> list_all is_digit s \<and> decimal_val s = nat_val n"
  using to_decimal_string_val by blast

end
