(* ===== verification/Exact_Bits.thy ===== *)
theory Exact_Bits
  imports Exact_Natural
begin

text \<open>
  The bit view of exact naturals and their construction from machine integers (\<open>bit\<close>, \<open>bit_len\<close>,
  \<open>any_bits_below\<close>, \<open>shr_to_u64\<close>, \<open>to_u64\<close>, \<open>from_u128\<close> and \<open>from_shifted_u64\<close> in
  \<open>src/crates/kernel-exact/src/lib.rs\<close>).
\<close>

unbundle bit_operations_syntax

section \<open>Bits\<close>

lemma limbs_val_bits: "limbs_val (x # xs) = unat x OR push_bit 64 (limbs_val xs)"
proof -
  have "unat x AND push_bit 64 (limbs_val xs) = 0"
    by (rule bit_eqI) (auto simp: bit_simps dest: bit_imp_le_length)
  then have "unat x OR push_bit 64 (limbs_val xs) = unat x + push_bit 64 (limbs_val xs)"
    by (rule disjunctive_add_eq_or [symmetric])
  then show ?thesis by (simp add: push_bit_eq_mult limb_base_def)
qed

lemma bit_limbs_val:
  "bit (limbs_val xs) i \<longleftrightarrow> i div 64 < length xs \<and> bit (xs ! (i div 64)) (i mod 64)"
proof (induction xs arbitrary: i)
  case (Cons x xs)
  have "bit (limbs_val (x # xs)) i \<longleftrightarrow> bit x i \<or> 64 \<le> i \<and> bit (limbs_val xs) (i - 64)"
    unfolding limbs_val_bits by (auto simp: bit_simps)
  also have "\<dots> \<longleftrightarrow> i div 64 < length (x # xs) \<and> bit ((x # xs) ! (i div 64)) (i mod 64)"
  proof (cases "64 \<le> i")
    case True
    then have "\<not> bit x i" by (auto dest: bit_imp_le_length)
    with True show ?thesis by (auto simp: Cons.IH nth_Cons' div_if [of i] mod_if [of i])
  qed auto
  finally show ?case .
qed simp

lemma bit_at_val: "bit_at n i = bit (nat_val n) i"
  by (auto simp: bit_at_def nat_val_def bit_limbs_val get_vec_def Let_def and_exp_eq_0_iff_not_bit)

lemma bit_limb_or_zero: "bit (limb_or_zero n j) k \<longleftrightarrow> k < 64 \<and> bit (nat_val n) (64 * j + k)"
  by (cases "k < 64")
     (auto simp: limb_or_zero_def nat_val_def bit_limbs_val get_vec_def dest: bit_imp_le_length)

lemma bit_shr_to_u64: "bit (shr_to_u64 n s) k \<longleftrightarrow> k < 64 \<and> bit (nat_val n) (s + k)"
proof -
  define l b where "l = s div 64" and "b = s mod 64"
  have s: "s = 64 * l + b" and b: "b < 64" by (simp_all add: l_def b_def)
  have low: "bit (drop_bit b (limb_or_zero n l)) k \<longleftrightarrow> b + k < 64 \<and> bit (nat_val n) (s + k)"
    by (auto simp: bit_simps bit_limb_or_zero s ac_simps)
  have high: "bit (push_bit (64 - b) (limb_or_zero n (l + 1))) k
    \<longleftrightarrow> k < 64 \<and> 64 \<le> b + k \<and> bit (nat_val n) (s + k)" if "b \<noteq> 0"
  proof -
    have eq: "64 - b \<le> k \<Longrightarrow> 64 * (l + 1) + (k - (64 - b)) = s + k" using b by (simp add: s)
    have "bit (push_bit (64 - b) (limb_or_zero n (l + 1))) k
      \<longleftrightarrow> 64 - b \<le> k \<and> k < 64 \<and> bit (limb_or_zero n (l + 1)) (k - (64 - b))"
      by (auto simp: bit_simps)
    also have "\<dots> \<longleftrightarrow> k < 64 \<and> 64 \<le> b + k \<and> bit (nat_val n) (s + k)"
      unfolding bit_limb_or_zero using that b eq
      by (cases "64 - b \<le> k") (simp_all only: simp_thms, auto)
    finally show ?thesis .
  qed
  show ?thesis
  proof (cases "b = 0")
    case True
    then show ?thesis using low by (simp add: shr_to_u64_def Let_def l_def b_def)
  next
    case False
    then have "shr_to_u64 n s = drop_bit b (limb_or_zero n l) OR push_bit (64 - b) (limb_or_zero n (l + 1))"
      by (simp add: shr_to_u64_def Let_def l_def b_def)
    then show ?thesis using low high [OF False] by (auto simp: bit_simps)
  qed
qed

lemma shr_to_u64_val: "unat (shr_to_u64 n s) = (nat_val n div 2 ^ s) mod 2 ^ 64"
proof -
  have "unat (shr_to_u64 n s) = take_bit 64 (drop_bit s (nat_val n))"
    by (rule bit_eqI) (auto simp: bit_simps bit_shr_to_u64)
  then show ?thesis by (simp only: take_bit_eq_mod drop_bit_eq_div)
qed

lemma word_nonzero_iff_bit: "(w :: u64) \<noteq> 0 \<longleftrightarrow> (\<exists>b < 64. bit w b)"
proof -
  have "w = 0 \<longleftrightarrow> (\<forall>b < 64. \<not> bit w b)" by (auto intro: bit_word_eqI)
  then show ?thesis by blast
qed

lemma masked_nonzero_iff: "m < 64 \<Longrightarrow> (w :: u64) AND (push_bit m 1 - 1) \<noteq> 0 \<longleftrightarrow> (\<exists>b < m. bit w b)"
proof -
  assume m: "m < 64"
  have "w AND (push_bit m 1 - 1) = take_bit m w"
    by (simp add: take_bit_eq_mask mask_eq_exp_minus_1)
  moreover have "take_bit m w \<noteq> 0 \<longleftrightarrow> (\<exists>b < m. bit w b)"
    unfolding word_nonzero_iff_bit bit_take_bit_iff using m order.strict_trans [of _ m 64] by blast
  ultimately show ?thesis by simp
qed

lemma ex_less_add: "(\<exists>i < m + k. P i) \<longleftrightarrow> (\<exists>i < m. P i) \<or> (\<exists>b < k. P (m + b))" for m k :: nat
proof
  assume "\<exists>i < m + k. P i"
  then obtain i where "i < m + k" "P i" by blast
  then show "(\<exists>i < m. P i) \<or> (\<exists>b < k. P (m + b))"
    by (cases "i < m") (auto intro: exI [of _ "i - m"])
next
  assume "(\<exists>i < m. P i) \<or> (\<exists>b < k. P (m + b))"
  then show "\<exists>i < m + k. P i"
  proof (elim disjE exE conjE)
    show "\<exists>i < m + k. P i" if "i < m" "P i" for i using that by (intro exI [of _ i]) simp
    show "\<exists>i < m + k. P i" if "b < k" "P (m + b)" for b using that by (intro exI [of _ "m + b"]) simp
  qed
qed

lemma any_bits_below_iff: "any_bits_below n e \<longleftrightarrow> (\<exists>i < e. bit (nat_val n) i)"
proof -
  define f r where "f = e div 64" and "r = e mod 64"
  have e: "e = 64 * f + r" and r: "r < 64" by (simp_all add: f_def r_def)
  have full: "list_ex (\<lambda>v. v \<noteq> 0) (take f (limbs n)) \<longleftrightarrow> (\<exists>i < 64 * f. bit (nat_val n) i)"
  proof
    assume "list_ex (\<lambda>v. v \<noteq> 0) (take f (limbs n))"
    then obtain j where j: "j < f" "j < length (limbs n)" "limbs n ! j \<noteq> 0"
      by (auto simp: list_ex_length)
    then obtain b where "b < 64" "bit (limbs n ! j) b" using word_nonzero_iff_bit by blast
    with j have "64 * j + b < 64 * f \<and> bit (nat_val n) (64 * j + b)"
      by (simp add: nat_val_def bit_limbs_val)
    then show "\<exists>i < 64 * f. bit (nat_val n) i" by blast
  next
    assume "\<exists>i < 64 * f. bit (nat_val n) i"
    then obtain i where i: "i < 64 * f" "bit (nat_val n) i" by blast
    then have j: "i div 64 < f" "i div 64 < length (limbs n)" "bit (limbs n ! (i div 64)) (i mod 64)"
      by (simp_all add: nat_val_def bit_limbs_val less_mult_imp_div_less mult.commute)
    then have "limbs n ! (i div 64) \<noteq> 0" by auto
    with j show "list_ex (\<lambda>v. v \<noteq> 0) (take f (limbs n))" by (auto simp: list_ex_length)
  qed
  have part: "(case get_vec (limbs n) f of None \<Rightarrow> False | Some v \<Rightarrow> v AND (push_bit r 1 - 1) \<noteq> 0)
    \<longleftrightarrow> (\<exists>b < r. bit (nat_val n) (64 * f + b))"
    using r masked_nonzero_iff [OF r] by (auto simp: get_vec_def nat_val_def bit_limbs_val)
  have "(\<exists>i < e. bit (nat_val n) i) \<longleftrightarrow> (\<exists>i < 64 * f. bit (nat_val n) i) \<or> (\<exists>b < r. bit (nat_val n) (64 * f + b))"
    unfolding e by (rule ex_less_add)
  moreover have "any_bits_below n e \<longleftrightarrow> list_ex (\<lambda>v. v \<noteq> 0) (take f (limbs n))
    \<or> r \<noteq> 0 \<and> (case get_vec (limbs n) f of None \<Rightarrow> False | Some v \<Rightarrow> v AND (push_bit r 1 - 1) \<noteq> 0)"
    unfolding any_bits_below_def Let_def f_def r_def by auto
  ultimately show ?thesis using full part by (cases "r = 0") simp_all
qed

lemma leading_zeros_bounds:
  assumes "w \<noteq> 0"
  shows "leading_zeros w < 64" and "bit w (63 - leading_zeros w)" and "63 - leading_zeros w < j \<Longrightarrow> \<not> bit w j"
proof -
  let ?P = "\<lambda>i. \<not> bit w i" and ?xs = "rev [0..<64]"
  let ?l = "length (takeWhile ?P ?xs)"
  have nth: "i < 64 \<Longrightarrow> ?xs ! i = 63 - i" for i by (simp add: rev_nth)
  obtain b where b: "b < 64" "bit w b" using assms word_nonzero_iff_bit by blast
  show l: "leading_zeros w < 64"
  proof (rule ccontr)
    assume "\<not> leading_zeros w < 64"
    then have "?l = 64" using length_takeWhile_le [of ?P ?xs] by (simp add: leading_zeros_def)
    then have "takeWhile ?P ?xs = ?xs" by (metis length_rev length_upt diff_zero takeWhile_eq_take take_all order_refl)
    then have "?P b" using b by (auto dest: set_takeWhileD simp: takeWhile_eq_all_conv)
    with b show False by simp
  qed
  then show "bit w (63 - leading_zeros w)"
    using nth_length_takeWhile [of ?P ?xs] by (simp add: leading_zeros_def nth)
  assume j: "63 - leading_zeros w < j"
  show "\<not> bit w j"
  proof (cases "j < 64")
    case True
    then have "63 - j < ?l" using j by (simp add: leading_zeros_def)
    then have "?P (?xs ! (63 - j))" by (metis nth_mem set_takeWhileD takeWhile_nth)
    with True show ?thesis by (simp add: nth)
  qed (auto dest: bit_imp_le_length)
qed

lemma limb_bit_bounds:
  assumes "w \<noteq> 0"
  shows "2 ^ (63 - leading_zeros w) \<le> unat w" and "unat w < 2 ^ (64 - leading_zeros w)"
proof -
  note lz = leading_zeros_bounds [OF assms]
  have "bit (unat w) (63 - leading_zeros w)" using lz(2) by (simp add: bit_simps)
  then have "unat w div 2 ^ (63 - leading_zeros w) \<noteq> 0" unfolding bit_iff_odd by (rule contrapos_pn) simp
  then show "2 ^ (63 - leading_zeros w) \<le> unat w" by (simp add: div_eq_0_iff)
  have "bit w i \<Longrightarrow> i < 64 - leading_zeros w" for i using lz(1) lz(3) [of i] by force
  then have "take_bit (64 - leading_zeros w) (unat w) = unat w"
    by (intro bit_eqI) (auto simp: bit_simps)
  then show "unat w < 2 ^ (64 - leading_zeros w)" by (simp only: take_bit_nat_eq_self_iff)
qed

lemma bit_len_bounds:
  assumes "nat_wf n"
  shows "nat_val n < 2 ^ bit_len n" and "0 < nat_val n \<Longrightarrow> 2 ^ (bit_len n - 1) \<le> nat_val n"
proof -
  have "nat_val n < 2 ^ bit_len n \<and> (0 < nat_val n \<longrightarrow> 2 ^ (bit_len n - 1) \<le> nat_val n)"
  proof (cases "limbs n" rule: rev_cases)
    case (snoc xs x)
    have x: "x \<noteq> 0" using assms snoc by (simp add: nat_wf_def normalized_def)
    let ?B = "limb_base ^ length xs" and ?h = "64 - leading_zeros x"
    have B: "?B = 2 ^ (length xs * 64)" unfolding limb_base_def power_mult [symmetric] by (simp add: mult.commute)
    have v: "nat_val n = limbs_val xs + ?B * unat x" using snoc by (simp add: nat_val_def limbs_val_append)
    have bl: "bit_len n = length xs * 64 + ?h" using snoc by (simp add: bit_len_def)
    have "nat_val n < ?B * Suc (unat x)" using v limbs_val_bound [of xs] by simp
    also have "\<dots> \<le> ?B * 2 ^ ?h" using limb_bit_bounds(2) [OF x] by (intro mult_le_mono2) simp
    finally have up: "nat_val n < 2 ^ bit_len n" by (simp add: bl B power_add)
    have "2 ^ (bit_len n - 1) = ?B * 2 ^ (63 - leading_zeros x)"
      using leading_zeros_bounds(1) [OF x] by (simp add: bl B power_add [symmetric])
    also have "\<dots> \<le> nat_val n" using limb_bit_bounds(1) [OF x] v by (simp add: trans_le_add2)
    finally show ?thesis using up by simp
  qed (simp add: bit_len_def nat_val_def)
  then show "nat_val n < 2 ^ bit_len n" and "0 < nat_val n \<Longrightarrow> 2 ^ (bit_len n - 1) \<le> nat_val n" by auto
qed

lemma to_u64_val:
  assumes "nat_wf n"
  shows "to_u64 n = (if nat_val n < 2 ^ 64 then Some (of_nat (nat_val n)) else None)"
proof -
  have iff: "bit_len n \<le> 64 \<longleftrightarrow> nat_val n < 2 ^ 64"
  proof
    assume "bit_len n \<le> 64"
    then have "(2::nat) ^ bit_len n \<le> 2 ^ 64" by (rule power_increasing) simp
    then show "nat_val n < 2 ^ 64" using bit_len_bounds(1) [OF assms] by linarith
  next
    assume lt: "nat_val n < 2 ^ 64"
    show "bit_len n \<le> 64"
    proof (rule ccontr)
      assume "\<not> bit_len n \<le> 64"
      then have "(2::nat) ^ 64 \<le> 2 ^ (bit_len n - 1)" by (intro power_increasing) simp_all
      moreover have "limbs n \<noteq> []" using \<open>\<not> bit_len n \<le> 64\<close> by (auto simp: bit_len_def)
      moreover from this have "0 < nat_val n"
        using nat_val_eq_0 [OF assms] by simp
      ultimately show False using bit_len_bounds(2) [OF assms] lt by linarith
    qed
  qed
  have "nat_val n < 2 ^ 64 \<Longrightarrow> shr_to_u64 n 0 = of_nat (nat_val n)"
    using shr_to_u64_val [of n 0] by (metis div_by_1 mod_less of_nat_unat power_0 ucast_id)
  then show ?thesis by (simp add: to_u64_def iff)
qed

section \<open>Construction\<close>

lemma from_u128_val: "nat_val (from_u128 v) = unat v \<and> nat_wf (from_u128 v)"
proof -
  have hi: "unat v div limb_base < limb_base"
    using unsigned_less [of v, where ?'a = nat] by (simp add: less_mult_imp_div_less limb_base_def)
  define h where "h = (ucast (drop_bit 64 v) :: u64)"
  have "unat h = unat v div limb_base"
    unfolding h_def using hi by (simp add: low_u64_eq [symmetric] limb_simps)
  moreover have "h = 0 \<longleftrightarrow> unat h = 0" by (simp add: unat_eq_zero)
  moreover have "low_u64 v = 0 \<longleftrightarrow> unat v mod limb_base = 0"
    by (simp add: unat_eq_zero [symmetric] limb_simps)
  moreover have "v = 0 \<longleftrightarrow> unat v = 0" by (simp add: unat_eq_zero)
  ultimately show ?thesis
    using mod_mult_div_eq [of "unat v" limb_base] mod_eq_self_iff_div_eq_0 [of "unat v" limb_base]
    by (auto simp: from_u128_def exact_zero_def Let_def h_def [symmetric] nat_val_def nat_wf_def
        normalized_def limb_simps)
qed

lemma from_u64_val: "nat_val (from_u64 v) = unat v \<and> nat_wf (from_u64 v)"
  by (simp add: from_u64_def from_u128_val limb_simps)

lemma shift_split:
  assumes "b < 64"
  shows "unat (push_bit b v :: u64) + limb_base * unat (if b \<noteq> 0 then drop_bit (64 - b) v else 0) = unat v * 2 ^ b"
proof (cases "b = 0")
  case False
  have pow: "limb_base = 2 ^ b * 2 ^ (64 - b)" using assms by (simp add: limb_base_def power_add [symmetric])
  have "unat (push_bit b v) = (2 ^ b * unat v) mod limb_base"
    by (simp only: unsigned_push_bit_eq) (simp add: push_bit_eq_mult take_bit_eq_mod limb_base_def mult.commute)
  also have "\<dots> = 2 ^ b * (unat v mod 2 ^ (64 - b))" unfolding pow by (rule mult_mod_right [symmetric])
  finally have lo: "unat (push_bit b v) = 2 ^ b * (unat v mod 2 ^ (64 - b))" .
  have hi: "unat (drop_bit (64 - b) v) = unat v div 2 ^ (64 - b)"
    using unsigned_less [of v, where ?'a = nat]
    by (simp only: unsigned_drop_bit_eq) (simp add: drop_bit_eq_div take_bit_nat_eq_self)
  have "2 ^ b * (unat v mod 2 ^ (64 - b)) + limb_base * (unat v div 2 ^ (64 - b))
    = 2 ^ b * (unat v mod 2 ^ (64 - b) + 2 ^ (64 - b) * (unat v div 2 ^ (64 - b)))"
    unfolding pow by (simp only: distrib_left mult.assoc)
  then have "2 ^ b * (unat v mod 2 ^ (64 - b)) + limb_base * (unat v div 2 ^ (64 - b)) = 2 ^ b * unat v"
    by (simp only: mod_mult_div_eq)
  then show ?thesis using False unfolding lo by (simp add: hi mult.commute)
qed simp

lemma from_shifted_u64_val: "nat_val (from_shifted_u64 v s) = unat v * 2 ^ s \<and> nat_wf (from_shifted_u64 v s)"
proof (cases "v = 0")
  case True
  then show ?thesis by (simp add: from_shifted_u64_def exact_zero_def nat_val_def nat_wf_def)
next
  case False
  define l b where "l = s div 64" and "b = s mod 64"
  define lo hi where "lo = push_bit b v" and "hi = (if b \<noteq> 0 then drop_bit (64 - b) v else 0)"
  have rep: "replicate (l + 2) 0 = replicate l 0 @ [0, 0 :: u64]"
    unfolding replicate_add by (simp add: numeral_2_eq_2)
  have "(replicate (l + 2) 0)[l := lo, l + 1 := hi] = replicate l 0 @ [lo, hi]"
    and "(replicate (l + 2) 0)[l := lo] = replicate l 0 @ [lo, 0]"
    unfolding rep by (simp_all add: list_update_append)
  then have fs: "from_shifted_u64 v s = \<lparr>limbs = normalize_limbs (replicate l 0 @ [lo, hi])\<rparr>"
    unfolding from_shifted_u64_def Let_def l_def [symmetric] b_def [symmetric] lo_def hi_def
    using False by (cases "b = 0") simp_all
  have "limb_base ^ l * 2 ^ b = 2 ^ (64 * l + b)"
    unfolding limb_base_def power_mult [symmetric] by (simp only: power_add)
  also have "64 * l + b = s" by (simp add: l_def b_def)
  finally have pw: "limb_base ^ l * 2 ^ b = 2 ^ s" .
  have "nat_val (from_shifted_u64 v s) = limb_base ^ l * (unat lo + limb_base * unat hi)"
    by (simp add: fs nat_val_def limbs_val_append)
  also have "unat lo + limb_base * unat hi = unat v * 2 ^ b"
    unfolding lo_def hi_def by (rule shift_split) (simp add: b_def)
  also have "limb_base ^ l * (unat v * 2 ^ b) = unat v * 2 ^ s" by (simp add: pw [symmetric])
  finally show ?thesis by (simp add: fs nat_wf_def)
qed

section \<open>Properties of the bit view\<close>

text \<open>
  C20: the bit operations read the binary expansion of the value: \<open>bit\<close> is its bit, \<open>any_bits_below\<close>
  tells whether a low bit is set, \<open>shr_to_u64\<close> is the shifted value modulo \<open>2 ^ 64\<close>, \<open>bit_len\<close> is the
  length of the expansion, and \<open>to_u64\<close> succeeds exactly on values below \<open>2 ^ 64\<close>.
\<close>

theorem exact_bits_correct:
  assumes "nat_wf n"
  shows "bit_at n i = bit (nat_val n) i
    \<and> (any_bits_below n e \<longleftrightarrow> (\<exists>i < e. bit (nat_val n) i))
    \<and> unat (shr_to_u64 n s) = (nat_val n div 2 ^ s) mod 2 ^ 64
    \<and> nat_val n < 2 ^ bit_len n \<and> (0 < nat_val n \<longrightarrow> 2 ^ (bit_len n - 1) \<le> nat_val n)
    \<and> to_u64 n = (if nat_val n < 2 ^ 64 then Some (of_nat (nat_val n)) else None)"
  by (intro conjI impI bit_at_val any_bits_below_iff shr_to_u64_val bit_len_bounds [OF assms]
      to_u64_val [OF assms])

theorem exact_bits_correct_witness:
  "nat_wf \<lparr>limbs = [3, 1]\<rparr> \<and> unat (shr_to_u64 \<lparr>limbs = [3, 1]\<rparr> 1) = 9223372036854775809
   \<and> to_u64 \<lparr>limbs = [3, 1]\<rparr> = None"
proof -
  have wf: "nat_wf \<lparr>limbs = [3, 1]\<rparr>" by (simp add: nat_wf_def normalized_def)
  then show ?thesis
    using exact_bits_correct [OF wf, of 0 0 1] by (simp add: nat_val_def limb_base_def)
qed

text \<open>
  C21: the constructors build normalized numbers of the intended value, the shifted one included, for
  any shift distance.
\<close>

theorem exact_construction:
  "nat_wf (from_u128 v) \<and> nat_val (from_u128 v) = unat v
   \<and> nat_wf (from_u64 w) \<and> nat_val (from_u64 w) = unat w
   \<and> nat_wf (from_shifted_u64 w s) \<and> nat_val (from_shifted_u64 w s) = unat w * 2 ^ s"
  using from_u128_val from_u64_val from_shifted_u64_val by blast

end
