(* ===== verification/Exact_Integer.thy ===== *)
theory Exact_Integer
  imports Exact_Bits
begin

text \<open>
  The signed integers of \<open>src/crates/kernel-exact/src/lib.rs\<close> (\<open>ExactInteger\<close>), a sign and an exact
  natural, and the proof that their operations are those of \<open>int\<close>.
\<close>

section \<open>Exact integers\<close>

record exact_integer =
  negative :: bool
  magnitude :: exact_natural

definition int_zero :: exact_integer where
  "int_zero = \<lparr>negative = False, magnitude = exact_zero\<rparr>"

text \<open>\<open>i64\<close> is the word read as two's complement; \<open>i64::unsigned_abs\<close>.\<close>

definition unsigned_abs :: "u64 \<Rightarrow> u64" where
  "unsigned_abs v = (if sint v < 0 then - v else v)"

definition int_from_i64 :: "u64 \<Rightarrow> exact_integer" where
  "int_from_i64 value =
     (if value = 0 then int_zero
      else \<lparr>negative = sint value < 0, magnitude = from_u64 (unsigned_abs value)\<rparr>)"

definition from_parts :: "bool \<Rightarrow> exact_natural \<Rightarrow> exact_integer" where
  "from_parts neg mag = \<lparr>negative = neg \<and> \<not> is_zero mag, magnitude = mag\<rparr>"

definition int_is_zero :: "exact_integer \<Rightarrow> bool" where
  "int_is_zero i = is_zero (magnitude i)"

definition int_add_assign :: "exact_integer \<Rightarrow> exact_integer \<Rightarrow> exact_integer" where
  "int_add_assign self other =
     (if int_is_zero other then self
      else if int_is_zero self then other
      else if negative self = negative other
        then self\<lparr>magnitude := nat_add_assign (magnitude self) (magnitude other)\<rparr>
      else case nat_cmp (magnitude self) (magnitude other) of
          Greater \<Rightarrow> self\<lparr>magnitude := snd (checked_sub_assign (magnitude self) (magnitude other))\<rparr>
        | Less \<Rightarrow> \<lparr>negative = negative other,
                   magnitude = snd (checked_sub_assign (magnitude other) (magnitude self))\<rparr>
        | Equal \<Rightarrow> \<lparr>negative = False, magnitude = exact_zero\<rparr>)"

definition int_multiply :: "exact_integer \<Rightarrow> exact_integer \<Rightarrow> (panic, exact_integer) result" where
  "int_multiply self other =
     (if int_is_zero self \<or> int_is_zero other then Inr int_zero
      else res_bind (multiplied (magnitude self) (magnitude other)) (\<lambda>m.
        Inr \<lparr>negative = (negative self \<noteq> negative other), magnitude = m\<rparr>))"

definition scale_by_natural :: "exact_integer \<Rightarrow> exact_natural \<Rightarrow> (panic, exact_integer) result" where
  "scale_by_natural self multiplicity =
     (if int_is_zero self \<or> is_zero multiplicity then Inr int_zero
      else res_bind (multiplied (magnitude self) multiplicity) (\<lambda>m.
        Inr \<lparr>negative = negative self, magnitude = m\<rparr>))"

text \<open>The integer a sign-magnitude pair stands for; the invariant leaves one representation of zero.\<close>

definition int_val :: "exact_integer \<Rightarrow> int" where
  "int_val i = (if negative i then - int (nat_val (magnitude i)) else int (nat_val (magnitude i)))"

definition int_wf :: "exact_integer \<Rightarrow> bool" where
  "int_wf i = (nat_wf (magnitude i) \<and> (is_zero (magnitude i) \<longrightarrow> \<not> negative i))"

lemma nat_val_zero [simp]: "nat_val exact_zero = 0" "nat_wf exact_zero" "is_zero exact_zero"
  by (simp_all add: exact_zero_def nat_val_def nat_wf_def is_zero_def)

lemma is_zero_iff: "nat_wf n \<Longrightarrow> is_zero n \<longleftrightarrow> nat_val n = 0"
  by (simp add: nat_val_eq_0 is_zero_def)

lemma int_is_zero_iff: "int_wf i \<Longrightarrow> int_is_zero i \<longleftrightarrow> int_val i = 0"
  by (auto simp: int_is_zero_def int_val_def int_wf_def is_zero_iff)

lemma uint_lt: "uint (v :: u64) < 2 ^ 64"
  using unsigned_less [of v, where ?'a = int] by simp
lemma sint_cases: "sint (v :: u64) = uint v - (if sint v < 0 then 2 ^ 64 else 0)"
proof -
  have "sint v = uint v - 2 ^ 64 * of_bool (bit v 63)"
    using uint_lt [of v] by (simp add: sint_uint signed_take_bit_eq_take_bit_minus bit_simps take_bit_int_eq_self)
  then show ?thesis using uint_lt [of v] by (cases "bit v 63") simp_all
qed
lemma unsigned_abs_val: "int (unat (unsigned_abs v)) = \<bar>sint v\<bar>"
proof (cases "sint v < 0")
  case True
  then have s: "sint v = uint v - 2 ^ 64" using sint_cases[of v] by simp
  have "0 < uint v" 
  proof -
    have "v \<noteq> 0" using True by auto
    then show ?thesis by (simp add: uint_0_iff less_le)
  qed
  then have "uint (- v) = 2 ^ 64 - uint v" using uint_lt [of v]
    by (simp add: uint_word_ariths zmod_zminus1_eq_if)
  then show ?thesis using True s by (simp add: unsigned_abs_def)
next
  case False
  then show ?thesis using sint_cases[of v] by (simp add: unsigned_abs_def)
qed
lemma sint_0_iff: "sint (v::u64) = 0 \<longleftrightarrow> v = 0"
  by (metis signed_0 signed_word_eqI)

lemma int_from_i64_val: "int_val (int_from_i64 v) = sint v \<and> int_wf (int_from_i64 v)"
proof (cases "v = 0")
  case False
  have m: "int (nat_val (from_u64 (unsigned_abs v))) = \<bar>sint v\<bar>" "nat_wf (from_u64 (unsigned_abs v))"
    using from_u64_val [of "unsigned_abs v"] unsigned_abs_val [of v] by simp_all
  moreover have "sint v \<noteq> 0" using False by (simp add: sint_0_iff)
  ultimately show ?thesis
    using False by (auto simp: int_from_i64_def int_val_def int_wf_def is_zero_iff)
qed (simp add: int_from_i64_def int_zero_def int_val_def int_wf_def)

lemma from_parts_val:
  "nat_wf m \<Longrightarrow> int_val (from_parts s m) = (if s then - int (nat_val m) else int (nat_val m)) \<and> int_wf (from_parts s m)"
  by (auto simp: from_parts_def int_val_def int_wf_def is_zero_iff)

lemma int_add_assign_val:
  assumes "int_wf a" "int_wf b"
  shows "int_val (int_add_assign a b) = int_val a + int_val b \<and> int_wf (int_add_assign a b)"
proof -
  let ?m = "magnitude a" and ?n = "magnitude b"
  have wf: "nat_wf ?m" "nat_wf ?n" using assms by (simp_all add: int_wf_def)
  note sub = checked_sub_assign_val(2,3) [OF wf] checked_sub_assign_val(2,3) [OF wf(2,1)]
  consider "int_is_zero b" | "\<not> int_is_zero b" "int_is_zero a"
    | "\<not> int_is_zero b" "\<not> int_is_zero a" "negative a = negative b"
    | "\<not> int_is_zero b" "\<not> int_is_zero a" "negative a \<noteq> negative b" by blast
  then show ?thesis
  proof cases
    case 1
    then show ?thesis using assms int_is_zero_iff [of b] by (simp add: int_add_assign_def)
  next
    case 2
    then show ?thesis using assms int_is_zero_iff [of a] by (simp add: int_add_assign_def)
  next
    case 3
    then show ?thesis using wf nat_add_assign_wf [OF wf]
      by (auto simp: int_add_assign_def int_val_def int_wf_def int_is_zero_def nat_add_assign_val is_zero_iff)
  next
    case 4
    then show ?thesis using wf sub nat_cmp_val [OF wf]
      by (cases "nat_val ?m" "nat_val ?n" rule: linorder_cases)
         (auto simp: int_add_assign_def int_val_def int_wf_def is_zero_iff)
  qed
qed

lemma int_multiply_val:
  assumes "int_wf a" "int_wf b"
  shows "\<exists>c. int_multiply a b = Inr c \<and> int_val c = int_val a * int_val b \<and> int_wf c"
proof -
  have wf: "nat_wf (magnitude a)" "nat_wf (magnitude b)" using assms by (simp_all add: int_wf_def)
  obtain m where "multiplied (magnitude a) (magnitude b) = Inr m"
    "nat_val m = nat_val (magnitude a) * nat_val (magnitude b)" "nat_wf m"
    using multiplied_val by blast
  then show ?thesis
    using wf by (auto simp: int_multiply_def int_is_zero_def int_val_def int_wf_def is_zero_iff int_zero_def)
qed

lemma scale_by_natural_val:
  assumes "int_wf a" "nat_wf n"
  shows "\<exists>c. scale_by_natural a n = Inr c \<and> int_val c = int_val a * int (nat_val n) \<and> int_wf c"
proof -
  have wf: "nat_wf (magnitude a)" using assms by (simp add: int_wf_def)
  obtain m where "multiplied (magnitude a) n = Inr m"
    "nat_val m = nat_val (magnitude a) * nat_val n" "nat_wf m"
    using multiplied_val by blast
  then show ?thesis
    using wf assms(2) by (auto simp: scale_by_natural_def int_is_zero_def int_val_def int_wf_def is_zero_iff int_zero_def)
qed

section \<open>Properties of exact integers\<close>

text \<open>
  C22: exact integers form the ring of integers: addition (through the signed magnitude cases),
  multiplication and scaling by a natural compute the integer sum and products, never panic, and keep
  the invariant that zero is not negative.
\<close>

theorem exact_integer_ring:
  assumes "int_wf a" "int_wf b" "nat_wf n"
  shows "int_wf (int_add_assign a b) \<and> int_val (int_add_assign a b) = int_val a + int_val b
    \<and> (\<exists>c. int_multiply a b = Inr c \<and> int_wf c \<and> int_val c = int_val a * int_val b)
    \<and> (\<exists>c. scale_by_natural a n = Inr c \<and> int_wf c \<and> int_val c = int_val a * int (nat_val n))"
  using int_add_assign_val [OF assms(1,2)] int_multiply_val [OF assms(1,2)]
    scale_by_natural_val [OF assms(1,3)] by blast

theorem exact_integer_ring_witness:
  "let a = int_from_i64 (- 7); b = int_from_i64 5; n = from_u64 3
   in int_wf a \<and> int_wf b \<and> nat_wf n \<and> int_val (int_add_assign a b) = - 2
      \<and> (\<exists>c. int_multiply a b = Inr c \<and> int_val c = - 35)
      \<and> (\<exists>c. scale_by_natural a n = Inr c \<and> int_val c = - 21)"
proof -
  have i: "int_wf (int_from_i64 (- 7))" "int_wf (int_from_i64 5)" "nat_wf (from_u64 3)"
    and v: "int_val (int_from_i64 (- 7)) = - 7" "int_val (int_from_i64 5) = 5" "nat_val (from_u64 3) = 3"
    using int_from_i64_val [of "- 7"] int_from_i64_val [of 5] from_u64_val [of 3] by simp_all
  from exact_integer_ring [OF i] show ?thesis by (auto simp: Let_def i v)
qed

end
