(* ===== verification/Std_Collections.thy ===== *)
theory Std_Collections
  imports Prelude
begin

text \<open>
  The ordered collections of the Rust standard library, as the source uses them. A \<open>BTreeMap\<close> is the
  list of its entries in key order and a \<open>BTreeSet\<close> the list of its elements in order, so that iteration
  is the list itself; the balancing of the B-tree has no observable effect.

  The locale \<open>ordered_map\<close> is the contract of an ordered map: lookup after insertion and removal, and
  iteration in key order. It is interpreted here on \<open>BTreeMap\<close> and, in \<open>Persistent_Map\<close>, on the AVL
  tree of the persistent map, so that what is derived from the contract holds of both.
\<close>

section \<open>Sorted association lists\<close>

lemma alist_of_keys:
  "distinct (map fst xs) \<Longrightarrow> map (\<lambda>k. (k, the (map_of xs k))) (map fst xs) = xs"
  by (auto simp: o_def intro!: map_idI)

lemma sorted_alist_eqI:
  fixes xs ys :: "('k::linorder \<times> 'v) list"
  assumes "sorted_wrt (<) (map fst xs)" "sorted_wrt (<) (map fst ys)" "map_of xs = map_of ys"
  shows "xs = ys"
proof -
  have "set (map fst xs) = set (map fst ys)"
    using arg_cong [OF assms(3), of dom] by (simp add: dom_map_of_conv_image_fst)
  with assms(1,2) have keys: "map fst xs = map fst ys"
    by (meson sorted_distinct_set_unique strict_sorted_iff)
  have "xs = map (\<lambda>k. (k, the (map_of xs k))) (map fst xs)"
    using assms(1) strict_sorted_iff alist_of_keys by metis
  also have "\<dots> = map (\<lambda>k. (k, the (map_of ys k))) (map fst ys)"
    by (simp only: keys assms(3))
  also have "\<dots> = ys"
    using assms(2) strict_sorted_iff alist_of_keys by metis
  finally show ?thesis .
qed

section \<open>The contract of an ordered map\<close>

locale ordered_map =
  fixes emp :: "'m"
    and ins :: "'k::linorder \<Rightarrow> 'v \<Rightarrow> 'm \<Rightarrow> 'm"
    and del :: "'k \<Rightarrow> 'm \<Rightarrow> 'm"
    and get :: "'m \<Rightarrow> 'k \<Rightarrow> 'v option"
    and entries :: "'m \<Rightarrow> ('k \<times> 'v) list"
    and wf :: "'m \<Rightarrow> bool"
  assumes wf_emp: "wf emp"
    and get_emp: "get emp k = None"
    and wf_ins: "wf m \<Longrightarrow> wf (ins k v m)"
    and get_ins: "wf m \<Longrightarrow> get (ins k v m) k' = (if k' = k then Some v else get m k')"
    and wf_del: "wf m \<Longrightarrow> wf (del k m)"
    and get_del: "wf m \<Longrightarrow> get (del k m) k' = (if k' = k then None else get m k')"
    and entries_sorted: "wf m \<Longrightarrow> sorted_wrt (<) (map fst (entries m))"
    and entries_get: "wf m \<Longrightarrow> map_of (entries m) k = get m k"
begin

lemma entries_distinct: "wf m \<Longrightarrow> distinct (map fst (entries m))"
  using entries_sorted strict_sorted_iff by blast

lemma entries_mem: "wf m \<Longrightarrow> (k, v) \<in> set (entries m) \<longleftrightarrow> get m k = Some v"
  using entries_distinct entries_get map_of_eq_Some_iff by metis

lemma keys_dom: "wf m \<Longrightarrow> set (map fst (entries m)) = dom (get m)"
  using entries_mem by (force simp: dom_def)

lemma finite_dom: "wf m \<Longrightarrow> finite (dom (get m))"
  using keys_dom by (metis finite_set)

lemma entries_eqI:
  assumes "wf m" "wf n" "get m = get n"
  shows "entries m = entries n"
proof (rule sorted_alist_eqI)
  show "map_of (entries m) = map_of (entries n)"
    using assms by (auto simp: entries_get)
qed (use assms entries_sorted in blast)+

lemma length_entries: "wf m \<Longrightarrow> length (entries m) = card (dom (get m))"
  using keys_dom entries_distinct by (metis distinct_card length_map)

lemma length_ins:
  assumes "wf m"
  shows "length (entries (ins k v m)) = length (entries m) + (if get m k = None then 1 else 0)"
proof -
  have "dom (get (ins k v m)) = insert k (dom (get m))"
    using assms by (auto simp: get_ins dom_def)
  then show ?thesis
    using assms finite_dom [OF assms] by (auto simp: length_entries wf_ins insert_absorb domIff)
qed

lemma length_del:
  assumes "wf m"
  shows "length (entries (del k m)) = length (entries m) - (if get m k = None then 0 else 1)"
proof -
  have "dom (get (del k m)) = dom (get m) - {k}"
    using assms by (auto simp: get_del dom_def)
  then show ?thesis
    using assms finite_dom [OF assms] by (auto simp: length_entries wf_del domIff card_Diff_singleton_if)
qed

text \<open>Collecting pairs into a map: a later pair replaces an earlier one with the same key.\<close>

lemma collect_pairs:
  assumes "wf m"
  shows "wf (fold (\<lambda>(k, v). ins k v) xs m)
    \<and> get (fold (\<lambda>(k, v). ins k v) xs m) k = (case map_of (rev xs) k of None \<Rightarrow> get m k | Some v \<Rightarrow> Some v)"
  using assms
proof (induction xs arbitrary: m)
  case (Cons x xs)
  obtain a b where x: "x = (a, b)" by fastforce
  from Cons.IH [OF wf_ins [OF Cons.prems, of a b]] show ?case
    by (auto simp: x map_add_def get_ins Cons.prems split: option.splits)
qed simp

end

section \<open>\<open>BTreeMap\<close>\<close>

type_synonym ('k, 'v) btree_map = "('k \<times> 'v) list"

fun bt_insert :: "'k::linorder \<Rightarrow> 'v \<Rightarrow> ('k, 'v) btree_map \<Rightarrow> ('k, 'v) btree_map" where
  "bt_insert k v [] = [(k, v)]"
| "bt_insert k v ((k', v') # m) =
     (if k < k' then (k, v) # (k', v') # m
      else if k = k' then (k, v) # m
      else (k', v') # bt_insert k v m)"

fun bt_remove :: "'k::linorder \<Rightarrow> ('k, 'v) btree_map \<Rightarrow> ('k, 'v) btree_map" where
  "bt_remove k [] = []"
| "bt_remove k ((k', v') # m) = (if k = k' then m else (k', v') # bt_remove k m)"

definition bt_get :: "('k, 'v) btree_map \<Rightarrow> 'k \<Rightarrow> 'v option" where
  "bt_get m k = map_of m k"

definition bt_keys :: "('k, 'v) btree_map \<Rightarrow> 'k list" where
  "bt_keys m = map fst m"

definition bt_from_iter :: "('k::linorder \<times> 'v) list \<Rightarrow> ('k, 'v) btree_map" where
  "bt_from_iter xs = fold (\<lambda>(k, v). bt_insert k v) xs []"

definition bt_wf :: "('k::linorder, 'v) btree_map \<Rightarrow> bool" where
  "bt_wf m \<longleftrightarrow> sorted_wrt (<) (map fst m)"

lemma set_bt_insert: "fst ` set (bt_insert k v m) = insert k (fst ` set m)"
  by (induction k v m rule: bt_insert.induct) auto

lemma set_bt_remove: "set (bt_remove k m) \<subseteq> set m"
  by (induction k m rule: bt_remove.induct) auto

lemma bt_wf_Cons: "bt_wf ((k, v) # m) \<longleftrightarrow> (\<forall>x \<in> fst ` set m. k < x) \<and> bt_wf m"
  by (auto simp: bt_wf_def)

lemma bt_wf_Nil [simp]: "bt_wf []"
  by (simp add: bt_wf_def)

lemma bt_wf_insert: "bt_wf m \<Longrightarrow> bt_wf (bt_insert k v m)"
  by (induction k v m rule: bt_insert.induct) (auto simp: bt_wf_Cons set_bt_insert)

lemma bt_wf_remove: "bt_wf m \<Longrightarrow> bt_wf (bt_remove k m)"
proof (induction k m rule: bt_remove.induct)
  case (2 k k' v' m)
  then show ?case using set_bt_remove [of k m] by (auto simp: bt_wf_Cons)
qed simp

lemma bt_get_insert: "bt_get (bt_insert k v m) k' = (if k' = k then Some v else bt_get m k')"
  by (induction k v m rule: bt_insert.induct) (auto simp: bt_get_def)

lemma bt_get_remove:
  "bt_wf m \<Longrightarrow> bt_get (bt_remove k m) k' = (if k' = k then None else bt_get m k')"
proof (induction k m rule: bt_remove.induct)
  case (2 k k'' v' m)
  then show ?case
    by (force simp: bt_wf_Cons bt_get_def map_of_eq_None_iff)
qed (simp add: bt_get_def)

interpretation btree: ordered_map "[]" bt_insert bt_remove bt_get "\<lambda>m. m" bt_wf
  by unfold_locales
    (simp_all add: bt_wf_insert bt_get_insert bt_wf_remove bt_get_remove,
     simp_all add: bt_get_def bt_wf_def)

lemma bt_eqI: "bt_wf m \<Longrightarrow> bt_wf n \<Longrightarrow> bt_get m = bt_get n \<Longrightarrow> m = n"
  by (rule btree.entries_eqI)

lemma bt_from_iter_wf [simp]: "bt_wf (bt_from_iter xs)"
  unfolding bt_from_iter_def using btree.collect_pairs [of "[]" xs] by simp

lemma bt_from_iter_get: "bt_get (bt_from_iter xs) k = map_of (rev xs) k"
  unfolding bt_from_iter_def using btree.collect_pairs [of "[]" xs k]
  by (auto simp: bt_wf_def bt_get_def split: option.splits)

lemma bt_from_iter_id: "bt_wf m \<Longrightarrow> bt_from_iter m = m"
proof (rule bt_eqI)
  assume wf: "bt_wf m"
  then have "distinct (map fst m)" by (rule btree.entries_distinct)
  then have "map_of (rev m) = map_of m"
    by (metis distinct_rev map_of_inject_set rev_map set_rev)
  then show "bt_get (bt_from_iter m) = bt_get m"
    by (intro ext) (simp add: bt_from_iter_get, simp add: bt_get_def)
qed simp_all

section \<open>\<open>BTreeSet\<close>\<close>

type_synonym 'k btree_set = "'k list"

fun bs_insert :: "'k::linorder \<Rightarrow> 'k btree_set \<Rightarrow> 'k btree_set" where
  "bs_insert k [] = [k]"
| "bs_insert k (x # s) = (if k < x then k # x # s else if k = x then x # s else x # bs_insert k s)"

definition bs_remove :: "'k \<Rightarrow> 'k btree_set \<Rightarrow> 'k btree_set" where
  "bs_remove k s = filter (\<lambda>x. x \<noteq> k) s"

definition bs_from_iter :: "'k::linorder list \<Rightarrow> 'k btree_set" where
  "bs_from_iter xs = fold bs_insert xs []"

text \<open>\<open>a.union(&b).copied().collect()\<close>.\<close>

definition bs_union :: "'k::linorder btree_set \<Rightarrow> 'k btree_set \<Rightarrow> 'k btree_set" where
  "bs_union a b = fold bs_insert b a"

definition bs_wf :: "'k::linorder btree_set \<Rightarrow> bool" where
  "bs_wf s \<longleftrightarrow> sorted_wrt (<) s"

lemma set_bs_insert [simp]: "set (bs_insert k s) = insert k (set s)"
  by (induction k s rule: bs_insert.induct) auto

lemma bs_wf_Nil [simp]: "bs_wf []"
  by (simp add: bs_wf_def)

lemma bs_wf_insert: "bs_wf s \<Longrightarrow> bs_wf (bs_insert k s)"
  by (induction k s rule: bs_insert.induct) (auto simp: bs_wf_def)

lemma set_bs_remove [simp]: "set (bs_remove k s) = set s - {k}"
  by (auto simp: bs_remove_def)

lemma bs_wf_remove: "bs_wf s \<Longrightarrow> bs_wf (bs_remove k s)"
  by (simp add: bs_wf_def bs_remove_def sorted_wrt_filter)

lemma fold_bs_insert:
  "set (fold bs_insert xs s) = set xs \<union> set s \<and> (bs_wf s \<longrightarrow> bs_wf (fold bs_insert xs s))"
  by (induction xs arbitrary: s) (auto simp: bs_wf_insert)

lemma set_bs_union [simp]: "set (bs_union a b) = set a \<union> set b"
  using fold_bs_insert [of b a] by (auto simp: bs_union_def)

lemma bs_wf_union: "bs_wf a \<Longrightarrow> bs_wf (bs_union a b)"
  using fold_bs_insert [of b a] by (simp add: bs_union_def)

lemma set_bs_from_iter [simp]: "set (bs_from_iter xs) = set xs"
  using fold_bs_insert [of xs "[]"] by (simp add: bs_from_iter_def)

lemma bs_wf_from_iter [simp]: "bs_wf (bs_from_iter xs)"
  using fold_bs_insert [of xs "[]"] by (simp add: bs_from_iter_def)

lemma bs_eq_iff: "bs_wf s \<Longrightarrow> bs_wf t \<Longrightarrow> s = t \<longleftrightarrow> set s = set t"
  by (meson bs_wf_def sorted_distinct_set_unique strict_sorted_iff)

lemma bs_from_iter_id: "bs_wf s \<Longrightarrow> bs_from_iter s = s"
  by (simp add: bs_eq_iff)

lemma bs_wf_distinct: "bs_wf s \<Longrightarrow> distinct s"
  by (simp add: bs_wf_def strict_sorted_iff)

lemma bs_length: "bs_wf s \<Longrightarrow> length s = card (set s)"
  by (simp add: bs_wf_distinct distinct_card)

lemma bt_keys_wf: "bt_wf m \<Longrightarrow> bs_wf (bt_keys m)"
  by (simp add: bt_wf_def bs_wf_def bt_keys_def)

lemma set_bt_keys: "set (bt_keys m) = dom (bt_get m)"
  by (simp add: bt_keys_def bt_get_def [abs_def] dom_map_of_conv_image_fst)

section \<open>The contract of a set\<close>

datatype 'a set_op = InsertOp 'a | RemoveOp 'a

text \<open>What a history of insertions and removals leaves in a set: the last operation on an element decides.\<close>

fun survives :: "'a \<Rightarrow> 'a set_op list \<Rightarrow> bool \<Rightarrow> bool" where
  "survives x [] b = b"
| "survives x (InsertOp y # ops) b = survives x ops (x = y \<or> b)"
| "survives x (RemoveOp y # ops) b = survives x ops (x \<noteq> y \<and> b)"

locale set_impl =
  fixes ins :: "'a \<Rightarrow> 's \<Rightarrow> 's"
    and del :: "'a \<Rightarrow> 's \<Rightarrow> 's"
    and mem :: "'s \<Rightarrow> 'a \<Rightarrow> bool"
    and abs :: "'s \<Rightarrow> 'a set"
    and wf :: "'s \<Rightarrow> bool"
  assumes wf_ins: "wf s \<Longrightarrow> wf (ins x s)"
    and abs_ins: "wf s \<Longrightarrow> abs (ins x s) = insert x (abs s)"
    and wf_del: "wf s \<Longrightarrow> wf (del x s)"
    and abs_del: "wf s \<Longrightarrow> abs (del x s) = abs s - {x}"
    and mem_abs: "wf s \<Longrightarrow> mem s x \<longleftrightarrow> x \<in> abs s"
begin

lemma mem_ins: "wf s \<Longrightarrow> mem (ins x s) y \<longleftrightarrow> y = x \<or> mem s y"
  by (auto simp: mem_abs wf_ins abs_ins)

lemma mem_del: "wf s \<Longrightarrow> mem (del x s) y \<longleftrightarrow> y \<noteq> x \<and> mem s y"
  by (auto simp: mem_abs wf_del abs_del)

lemma replay:
  "wf s \<Longrightarrow> mem (fold (\<lambda>op. case op of InsertOp x \<Rightarrow> ins x | RemoveOp x \<Rightarrow> del x) ops s) y
     = survives y ops (mem s y)"
proof (induction ops arbitrary: s)
  case (Cons op ops)
  then show ?case by (cases op) (simp_all add: wf_ins mem_ins wf_del mem_del)
qed simp

end

interpretation bset: set_impl bs_insert bs_remove "\<lambda>s x. x \<in> set s" set bs_wf
  by unfold_locales (simp_all add: bs_wf_insert bs_wf_remove)

end
