(* ===== verification/Kernel_Types.thy ===== *)
theory Kernel_Types
  imports Prelude
begin

text \<open>
  \<open>kernel-types\<close>: the identifier newtypes of the kernel. The macro \<open>semantic_id!\<close> makes each a struct
  around an unsigned integer with the derived order of its field; here each is a datatype with the same
  constructor and an instance of \<open>linorder\<close>. \<open>SemanticRevision\<close> derives the lexicographic order of its
  two fields.
\<close>

section \<open>Identifiers\<close>

datatype entity_id = EntityId (entity_raw: u128)

datatype semantic_id = SemanticId (semantic_raw: u128)

datatype schema_revision_id = SchemaRevisionId (schema_revision_raw: u64)

datatype semantic_env_id = SemanticEnvId (semantic_env_raw: u64)

datatype semantic_revision =
  SemanticRevision (revision_schema: schema_revision_id) (revision_environment: semantic_env_id)

instantiation entity_id :: linorder
begin

definition less_eq_entity_id :: "entity_id \<Rightarrow> entity_id \<Rightarrow> bool" where
  "less_eq_entity_id a b \<longleftrightarrow> entity_raw a \<le> entity_raw b"

definition less_entity_id :: "entity_id \<Rightarrow> entity_id \<Rightarrow> bool" where
  "less_entity_id a b \<longleftrightarrow> entity_raw a < entity_raw b"

instance
  by standard (auto simp: less_eq_entity_id_def less_entity_id_def entity_id.expand)

end

instantiation semantic_id :: linorder
begin

definition less_eq_semantic_id :: "semantic_id \<Rightarrow> semantic_id \<Rightarrow> bool" where
  "less_eq_semantic_id a b \<longleftrightarrow> semantic_raw a \<le> semantic_raw b"

definition less_semantic_id :: "semantic_id \<Rightarrow> semantic_id \<Rightarrow> bool" where
  "less_semantic_id a b \<longleftrightarrow> semantic_raw a < semantic_raw b"

instance
  by standard (auto simp: less_eq_semantic_id_def less_semantic_id_def semantic_id.expand)

end

instantiation schema_revision_id :: linorder
begin

definition less_eq_schema_revision_id :: "schema_revision_id \<Rightarrow> schema_revision_id \<Rightarrow> bool" where
  "less_eq_schema_revision_id a b \<longleftrightarrow> schema_revision_raw a \<le> schema_revision_raw b"

definition less_schema_revision_id :: "schema_revision_id \<Rightarrow> schema_revision_id \<Rightarrow> bool" where
  "less_schema_revision_id a b \<longleftrightarrow> schema_revision_raw a < schema_revision_raw b"

instance
  by standard
    (auto simp: less_eq_schema_revision_id_def less_schema_revision_id_def schema_revision_id.expand)

end

instantiation semantic_env_id :: linorder
begin

definition less_eq_semantic_env_id :: "semantic_env_id \<Rightarrow> semantic_env_id \<Rightarrow> bool" where
  "less_eq_semantic_env_id a b \<longleftrightarrow> semantic_env_raw a \<le> semantic_env_raw b"

definition less_semantic_env_id :: "semantic_env_id \<Rightarrow> semantic_env_id \<Rightarrow> bool" where
  "less_semantic_env_id a b \<longleftrightarrow> semantic_env_raw a < semantic_env_raw b"

instance
  by standard (auto simp: less_eq_semantic_env_id_def less_semantic_env_id_def semantic_env_id.expand)

end

instantiation semantic_revision :: linorder
begin

definition less_semantic_revision :: "semantic_revision \<Rightarrow> semantic_revision \<Rightarrow> bool" where
  "less_semantic_revision a b \<longleftrightarrow> revision_schema a < revision_schema b
     \<or> revision_schema a = revision_schema b \<and> revision_environment a < revision_environment b"

definition less_eq_semantic_revision :: "semantic_revision \<Rightarrow> semantic_revision \<Rightarrow> bool" where
  "less_eq_semantic_revision a b \<longleftrightarrow> a < b \<or> a = b"

instance
  by standard
    (auto simp: less_eq_semantic_revision_def less_semantic_revision_def,
     metis linorder_neqE semantic_revision.expand)

end

lemmas id_order_defs =
  less_eq_entity_id_def less_entity_id_def less_eq_semantic_id_def less_semantic_id_def

end
