(* ===== verification/Identity.thy ===== *)
theory Identity
  imports Std_Collections Kernel_Types
begin

text \<open>
  \<open>kernel-identity\<close>: the dense local identifiers of a set of entities (\<open>DenseEntityIds\<close>), bit sets of
  such identifiers (\<open>DenseEntitySet\<close>) and the bijections between entity sets that move identity across
  a migration (\<open>IdentityTransport\<close>).
\<close>

section \<open>Local entity ids\<close>

datatype local_entity_id = LocalEntityId u32

fun index :: "local_entity_id \<Rightarrow> nat" where
  "index (LocalEntityId n) = unat n"

datatype dense_identity_error = CapacityExceeded

text \<open>\<open>u32::try_from\<close> on a \<open>usize\<close>.\<close>

definition u32_try_from :: "nat \<Rightarrow> u32 option" where
  "u32_try_from n = (if n < 2 ^ 32 then Some (of_nat n) else None)"

section \<open>Dense entity sets\<close>

record dense_entity_set =
  words :: "u64 list"

definition with_capacity :: "nat \<Rightarrow> dense_entity_set" where
  "with_capacity entity_capacity = \<lparr>words = replicate (div_ceil entity_capacity 64) 0\<rparr>"

definition set_insert :: "dense_entity_set \<Rightarrow> local_entity_id \<Rightarrow> dense_entity_set" where
  "set_insert s entity =
     (let word = index entity div 64;
          bt = index entity mod 64;
          ws = (if word \<ge> length (words s) then resize (word + 1) 0 (words s) else words s)
      in s\<lparr>words := ws[word := or (ws ! word) (push_bit bt 1)]\<rparr>)"

definition set_remove :: "dense_entity_set \<Rightarrow> local_entity_id \<Rightarrow> bool \<times> dense_entity_set" where
  "set_remove s entity =
     (let word = index entity div 64;
          bt = index entity mod 64
      in case get_vec (words s) word of
           None \<Rightarrow> (False, s)
         | Some bits \<Rightarrow>
             (let mask = push_bit bt 1;
                  existed = and bits mask \<noteq> 0
              in (existed, s\<lparr>words := (words s)[word := and bits (not mask)]\<rparr>)))"

definition set_contains :: "dense_entity_set \<Rightarrow> local_entity_id \<Rightarrow> bool" where
  "set_contains s entity =
     (let word = index entity div 64;
          bt = index entity mod 64
      in case get_vec (words s) word of None \<Rightarrow> False | Some bits \<Rightarrow> and bits (push_bit bt 1) \<noteq> 0)"

text \<open>\<open>u64::count_ones\<close>.\<close>

definition count_ones :: "u64 \<Rightarrow> nat" where
  "count_ones w = length (filter (bit w) [0..<64])"

definition set_len :: "dense_entity_set \<Rightarrow> nat" where
  "set_len s = sum_list (map count_ones (words s))"

definition set_is_empty :: "dense_entity_set \<Rightarrow> bool" where
  "set_is_empty s = list_all (\<lambda>word. word = 0) (words s)"

definition set_iter :: "dense_entity_set \<Rightarrow> (panic, local_entity_id list) result" where
  "set_iter s =
     for_map (\<lambda>i. case u32_try_from i of None \<Rightarrow> Inl Panic | Some n \<Rightarrow> Inr (LocalEntityId n))
       (concat (map (\<lambda>(word_index, word).
          map (\<lambda>bt. word_index * 64 + bt) (filter (\<lambda>bt. and word (push_bit bt 1) \<noteq> 0) [0..<64]))
        (enumerate 0 (words s))))"

section \<open>Dense entity ids\<close>

record dense_entity_ids =
  external_by_local :: "entity_id list"
  local_by_external :: "(entity_id, local_entity_id) btree_map"

definition compile ::
    "entity_id btree_set \<Rightarrow> (dense_identity_error, dense_entity_ids) result" where
  "compile entities =
     (if length entities > 2 ^ 32 - 1 then Inl CapacityExceeded
      else res_bind
        (for_fold (\<lambda>(i, external) m. res_bind (ok_or (u32_try_from i) CapacityExceeded)
            (\<lambda>n. Inr (bt_insert external (LocalEntityId n) m))) (enumerate 0 entities) [])
        (\<lambda>m. Inr \<lparr>external_by_local = entities, local_by_external = m\<rparr>))"

definition ids_len :: "dense_entity_ids \<Rightarrow> nat" where
  "ids_len ids = length (external_by_local ids)"

definition local_id :: "dense_entity_ids \<Rightarrow> entity_id \<Rightarrow> local_entity_id option" where
  "local_id ids external = bt_get (local_by_external ids) external"

definition external_at :: "dense_entity_ids \<Rightarrow> nat \<Rightarrow> entity_id option" where
  "external_at ids i = get_vec (external_by_local ids) i"

definition external_id :: "dense_entity_ids \<Rightarrow> local_entity_id \<Rightarrow> entity_id option" where
  "external_id ids l = get_vec (external_by_local ids) (index l)"

section \<open>Identity transport\<close>

record identity_transport =
  forward :: "(entity_id, entity_id) btree_map"
  backward :: "(entity_id, entity_id) btree_map"

datatype identity_transport_error =
    SourceCoverageMismatch
  | TargetCoverageMismatch
  | NotInjective
  | CompositionDomainMismatch

definition identity :: "entity_id btree_set \<Rightarrow> identity_transport" where
  "identity ids =
     \<lparr>forward = bt_from_iter (map (\<lambda>i. (i, i)) ids), backward = bt_from_iter (map (\<lambda>i. (i, i)) ids)\<rparr>"

definition new_transport ::
    "entity_id btree_set \<Rightarrow> entity_id btree_set \<Rightarrow> (entity_id, entity_id) btree_map
     \<Rightarrow> (identity_transport_error, identity_transport) result" where
  "new_transport source target fwd =
     (if bs_from_iter (bt_keys fwd) \<noteq> source then Inl SourceCoverageMismatch
      else let image = bs_from_iter (map snd fwd) in
        if length image \<noteq> length fwd then Inl NotInjective
        else if image \<noteq> target then Inl TargetCoverageMismatch
        else Inr \<lparr>forward = fwd, backward = bt_from_iter (map (\<lambda>(a, b). (b, a)) fwd)\<rparr>)"

definition transport :: "identity_transport \<Rightarrow> entity_id \<Rightarrow> entity_id option" where
  "transport t source = bt_get (forward t) source"

definition source_ids :: "identity_transport \<Rightarrow> entity_id btree_set" where
  "source_ids t = bs_from_iter (bt_keys (forward t))"

definition target_ids :: "identity_transport \<Rightarrow> entity_id btree_set" where
  "target_ids t = bs_from_iter (bt_keys (backward t))"

definition inverse_transport :: "identity_transport \<Rightarrow> identity_transport" where
  "inverse_transport t = \<lparr>forward = backward t, backward = forward t\<rparr>"

definition then_transport ::
    "identity_transport \<Rightarrow> identity_transport
     \<Rightarrow> (identity_transport_error, identity_transport) result" where
  "then_transport t u =
     (let self_target = bs_from_iter (bt_keys (backward t));
          next_source = bs_from_iter (bt_keys (forward u))
      in if self_target \<noteq> next_source then Inl CompositionDomainMismatch
         else let source = bs_from_iter (bt_keys (forward t));
                  target = bs_from_iter (bt_keys (backward u))
              in res_bind
                   (for_fold (\<lambda>(old, middle) m.
                      res_bind (ok_or (bt_get (forward u) middle) CompositionDomainMismatch)
                        (\<lambda>new. Inr (bt_insert old new m))) (forward t) [])
                   (\<lambda>composed. new_transport source target composed))"

section \<open>Dense entity sets as sets of indices\<close>

definition elems :: "dense_entity_set \<Rightarrow> nat set" where
  "elems s = {i. i div 64 < length (words s) \<and> bit (words s ! (i div 64)) (i mod 64)}"

definition dense_wf :: "dense_entity_set \<Rightarrow> bool" where
  "dense_wf s \<longleftrightarrow> (\<forall>i \<in> elems s. i < 2 ^ 32)"

lemma index_less: "index e < 4294967296"
  by (cases e) (use unsigned_less [where ?'b = 32 and ?'a = nat] in simp)

lemma index_inject: "index a = index b \<longleftrightarrow> a = b"
  by (cases a; cases b) (simp add: word_eq_iff_unsigned [where ?'a = nat])

lemma index_LocalEntityId_of_nat: "n < 2 ^ 32 \<Longrightarrow> index (LocalEntityId (of_nat n)) = n"
  by (simp add: unsigned_of_nat take_bit_nat_eq_self)

lemma and_exp_bit: "and (w :: u64) (2 ^ n) \<noteq> 0 \<longleftrightarrow> bit w n"
  by (simp add: and_exp_eq_0_iff_not_bit)

lemma div_mod_64_eq: "i = j \<longleftrightarrow> i div 64 = j div 64 \<and> i mod 64 = j mod (64 :: nat)"
  by (metis div_mult_mod_eq)

lemma set_contains_iff: "set_contains s e \<longleftrightarrow> index e \<in> elems s"
  by (simp add: set_contains_def elems_def get_vec_def and_exp_bit Let_def)

lemma elems_insert: "elems (set_insert s e) = insert (index e) (elems s)"
proof -
  define W where "W = index e div 64"
  define ws where "ws = (if W \<ge> length (words s) then resize (W + 1) 0 (words s) else words s)"
  have len: "W < length ws" "length (words s) \<le> length ws"
    by (auto simp: ws_def)
  have old: "j < length ws \<Longrightarrow> ws ! j = (if j < length (words s) then words s ! j else 0)" for j
    by (auto simp: ws_def nth_resize)
  have w: "words (set_insert s e) = ws[W := or (ws ! W) (push_bit (index e mod 64) 1)]"
    by (simp add: set_insert_def Let_def ws_def W_def)
  have "i \<in> elems (set_insert s e) \<longleftrightarrow> i = index e \<or> i \<in> elems s" for i
  proof (cases "i div 64 = W")
    case True
    then show ?thesis
      using len by (auto simp: elems_def w bit_simps old div_mod_64_eq [of i] W_def)
  next
    case False
    then show ?thesis
      using len by (auto simp: elems_def w old W_def split: if_splits)
  qed
  then show ?thesis by blast
qed

lemma set_remove_result:
  "fst (set_remove s e) = set_contains s e" "elems (snd (set_remove s e)) = elems s - {index e}"
proof -
  show "fst (set_remove s e) = set_contains s e"
    by (simp add: set_remove_def set_contains_def Let_def split: option.splits)
  have "i \<in> elems (snd (set_remove s e)) \<longleftrightarrow> i \<noteq> index e \<and> i \<in> elems s" for i
    by (cases "i div 64 = index e div 64")
      (auto simp: set_remove_def elems_def Let_def get_vec_def nth_list_update bit_simps
        div_mod_64_eq [of i])
  then show "elems (snd (set_remove s e)) = elems s - {index e}" by blast
qed

lemma elems_with_capacity: "elems (with_capacity n) = {}"
  by (auto simp: elems_def with_capacity_def)

interpretation dense: set_impl
  "\<lambda>e s. set_insert s e" "\<lambda>e s. snd (set_remove s e)" set_contains
  "\<lambda>s. {e. index e \<in> elems s}" dense_wf
  by unfold_locales
    (auto simp: set_contains_iff dense_wf_def elems_insert set_remove_result index_less index_inject)

subsection \<open>Iteration and length\<close>

definition word_elems :: "nat \<Rightarrow> u64 list \<Rightarrow> nat list" where
  "word_elems k ws = concat (map (\<lambda>(word_index, word).
      map (\<lambda>bt. word_index * 64 + bt) (filter (bit word) [0..<64])) (enumerate k ws))"

lemma word_elems_Cons:
  "word_elems k (w # ws) = map (\<lambda>bt. k * 64 + bt) (filter (bit w) [0..<64]) @ word_elems (Suc k) ws"
  by (simp add: word_elems_def)

lemma word_elems_ge: "i \<in> set (word_elems k ws) \<Longrightarrow> k * 64 \<le> i"
  by (induction ws arbitrary: k) (force simp: word_elems_def word_elems_Cons simp del: upt_rec_numeral)+

lemma set_word_elems:
  "set (word_elems k ws) = {i. k \<le> i div 64 \<and> i div 64 - k < length ws \<and> bit (ws ! (i div 64 - k)) (i mod 64)}"
proof (induction ws arbitrary: k)
  case (Cons w ws)
  have "i \<in> set (word_elems k (w # ws)) \<longleftrightarrow>
      k \<le> i div 64 \<and> i div 64 - k < length (w # ws) \<and> bit ((w # ws) ! (i div 64 - k)) (i mod 64)" for i
  proof -
    have "i \<in> (\<lambda>bt. k * 64 + bt) ` {bt. bt < 64 \<and> bit w bt} \<longleftrightarrow> i div 64 = k \<and> bit w (i mod 64)"
      by (auto simp: image_iff intro!: exI [of _ "i mod 64"])
    moreover have "i div 64 - Suc k = i div 64 - k - 1" by simp
    ultimately show ?thesis
      by (auto simp: word_elems_Cons Cons.IH nth_Cons' simp del: upt_rec_numeral)
  qed
  then show ?case by blast
qed (simp add: word_elems_def)

lemma sorted_shifted_filter: "sorted_wrt (<) (map (\<lambda>b. c + b) (filter P [0..<n :: nat]))"
  by (simp add: sorted_wrt_map sorted_wrt_filter)

lemma sorted_word_elems: "sorted_wrt (<) (word_elems k ws)"
proof (induction ws arbitrary: k)
  case (Cons w ws)
  have "sorted_wrt (<) (map (\<lambda>bt. k * 64 + bt) (filter (bit w) [0..<64]))"
    by (rule sorted_shifted_filter)
  moreover have "i < j" if "i \<in> set (map (\<lambda>bt. k * 64 + bt) (filter (bit w) [0..<64]))"
    "j \<in> set (word_elems (Suc k) ws)" for i j
    using that word_elems_ge [of j "Suc k" ws] by (auto simp del: upt_rec_numeral)
  ultimately show ?case
    using Cons.IH [of "Suc k"] unfolding word_elems_Cons sorted_wrt_append by blast
qed (simp add: word_elems_def)

lemma length_word_elems: "length (word_elems k ws) = sum_list (map count_ones ws)"
  by (induction ws arbitrary: k) (simp_all add: word_elems_def count_ones_def)

lemma elems_word_elems: "elems s = set (word_elems 0 (words s))"
  by (simp add: elems_def set_word_elems)

lemma set_len_card: "set_len s = card (elems s)"
  using sorted_word_elems [of 0 "words s"]
  by (metis distinct_card elems_word_elems length_word_elems set_len_def strict_sorted_iff)

lemma set_is_empty_iff: "set_is_empty s \<longleftrightarrow> elems s = {}"
proof -
  have "set_is_empty s" if e: "elems s = {}"
    unfolding set_is_empty_def list_all_length
  proof (intro allI impI bit_word_eqI)
    fix j n assume "j < length (words s)" "n < LENGTH(64)"
    with e have "j * 64 + n \<notin> elems s" "(j * 64 + n) div 64 = j" "(j * 64 + n) mod 64 = n" by auto
    with \<open>j < _\<close> show "bit (words s ! j) n \<longleftrightarrow> bit (0 :: u64) n" by (simp add: elems_def)
  qed
  then show ?thesis by (auto simp: set_is_empty_def elems_def list_all_length)
qed

lemma set_iter_ok:
  assumes "dense_wf s"
  shows "\<exists>xs. set_iter s = Inr xs \<and> map index xs = sorted_list_of_set (elems s)"
proof -
  let ?xs = "word_elems 0 (words s)"
  have lt: "i \<in> set ?xs \<Longrightarrow> i < 2 ^ 32" for i
    using assms by (simp add: dense_wf_def elems_word_elems)
  have "set_iter s = for_map (\<lambda>i. case u32_try_from i of None \<Rightarrow> Inl Panic | Some n \<Rightarrow> Inr (LocalEntityId n)) ?xs"
    by (simp add: set_iter_def word_elems_def and_exp_bit)
  also have "\<dots> = Inr (map (\<lambda>i. LocalEntityId (of_nat i)) ?xs)"
    by (rule for_map_ok) (use lt in \<open>simp add: u32_try_from_def\<close>)
  finally have "set_iter s = Inr (map (\<lambda>i. LocalEntityId (of_nat i)) ?xs)" .
  moreover have "map index (map (\<lambda>i. LocalEntityId (of_nat i)) ?xs) = ?xs"
    by (simp del: index.simps add: o_def) (rule map_idI, use lt index_LocalEntityId_of_nat in blast)
  moreover have "?xs = sorted_list_of_set (elems s)"
    using sorted_word_elems [of 0 "words s"]
    by (metis elems_word_elems sorted_list_of_set.idem_if_sorted_distinct strict_sorted_iff)
  ultimately show ?thesis by auto
qed

section \<open>Dense ids as an order isomorphism\<close>

lemma compile_err: "length entities > 2 ^ 32 - 1 \<Longrightarrow> compile entities = Inl CapacityExceeded"
  by (simp add: compile_def)

lemma map_of_enumerate_swap:
  "distinct xs \<Longrightarrow> map_of (map (\<lambda>(i, x). (x, f i)) (enumerate k xs)) x = Some l
    \<longleftrightarrow> (\<exists>j < length xs. xs ! j = x \<and> l = f (k + j))"
proof (induction xs arbitrary: k)
  case (Cons y ys)
  have "x \<in> set ys \<longleftrightarrow> (\<exists>j < length ys. ys ! j = x)" by (metis in_set_conv_nth)
  with Cons show ?case
    by (auto simp: less_Suc_eq_0_disj nth_Cons' Ex_less_Suc2)
qed simp

lemma compile_ok:
  assumes wf: "bs_wf entities" and len: "length entities \<le> 2 ^ 32 - 1"
  shows "\<exists>ids. compile entities = Inr ids \<and> external_by_local ids = entities
    \<and> bt_wf (local_by_external ids)
    \<and> (\<forall>e l. local_id ids e = Some l \<longleftrightarrow> index l < length entities \<and> entities ! index l = e)"
proof -
  let ?prs = "map (\<lambda>(i, x). (x, LocalEntityId (of_nat i))) (enumerate 0 entities)"
  have "for_fold (\<lambda>(i, external) m. res_bind (ok_or (u32_try_from i) CapacityExceeded)
            (\<lambda>n. Inr (bt_insert external (LocalEntityId n) m))) (enumerate 0 entities) []
     = Inr (fold (\<lambda>(i, external). bt_insert external (LocalEntityId (of_nat i))) (enumerate 0 entities) [])"
  proof (rule for_fold_ok)
    fix x and m :: "(entity_id, local_entity_id) btree_map"
    assume "x \<in> set (enumerate 0 entities)"
    then have "fst x < 2 ^ 32" using len by (auto simp: in_set_enumerate_eq)
    then show "(case x of (i, external) \<Rightarrow> \<lambda>m. res_bind (ok_or (u32_try_from i) CapacityExceeded)
        (\<lambda>n. Inr (bt_insert external (LocalEntityId n) m))) m
      = Inr ((case x of (i, external) \<Rightarrow> bt_insert external (LocalEntityId (of_nat i))) m)"
      by (cases x) (simp add: u32_try_from_def)
  qed
  also have "fold (\<lambda>(i, external). bt_insert external (LocalEntityId (of_nat i))) (enumerate 0 entities) []
      = bt_from_iter ?prs"
    by (simp add: bt_from_iter_def fold_map o_def case_prod_unfold)
  finally have c: "compile entities = Inr \<lparr>external_by_local = entities, local_by_external = bt_from_iter ?prs\<rparr>"
    using len by (simp add: compile_def)
  have dist: "distinct entities" using wf by (rule bs_wf_distinct)
  then have "distinct (map fst ?prs)"
    by (simp add: o_def case_prod_unfold)
  then have "map_of (rev ?prs) = map_of ?prs"
    by (metis distinct_rev map_of_inject_set rev_map set_rev)
  then have "bt_get (bt_from_iter ?prs) e = Some l \<longleftrightarrow> (\<exists>j < length entities. entities ! j = e \<and> l = LocalEntityId (of_nat j))" for e l
    using map_of_enumerate_swap [OF dist, of "\<lambda>i. LocalEntityId (of_nat i)" 0 e l]
    by (simp add: bt_from_iter_get)
  moreover have "(\<exists>j < length entities. entities ! j = e \<and> l = LocalEntityId (of_nat j))
      \<longleftrightarrow> index l < length entities \<and> entities ! index l = e" for e l
  proof -
    have "index (LocalEntityId (of_nat j)) = j" if "j < length entities" for j
      using that len by (simp add: unsigned_of_nat take_bit_nat_eq_self)
    moreover have "l = LocalEntityId (of_nat (index l))" by (cases l) simp
    ultimately show ?thesis by metis
  qed
  ultimately show ?thesis by (simp add: c local_id_def)
qed

section \<open>Transports as bijections\<close>

definition transport_wf :: "identity_transport \<Rightarrow> bool" where
  "transport_wf t \<longleftrightarrow> bt_wf (forward t) \<and> bt_wf (backward t)
     \<and> (\<forall>a b. bt_get (forward t) a = Some b \<longleftrightarrow> bt_get (backward t) b = Some a)"

lemma transport_wfD:
  assumes "transport_wf t"
  shows "bt_wf (forward t)" "bt_wf (backward t)"
    "bt_get (forward t) a = Some b \<longleftrightarrow> bt_get (backward t) b = Some a"
  using assms by (auto simp: transport_wf_def)

lemma transport_inj: "transport_wf t \<Longrightarrow> inj_on (bt_get (forward t)) (dom (bt_get (forward t)))"
  unfolding inj_on_def using transport_wfD(3) by (metis domD option.inject)

lemma transport_target: "transport_wf t \<Longrightarrow> ran (bt_get (forward t)) = dom (bt_get (backward t))"
  by (auto simp: ran_def dom_def transport_wfD(3))

lemma transport_eqI:
  assumes "transport_wf t" "transport_wf u" "bt_get (forward t) = bt_get (forward u)"
  shows "t = u"
proof -
  have "bt_get (backward t) b = bt_get (backward u) b" for b
    using assms by (metis option.exhaust transport_wfD(3))
  then have "bt_get (backward t) = bt_get (backward u)" by blast
  then have "forward t = forward u" "backward t = backward u"
    using assms by (auto intro!: bt_eqI transport_wfD)
  then show ?thesis by simp
qed

lemma keys_bs: "bt_wf m \<Longrightarrow> bs_from_iter (bt_keys m) = bt_keys m"
  by (simp add: bs_from_iter_id bt_keys_wf)

lemma ran_values: "bt_wf m \<Longrightarrow> set (map snd m) = ran (bt_get m)"
  by (force simp: ran_def btree.entries_mem [symmetric])

lemma distinct_values_iff:
  assumes "bt_wf m"
  shows "distinct (map snd m) \<longleftrightarrow> inj_on (bt_get m) (dom (bt_get m))"
proof -
  have d: "distinct (map fst m)" using assms by (rule btree.entries_distinct)
  have mem: "(k, v) \<in> set m \<longleftrightarrow> bt_get m k = Some v" for k v
    by (rule btree.entries_mem [OF assms])
  have "inj_on snd (set m) \<longleftrightarrow> inj_on (bt_get m) (dom (bt_get m))"
  proof
    assume inj: "inj_on snd (set m)"
    show "inj_on (bt_get m) (dom (bt_get m))"
    proof (rule inj_onI)
      fix a b assume "a \<in> dom (bt_get m)" "bt_get m a = bt_get m b"
      then obtain v where "(a, v) \<in> set m" "(b, v) \<in> set m" unfolding mem by (metis domD)
      then show "a = b" using inj_onD [OF inj, of "(a, v)" "(b, v)"] by simp
    qed
  next
    assume inj: "inj_on (bt_get m) (dom (bt_get m))"
    show "inj_on snd (set m)"
    proof (rule inj_onI)
      fix x y assume "x \<in> set m" "y \<in> set m" "snd x = snd y"
      then have "bt_get m (fst x) = Some (snd y)" "bt_get m (fst y) = Some (snd y)"
        using mem [of "fst x" "snd x", unfolded prod.collapse] mem [of "fst y" "snd y"] by simp_all
      then show "x = y" using inj_onD [OF inj, of "fst x" "fst y"] \<open>snd x = snd y\<close>
        by (metis domI prod_eqI)
    qed
  qed
  moreover have "distinct m" using d by (simp add: distinct_map)
  ultimately show ?thesis by (simp add: distinct_map)
qed

lemma length_values_iff: "length (bs_from_iter xs) = length xs \<longleftrightarrow> distinct xs"
  by (metis bs_length bs_wf_from_iter card_distinct distinct_card set_bs_from_iter)

lemma flip_get:
  assumes "bt_wf m" "inj_on (bt_get m) (dom (bt_get m))"
  shows "bt_get (bt_from_iter (map (\<lambda>(a, b). (b, a)) m)) b = Some a \<longleftrightarrow> bt_get m a = Some b"
proof -
  have "distinct (map fst (rev (map (\<lambda>(a, b). (b, a)) m)))"
    using assms distinct_values_iff [of m] by (simp add: rev_map [symmetric] o_def case_prod_unfold)
  then have "map_of (rev (map (\<lambda>(a, b). (b, a)) m)) b = Some a \<longleftrightarrow> (a, b) \<in> set m"
    by (subst map_of_eq_Some_iff) (auto intro!: rev_image_eqI)
  then show ?thesis
    by (simp add: bt_from_iter_get btree.entries_mem [OF assms(1)])
qed

lemma new_transport_spec:
  assumes "bs_wf source" "bs_wf target" "bt_wf m"
  shows "new_transport source target m =
    (if dom (bt_get m) \<noteq> set source then Inl SourceCoverageMismatch
     else if \<not> inj_on (bt_get m) (dom (bt_get m)) then Inl NotInjective
     else if ran (bt_get m) \<noteq> set target then Inl TargetCoverageMismatch
     else Inr \<lparr>forward = m, backward = bt_from_iter (map (\<lambda>(a, b). (b, a)) m)\<rparr>)"
proof -
  have "bs_from_iter (bt_keys m) = source \<longleftrightarrow> dom (bt_get m) = set source"
    using assms by (simp add: bs_eq_iff set_bt_keys)
  moreover have "length (bs_from_iter (map snd m)) = length m \<longleftrightarrow> inj_on (bt_get m) (dom (bt_get m))"
    using length_values_iff [of "map snd m"] distinct_values_iff [OF assms(3)] by simp
  moreover have "bs_from_iter (map snd m) = target \<longleftrightarrow> ran (bt_get m) = set target"
    using assms ran_values [OF assms(3)] by (simp add: bs_eq_iff)
  ultimately show ?thesis by (simp add: new_transport_def Let_def)
qed

lemma new_transport_ok:
  assumes "bs_wf source" "bs_wf target" "bt_wf m" "new_transport source target m = Inr t"
  shows "transport_wf t \<and> forward t = m \<and> dom (bt_get (backward t)) = set target"
proof -
  have t: "t = \<lparr>forward = m, backward = bt_from_iter (map (\<lambda>(a, b). (b, a)) m)\<rparr>"
    and inj: "inj_on (bt_get m) (dom (bt_get m))" and r: "ran (bt_get m) = set target"
    using assms(4) by (simp_all add: new_transport_spec [OF assms(1-3)] split: if_splits)
  have "transport_wf t"
    using assms(3) by (simp add: t transport_wf_def flip_get inj)
  then show ?thesis
    using r transport_target by (force simp: t)
qed

lemma identity_wf:
  "transport_wf (identity ids) \<and> bt_get (forward (identity ids)) a = (if a \<in> set ids then Some a else None)"
proof -
  have "bt_get (bt_from_iter (map (\<lambda>i. (i, i)) ids)) a = (if a \<in> set ids then Some a else None)" for a
  proof -
    have "map_of (map (\<lambda>i. (i, i)) xs) a = (if a \<in> set xs then Some a else None)" for xs
      by (induction xs) auto
    then show ?thesis by (simp add: bt_from_iter_get rev_map)
  qed
  then show ?thesis by (auto simp: transport_wf_def identity_def split: if_splits)
qed

lemma inverse_wf: "transport_wf t \<Longrightarrow> transport_wf (inverse_transport t)"
  by (auto simp: transport_wf_def inverse_transport_def)

lemma composed_fold:
  assumes "bt_wf m" "\<And>a b. (a, b) \<in> set xs \<Longrightarrow> g b \<noteq> None"
  shows "for_fold (\<lambda>(old, middle) m. res_bind (ok_or (g middle) e) (\<lambda>new. Inr (bt_insert old new m))) xs m
     = Inr (fold (\<lambda>(k, v). bt_insert k v) (map (\<lambda>(a, b). (a, the (g b))) xs) m)"
  using assms(2) by (induction xs arbitrary: m) (force split: prod.splits)+

definition composed :: "identity_transport \<Rightarrow> identity_transport \<Rightarrow> (entity_id, entity_id) btree_map" where
  "composed t u = bt_from_iter (map (\<lambda>(a, b). (a, the (bt_get (forward u) b))) (forward t))"

definition composable :: "identity_transport \<Rightarrow> identity_transport \<Rightarrow> bool" where
  "composable t u \<longleftrightarrow> transport_wf t \<and> transport_wf u \<and> dom (bt_get (backward t)) = dom (bt_get (forward u))"

lemma forward_mem: "transport_wf t \<Longrightarrow> (a, b) \<in> set (forward t) \<longleftrightarrow> bt_get (forward t) a = Some b"
  by (rule btree.entries_mem) (rule transport_wfD(1))

lemma composable_Some:
  assumes "composable t u" "(a, b) \<in> set (forward t)"
  shows "bt_get (forward u) b \<noteq> None"
proof -
  have "bt_get (backward t) b = Some a"
    using assms forward_mem transport_wfD(3) by (auto simp: composable_def)
  then show ?thesis using assms(1) by (auto simp: composable_def)
qed

lemma composed_get:
  assumes c: "composable t u"
  shows "bt_get (composed t u) = bt_get (forward u) \<circ>\<^sub>m bt_get (forward t)"
proof -
  have t: "transport_wf t" using c by (simp add: composable_def)
  let ?prs = "map (\<lambda>(a, b). (a, the (bt_get (forward u) b))) (forward t)"
  have "map fst (rev ?prs) = rev (map fst (forward t))"
    by (simp add: rev_map case_prod_unfold o_def)
  then have dist: "distinct (map fst (rev ?prs))"
    using btree.entries_distinct [OF transport_wfD(1) [OF t]] by simp
  have "bt_get (composed t u) a = Some d \<longleftrightarrow> (bt_get (forward u) \<circ>\<^sub>m bt_get (forward t)) a = Some d" for a d
  proof -
    have "(a, d) \<in> set ?prs \<longleftrightarrow> (\<exists>b. (a, b) \<in> set (forward t) \<and> the (bt_get (forward u) b) = d)"
      by (force simp: image_iff)
    also have "\<dots> \<longleftrightarrow> (\<exists>b. bt_get (forward t) a = Some b \<and> bt_get (forward u) b = Some d)"
      using composable_Some [OF c] by (fastforce simp: forward_mem [OF t])
    finally have "bt_get (composed t u) a = Some d
        \<longleftrightarrow> (\<exists>b. bt_get (forward t) a = Some b \<and> bt_get (forward u) b = Some d)"
      unfolding composed_def bt_from_iter_get map_of_eq_Some_iff [OF dist] by simp
    then show ?thesis by (simp add: map_comp_Some_iff)
  qed
  then show ?thesis by (metis (no_types, lifting) ext not_None_eq)
qed

lemma composed_bijection:
  assumes c: "composable t u"
  shows "dom (bt_get (composed t u)) = dom (bt_get (forward t))"
    "inj_on (bt_get (composed t u)) (dom (bt_get (composed t u)))"
    "ran (bt_get (composed t u)) = dom (bt_get (backward u))"
proof -
  have t: "transport_wf t" and u: "transport_wf u" and dom: "dom (bt_get (backward t)) = dom (bt_get (forward u))"
    using c by (simp_all add: composable_def)
  note fb = transport_wfD(3) [OF t] transport_wfD(3) [OF u]
  show "dom (bt_get (composed t u)) = dom (bt_get (forward t))"
    using composable_Some [OF c] forward_mem [OF t] unfolding composed_get [OF c]
    by (auto simp: map_comp_def split: option.splits)
  show "inj_on (bt_get (composed t u)) (dom (bt_get (composed t u)))"
    unfolding composed_get [OF c] by (rule inj_onI) (auto simp: map_comp_Some_iff fb)
  have "\<exists>a. (bt_get (forward u) \<circ>\<^sub>m bt_get (forward t)) a = Some d" if "bt_get (forward u) b = Some d" for b d
  proof -
    from that dom obtain a where "bt_get (backward t) b = Some a" by (metis domD domI)
    then show ?thesis using that fb(1) by (auto simp: map_comp_Some_iff)
  qed
  then show "ran (bt_get (composed t u)) = dom (bt_get (backward u))"
    unfolding composed_get [OF c] transport_target [OF u, symmetric] by (auto simp: ran_def map_comp_Some_iff)
qed

lemma then_transport_ok:
  assumes c: "composable t u"
  shows "\<exists>r. then_transport t u = Inr r \<and> transport_wf r
    \<and> bt_get (forward r) = bt_get (forward u) \<circ>\<^sub>m bt_get (forward t)"
proof -
  have fold: "for_fold (\<lambda>(old, middle) m. res_bind (ok_or (bt_get (forward u) middle) CompositionDomainMismatch)
        (\<lambda>new. Inr (bt_insert old new m))) (forward t) [] = Inr (composed t u)"
    unfolding bt_from_iter_def composed_def by (rule composed_fold) (use composable_Some [OF c] in auto)
  have wf: "bt_wf (composed t u)" by (simp add: composed_def)
  let ?r = "\<lparr>forward = composed t u, backward = bt_from_iter (map (\<lambda>(a, b). (b, a)) (composed t u))\<rparr>"
  have new: "new_transport (bs_from_iter (bt_keys (forward t))) (bs_from_iter (bt_keys (backward u)))
      (composed t u) = Inr ?r"
    using composed_bijection [OF c] by (simp add: new_transport_spec wf set_bt_keys)
  moreover have "bs_from_iter (bt_keys (backward t)) = bs_from_iter (bt_keys (forward u))"
    using c by (simp add: bs_eq_iff set_bt_keys composable_def)
  ultimately have "then_transport t u = Inr ?r"
    using fold by (simp add: then_transport_def Let_def)
  then show ?thesis
    using new_transport_ok [OF _ _ wf new] composed_get [OF c] by simp
qed

lemma then_transport_err:
  "dom (bt_get (backward t)) \<noteq> dom (bt_get (forward u))
   \<Longrightarrow> then_transport t u = Inl CompositionDomainMismatch"
  by (simp add: then_transport_def Let_def bs_eq_iff set_bt_keys)

lemma source_ids_set: "set (source_ids t) = dom (bt_get (forward t))"
  by (simp add: source_ids_def set_bt_keys)

lemma target_ids_set: "set (target_ids t) = dom (bt_get (backward t))"
  by (simp add: target_ids_def set_bt_keys)

lemma composable_iff:
  "transport_wf t \<Longrightarrow> transport_wf u \<Longrightarrow> composable t u \<longleftrightarrow> target_ids t = source_ids u"
  by (simp add: composable_def source_ids_def target_ids_def bs_eq_iff set_bt_keys)

lemma then_identity:
  assumes t: "transport_wf t"
  shows "then_transport t (identity (target_ids t)) = Inr t"
    "then_transport (identity (source_ids t)) t = Inr t"
    "then_transport t (inverse_transport t) = Inr (identity (source_ids t))"
proof -
  have id: "transport_wf (identity ids)" "dom (bt_get (forward (identity ids))) = set ids"
    "dom (bt_get (backward (identity ids))) = set ids" for ids
    using identity_wf [of ids] by (auto simp: identity_def split: if_splits)
  have idget: "bt_get (forward (identity ids)) a = (if a \<in> set ids then Some a else None)" for ids a
    using identity_wf by blast
  have "composable t (identity (target_ids t))" "composable (identity (source_ids t)) t"
    "composable t (inverse_transport t)"
    using t inverse_wf [OF t] id
    by (simp_all add: composable_def target_ids_set source_ids_set inverse_transport_def)
  then obtain r1 r2 r3 where
    r1: "then_transport t (identity (target_ids t)) = Inr r1" "transport_wf r1"
      "bt_get (forward r1) = bt_get (forward (identity (target_ids t))) \<circ>\<^sub>m bt_get (forward t)"
    and r2: "then_transport (identity (source_ids t)) t = Inr r2" "transport_wf r2"
      "bt_get (forward r2) = bt_get (forward t) \<circ>\<^sub>m bt_get (forward (identity (source_ids t)))"
    and r3: "then_transport t (inverse_transport t) = Inr r3" "transport_wf r3"
      "bt_get (forward r3) = bt_get (forward (inverse_transport t)) \<circ>\<^sub>m bt_get (forward t)"
    using then_transport_ok by metis
  have "r1 = t"
    using t by (intro transport_eqI r1(2) ext)
      (auto simp: r1(3) map_comp_def idget target_ids_set split: option.splits,
       metis option.distinct(1) transport_wfD(3))
  moreover have "r2 = t"
    using t by (intro transport_eqI r2(2) ext)
      (auto simp: r2(3) map_comp_def idget source_ids_set split: option.splits, metis not_None_eq)
  moreover have "r3 = identity (source_ids t)"
    using t by (intro transport_eqI r3(2) id ext)
      (auto simp: r3(3) map_comp_def idget source_ids_set inverse_transport_def transport_wfD(3) split: option.splits)
  ultimately show "then_transport t (identity (target_ids t)) = Inr t"
    "then_transport (identity (source_ids t)) t = Inr t"
    "then_transport t (inverse_transport t) = Inr (identity (source_ids t))"
    using r1 r2 r3 by simp_all
qed

lemma then_dom:
  assumes "composable t u" "then_transport t u = Inr r"
  shows "transport_wf r" "bt_get (forward r) = bt_get (forward u) \<circ>\<^sub>m bt_get (forward t)"
    "dom (bt_get (forward r)) = dom (bt_get (forward t))"
    "dom (bt_get (backward r)) = dom (bt_get (backward u))"
proof -
  show wf: "transport_wf r" and fwd: "bt_get (forward r) = bt_get (forward u) \<circ>\<^sub>m bt_get (forward t)"
    using then_transport_ok [OF assms(1)] assms(2) by auto
  show "dom (bt_get (forward r)) = dom (bt_get (forward t))"
    "dom (bt_get (backward r)) = dom (bt_get (backward u))"
    using composed_bijection [OF assms(1)] transport_target [OF wf]
    by (simp_all add: composed_get [OF assms(1)] fwd)
qed

lemma then_assoc:
  assumes tu: "composable t u" and uv: "composable u v"
  shows "\<exists>a b r. then_transport t u = Inr a \<and> then_transport u v = Inr b
    \<and> then_transport a v = Inr r \<and> then_transport t b = Inr r"
proof -
  obtain a b where a: "then_transport t u = Inr a" and b: "then_transport u v = Inr b"
    using then_transport_ok [OF tu] then_transport_ok [OF uv] by blast
  have av: "composable a v" and tb: "composable t b"
    using tu uv then_dom [OF tu a] then_dom [OF uv b] by (auto simp: composable_def)
  then obtain r q where r: "then_transport a v = Inr r" and q: "then_transport t b = Inr q"
    using then_transport_ok by blast
  have "r = q"
    using then_dom [OF av r] then_dom [OF tb q] then_dom [OF tu a] then_dom [OF uv b]
    by (intro transport_eqI) (auto simp: map_comp_def fun_eq_iff split: option.splits)
  with a b r q show ?thesis by blast
qed

section \<open>Properties\<close>

definition run_set_ops :: "local_entity_id set_op list \<Rightarrow> dense_entity_set \<Rightarrow> dense_entity_set" where
  "run_set_ops = fold (\<lambda>op. case op of InsertOp e \<Rightarrow> (\<lambda>s. set_insert s e) | RemoveOp e \<Rightarrow> (\<lambda>s. snd (set_remove s e)))"

lemma run_set_ops_wf: "dense_wf s \<Longrightarrow> dense_wf (run_set_ops ops s)"
  by (induction ops arbitrary: s)
    (auto simp: run_set_ops_def dense.wf_ins dense.wf_del split: set_op.splits)

text \<open>
  C12: a bit set of local entities behaves as the set of entities its history leaves: after any sequence
  of insertions and removals on a fresh set of any capacity, membership, length, emptiness and ordered
  iteration are those of the surviving entities, and iteration never panics.
\<close>

theorem dense_set_history:
  "let s = run_set_ops ops (with_capacity n);
       alive = {e. survives e ops False}
   in (\<forall>e. set_contains s e \<longleftrightarrow> e \<in> alive)
      \<and> set_len s = card alive \<and> (set_is_empty s \<longleftrightarrow> alive = {})
      \<and> (\<exists>xs. set_iter s = Inr xs \<and> set xs = alive \<and> sorted_wrt (<) (map index xs))"
proof -
  define s where "s = run_set_ops ops (with_capacity n)"
  have wf0: "dense_wf (with_capacity n)" by (simp add: dense_wf_def elems_with_capacity)
  have mem: "set_contains s e \<longleftrightarrow> survives e ops False" for e
    using dense.replay [OF wf0, of ops e] unfolding s_def run_set_ops_def
    by (simp add: set_contains_iff elems_with_capacity)
  have wf: "dense_wf s" unfolding s_def by (rule run_set_ops_wf [OF wf0])
  obtain xs where xs: "set_iter s = Inr xs" "map index xs = sorted_list_of_set (elems s)"
    using set_iter_ok [OF wf] by blast
  have fin: "finite (elems s)" by (simp add: elems_word_elems)
  then have img: "index ` set xs = elems s"
    by (metis list.set_map set_sorted_list_of_set xs(2))
  then have alive: "{e. survives e ops False} = set xs"
    by (auto simp: mem [symmetric] set_contains_iff img [symmetric] image_iff index_inject)
  have "card (elems s) = card (set xs)"
    unfolding img [symmetric] by (rule card_image) (simp add: inj_on_def index_inject)
  then show ?thesis
    using xs img alive unfolding Let_def s_def [symmetric]
    by (auto simp: mem set_len_card set_is_empty_iff)
qed

text \<open>
  C23: compiling a set of entities gives dense identifiers that are a bijection in the order of the
  entities: local and external lookup are inverse to each other on exactly the compiled entities, the
  identifiers are \<open>0 .. len - 1\<close>, a smaller entity has a smaller identifier, and compilation fails
  exactly when there are more entities than \<open>u32\<close> identifiers.
\<close>

theorem dense_ids_bijection:
  assumes "bs_wf entities"
  shows "if length entities \<le> 2 ^ 32 - 1
    then \<exists>ids. compile entities = Inr ids \<and> ids_len ids = card (set entities)
      \<and> (\<forall>e l. local_id ids e = Some l \<longleftrightarrow> external_id ids l = Some e)
      \<and> dom (local_id ids) = set entities
      \<and> (\<forall>l. external_id ids l \<noteq> None \<longleftrightarrow> index l < ids_len ids)
      \<and> (\<forall>e f k l. local_id ids e = Some k \<and> local_id ids f = Some l \<longrightarrow> (e < f \<longleftrightarrow> index k < index l))
    else compile entities = Inl CapacityExceeded"
proof (cases "length entities \<le> 2 ^ 32 - 1")
  case len: True
  obtain ids where ids: "compile entities = Inr ids" "external_by_local ids = entities"
    and loc: "\<And>e l. local_id ids e = Some l \<longleftrightarrow> index l < length entities \<and> entities ! index l = e"
    using compile_ok [OF assms len] by blast
  have "sorted_wrt (<) entities" using assms by (simp add: bs_wf_def)
  then have mono: "i < j \<longleftrightarrow> entities ! i < entities ! j" if "i < length entities" "j < length entities" for i j
    using that by (metis linorder_neqE_nat not_less_iff_gr_or_eq sorted_wrt_nth_less)
  have "\<exists>l. local_id ids e = Some l" if mem: "e \<in> set entities" for e
  proof -
    obtain j where "j < length entities" "entities ! j = e"
      using mem by (metis in_set_conv_nth)
    moreover from this have "index (LocalEntityId (of_nat j)) = j"
      using len by (intro index_LocalEntityId_of_nat) simp
    ultimately show ?thesis
      unfolding loc by metis
  qed
  then have "dom (local_id ids) = set entities"
    using loc by (auto simp: dom_def)
  with len ids loc mono show ?thesis
    by (auto simp: ids_len_def external_id_def get_vec_def bs_length [OF assms])
qed (simp add: compile_err)

theorem dense_ids_bijection_witness:
  "bs_wf [EntityId 10, EntityId 20, EntityId 30]
   \<and> (\<exists>ids. compile [EntityId 10, EntityId 20, EntityId 30] = Inr ids
        \<and> dom (local_id ids) = {EntityId 10, EntityId 20, EntityId 30})"
proof -
  have wf: "bs_wf [EntityId 10, EntityId 20, EntityId 30]"
    by (simp add: bs_wf_def less_entity_id_def)
  then show ?thesis using dense_ids_bijection [OF wf] by auto
qed

text \<open>
  C14: \<open>IdentityTransport::new\<close> accepts exactly the bijections between the two entity sets (with its
  errors in the order of its checks), so that a split or a merge is never an identity transport, and
  what it accepts is a consistent pair of mutually inverse maps.
\<close>

theorem new_transport_bijections:
  assumes "bs_wf source" "bs_wf target" "bt_wf m"
  shows "new_transport source target m =
    (if dom (bt_get m) \<noteq> set source then Inl SourceCoverageMismatch
     else if \<not> inj_on (bt_get m) (dom (bt_get m)) then Inl NotInjective
     else if ran (bt_get m) \<noteq> set target then Inl TargetCoverageMismatch
     else Inr \<lparr>forward = m, backward = bt_from_iter (map (\<lambda>(a, b). (b, a)) m)\<rparr>)
   \<and> (\<forall>t. new_transport source target m = Inr t \<longrightarrow>
        source_ids t = source \<and> target_ids t = target
        \<and> (\<forall>a b. transport t a = Some b \<longleftrightarrow> transport (inverse_transport t) b = Some a))"
proof (intro conjI allI impI)
  fix t assume t: "new_transport source target m = Inr t"
  note ok = new_transport_ok [OF assms t]
  have "dom (bt_get m) = set source"
    using t by (simp add: new_transport_spec [OF assms] split: if_splits)
  then show "source_ids t = source" "target_ids t = target"
    using assms ok by (simp_all add: bs_eq_iff source_ids_def target_ids_def set_bt_keys)
  show "transport t a = Some b \<longleftrightarrow> transport (inverse_transport t) b = Some a" for a b
    using ok transport_wfD(3) [of t a b] by (simp add: transport_def inverse_transport_def)
qed (rule new_transport_spec [OF assms])

theorem new_transport_bijections_witness:
  "bs_wf [EntityId 1, EntityId 2] \<and> bs_wf [EntityId 10, EntityId 11]
   \<and> bt_wf [(EntityId 1, EntityId 11), (EntityId 2, EntityId 10)]
   \<and> (\<exists>t. new_transport [EntityId 1, EntityId 2] [EntityId 10, EntityId 11]
            [(EntityId 1, EntityId 11), (EntityId 2, EntityId 10)] = Inr t
          \<and> transport (inverse_transport t) (EntityId 10) = Some (EntityId 2))"
proof -
  let ?m = "[(EntityId 1, EntityId 11), (EntityId 2, EntityId 10)]"
  have wf: "bs_wf [EntityId 1, EntityId 2]" "bs_wf [EntityId 10, EntityId 11]" "bt_wf ?m"
    by (simp_all add: bs_wf_def bt_wf_def less_entity_id_def)
  have get: "bt_get ?m = [EntityId 1 \<mapsto> EntityId 11, EntityId 2 \<mapsto> EntityId 10]"
    by (auto simp: bt_get_def fun_eq_iff)
  note spec = new_transport_bijections [OF wf]
  have "dom (bt_get ?m) = {EntityId 1, EntityId 2}" "inj_on (bt_get ?m) (dom (bt_get ?m))"
    by (simp_all add: get insert_commute inj_on_def)
  moreover have "ran (bt_get ?m) = {EntityId 10, EntityId 11}"
    by (simp add: get insert_commute)
  ultimately obtain t where t: "new_transport [EntityId 1, EntityId 2] [EntityId 10, EntityId 11] ?m = Inr t"
    "forward t = ?m"
    using spec by auto
  then have "transport t (EntityId 2) = Some (EntityId 10)"
    by (simp add: transport_def get)
  then have "transport (inverse_transport t) (EntityId 10) = Some (EntityId 2)"
    using spec t(1) by blast
  with wf t show ?thesis by blast
qed

text \<open>
  C24: identity transports form a groupoid: composition is defined exactly when the target of the first
  is the source of the second and then composes the maps, identities are neutral, the inverse cancels,
  and composition is associative.
\<close>

theorem transport_groupoid:
  assumes "transport_wf t" "transport_wf u" "transport_wf v"
  shows "(target_ids t \<noteq> source_ids u \<longrightarrow> then_transport t u = Inl CompositionDomainMismatch)
    \<and> (target_ids t = source_ids u \<longrightarrow> (\<exists>r. then_transport t u = Inr r \<and> transport_wf r
          \<and> transport r = transport u \<circ>\<^sub>m transport t))
    \<and> then_transport t (identity (target_ids t)) = Inr t
    \<and> then_transport (identity (source_ids t)) t = Inr t
    \<and> then_transport t (inverse_transport t) = Inr (identity (source_ids t))
    \<and> (target_ids t = source_ids u \<and> target_ids u = source_ids v \<longrightarrow>
         res_bind (then_transport t u) (\<lambda>a. then_transport a v)
           = res_bind (then_transport u v) (\<lambda>b. then_transport t b)
         \<and> (\<exists>r. res_bind (then_transport t u) (\<lambda>a. then_transport a v) = Inr r))"
proof (intro conjI impI then_identity [OF assms(1)])
  assume "target_ids t \<noteq> source_ids u"
  then show "then_transport t u = Inl CompositionDomainMismatch"
    using composable_iff [OF assms(1,2)] assms by (intro then_transport_err) (simp add: composable_def)
next
  assume "target_ids t = source_ids u"
  then show "\<exists>r. then_transport t u = Inr r \<and> transport_wf r \<and> transport r = transport u \<circ>\<^sub>m transport t"
    using then_transport_ok [of t u] assms unfolding transport_def [abs_def] by (simp add: composable_iff)
next
  assume "target_ids t = source_ids u \<and> target_ids u = source_ids v"
  then obtain a b r where "then_transport t u = Inr a" "then_transport u v = Inr b"
    "then_transport a v = Inr r" "then_transport t b = Inr r"
    using then_assoc [of t u v] assms by (auto simp: composable_iff)
  then show "res_bind (then_transport t u) (\<lambda>a. then_transport a v)
      = res_bind (then_transport u v) (\<lambda>b. then_transport t b)"
    "\<exists>r. res_bind (then_transport t u) (\<lambda>a. then_transport a v) = Inr r" by simp_all
qed

theorem transport_groupoid_witness:
  "let t = \<lparr>forward = [(EntityId 1, EntityId 2)], backward = [(EntityId 2, EntityId 1)]\<rparr>
   in transport_wf t \<and> then_transport t (inverse_transport t) = Inr (identity [EntityId 1])"
proof -
  let ?t = "\<lparr>forward = [(EntityId 1, EntityId 2)], backward = [(EntityId 2, EntityId 1)]\<rparr>"
  have wf: "transport_wf ?t"
    by (auto simp: transport_wf_def bt_wf_def bt_get_def)
  have "source_ids ?t = [EntityId 1]"
    by (simp add: source_ids_def bt_keys_def bs_from_iter_def)
  with wf transport_groupoid [OF wf wf wf] show ?thesis by (simp only: Let_def)
qed

end
