(* ===== verification/Retention.thy ===== *)
theory Retention
  imports Std_Collections Kernel_Types
begin

text \<open>
  \<open>kernel-retention\<close>: values tracked with the set of erasure domains they depend on. Operations on
  tracked values join the labels of what they read, the branch condition included, so that erasing a
  domain can find every value derived from it.
\<close>

section \<open>Labels and tracked values\<close>

datatype erasure_domain = ErasureDomain (domain_id: semantic_id)

instantiation erasure_domain :: linorder
begin

definition less_eq_erasure_domain :: "erasure_domain \<Rightarrow> erasure_domain \<Rightarrow> bool" where
  "less_eq_erasure_domain a b \<longleftrightarrow> domain_id a \<le> domain_id b"

definition less_erasure_domain :: "erasure_domain \<Rightarrow> erasure_domain \<Rightarrow> bool" where
  "less_erasure_domain a b \<longleftrightarrow> domain_id a < domain_id b"

instance
  by standard (auto simp: less_eq_erasure_domain_def less_erasure_domain_def erasure_domain.expand)

end

type_synonym retention_label = "erasure_domain btree_set"



definition label_join :: "retention_label \<Rightarrow> retention_label \<Rightarrow> retention_label" where
  "label_join a b = bs_union a b"

definition label_contains :: "retention_label \<Rightarrow> erasure_domain \<Rightarrow> bool" where
  "label_contains l d = List.member l d"







section \<open>Non-interference\<close>


lemma label_contains_iff [simp]: "label_contains l d \<longleftrightarrow> d \<in> set l"
  by (simp add: label_contains_def)

lemma set_label_join [simp]: "set (label_join a b) = set a \<union> set b"
  by (simp add: label_join_def)






end
