(* ===== verification/Violation.thy ===== *)
theory Violation
  imports Std_Collections
begin

text \<open>
  \<open>kernel-violation\<close>: finite non-negative measures over violation witnesses. A measure maps a witness
  to a positive \<open>u64\<close> mass; the invariant is that no stored mass is zero, which makes the empty map
  exactly the zero measure.
\<close>

section \<open>Measures\<close>

datatype violation_measure_error = MultiplicityOverflow | MissingWitness | RetractionExceedsMass

record 'w violation_measure =
  masses :: "('w, u64) btree_map"

definition new_measure :: "'w violation_measure" where
  "new_measure = \<lparr>masses = []\<rparr>"

definition measure_is_zero :: "'w violation_measure \<Rightarrow> bool" where
  "measure_is_zero m = (masses m = [])"

definition witness_count :: "'w violation_measure \<Rightarrow> nat" where
  "witness_count m = length (masses m)"

definition mass :: "'w violation_measure \<Rightarrow> 'w \<Rightarrow> u64" where
  "mass m witness = (case bt_get (masses m) witness of None \<Rightarrow> 0 | Some v \<Rightarrow> v)"

text \<open>\<open>u64::checked_add\<close>.\<close>

definition u64_checked_add :: "u64 \<Rightarrow> u64 \<Rightarrow> u64 option" where
  "u64_checked_add a b = (if unat a + unat b < 2 ^ 64 then Some (a + b) else None)"

definition add_mass ::
    "'w::linorder \<Rightarrow> u64 \<Rightarrow> 'w violation_measure \<Rightarrow> (violation_measure_error, 'w violation_measure) result" where
  "add_mass witness v m =
     (if v = 0 then Inr m
      else res_bind (ok_or (u64_checked_add (mass m witness) v) MultiplicityOverflow)
        (\<lambda>next. Inr (m\<lparr>masses := bt_insert witness next (masses m)\<rparr>)))"

definition retract ::
    "'w::linorder \<Rightarrow> u64 \<Rightarrow> 'w violation_measure \<Rightarrow> (violation_measure_error, 'w violation_measure) result" where
  "retract witness v m =
     (if v = 0 then Inr m
      else res_bind (ok_or (bt_get (masses m) witness) MissingWitness)
        (\<lambda>current.
           if v > current then Inl RetractionExceedsMass
           else if v = current then Inr (m\<lparr>masses := bt_remove witness (masses m)\<rparr>)
           else Inr (m\<lparr>masses := bt_insert witness (current - v) (masses m)\<rparr>)))"

section \<open>Tagged direct sums\<close>

datatype ('t, 'w) tagged_witness = Tagged (tag: 't) (witness: 'w)

instantiation tagged_witness :: (linorder, linorder) linorder
begin

definition less_tagged_witness :: "('a, 'b) tagged_witness \<Rightarrow> ('a, 'b) tagged_witness \<Rightarrow> bool" where
  "less_tagged_witness a b \<longleftrightarrow> tag a < tag b \<or> tag a = tag b \<and> witness a < witness b"

definition less_eq_tagged_witness :: "('a, 'b) tagged_witness \<Rightarrow> ('a, 'b) tagged_witness \<Rightarrow> bool" where
  "less_eq_tagged_witness a b \<longleftrightarrow> a < b \<or> a = b"

instance
  by standard
    (auto simp: less_eq_tagged_witness_def less_tagged_witness_def,
     metis linorder_neqE tagged_witness.expand)

end

definition tagged_direct_sum ::
    "('t::linorder \<times> 'w::linorder violation_measure) list
     \<Rightarrow> (violation_measure_error, ('t, 'w) tagged_witness violation_measure) result" where
  "tagged_direct_sum parts =
     for_fold (\<lambda>(t, m) out.
       for_fold (\<lambda>(w, v) out. add_mass (Tagged t w) v out) (masses m) out) parts new_measure"

section \<open>The measure invariant\<close>

definition measure_wf :: "'w::linorder violation_measure \<Rightarrow> bool" where
  "measure_wf m \<longleftrightarrow> bt_wf (masses m) \<and> (\<forall>w. bt_get (masses m) w \<noteq> Some 0)"

lemma measure_wfD: "measure_wf m \<Longrightarrow> bt_wf (masses m)"
  by (simp add: measure_wf_def)

lemma new_measure_wf [simp]: "measure_wf new_measure"
  by (simp add: measure_wf_def new_measure_def bt_get_def)

lemma mass_new_measure [simp]: "mass new_measure w = 0"
  by (simp add: mass_def new_measure_def bt_get_def)

lemma measure_is_zero_iff: "measure_wf m \<Longrightarrow> measure_is_zero m \<longleftrightarrow> (\<forall>w. mass m w = 0)"
proof
  assume wf: "measure_wf m" and z: "\<forall>w. mass m w = 0"
  have "bt_get (masses m) w = None" for w
    using wf z [rule_format, of w] by (auto simp: measure_wf_def mass_def split: option.splits)
  then have "set (bt_keys (masses m)) = {}" by (auto simp: set_bt_keys)
  then show "measure_is_zero m" by (simp add: measure_is_zero_def bt_keys_def)
qed (auto simp: measure_is_zero_def mass_def bt_get_def)

lemma measure_eqI:
  assumes "measure_wf m" "measure_wf n" "\<And>w. mass m w = mass n w"
  shows "m = n"
proof -
  have "bt_get (masses m) w = bt_get (masses n) w" for w
    using assms(1,2) assms(3) [of w] by (auto simp: measure_wf_def mass_def split: option.splits)
  then have "masses m = masses n"
    using assms by (auto intro!: bt_eqI measure_wfD)
  then show ?thesis by simp
qed

lemma unat_add_no_overflow: "unat a + unat b < 2 ^ 64 \<Longrightarrow> unat (a + b :: u64) = unat a + unat b"
  by (simp add: unat_word_ariths)

lemma add_mass_ok:
  assumes "measure_wf m" "unat (mass m w) + unat v < 2 ^ 64"
  shows "\<exists>n. add_mass w v m = Inr n \<and> measure_wf n
    \<and> (\<forall>x. unat (mass n x) = unat (mass m x) + (if x = w then unat v else 0))"
proof (cases "v = 0")
  case False
  have "mass m w + v \<noteq> 0"
    using False unat_add_no_overflow [OF assms(2)] by (metis add_eq_0_iff_both_eq_0 unsigned_0 unsigned_eq_0_iff)
  then show ?thesis
    using False assms unat_add_no_overflow [OF assms(2)]
    by (auto simp: add_mass_def u64_checked_add_def measure_wf_def bt_wf_insert bt_get_insert mass_def)
qed (use assms in \<open>simp add: add_mass_def\<close>)

lemma add_mass_overflow:
  "2 ^ 64 \<le> unat (mass m w) + unat v \<Longrightarrow> add_mass w v m = Inl MultiplicityOverflow"
proof (cases "v = 0")
  case True
  then show "2 ^ 64 \<le> unat (mass m w) + unat v \<Longrightarrow> ?thesis"
    using unsigned_less [of "mass m w", where ?'a = nat] by simp
qed (simp add: add_mass_def u64_checked_add_def)

lemma retract_spec:
  assumes "measure_wf m"
  shows "if v = 0 then retract w v m = Inr m
    else if mass m w = 0 then retract w v m = Inl MissingWitness
    else if mass m w < v then retract w v m = Inl RetractionExceedsMass
    else \<exists>n. retract w v m = Inr n \<and> measure_wf n
      \<and> (\<forall>x. mass n x = (if x = w then mass m w - v else mass m x))"
proof (cases "bt_get (masses m) w")
  case None
  then show ?thesis by (simp add: retract_def mass_def)
next
  case (Some c)
  with assms have c: "mass m w = c" "c \<noteq> 0" by (auto simp: measure_wf_def mass_def)
  have wf: "measure_wf (m\<lparr>masses := bt_remove w (masses m)\<rparr>)"
    "v \<noteq> c \<Longrightarrow> measure_wf (m\<lparr>masses := bt_insert w (c - v) (masses m)\<rparr>)"
    using assms by (auto simp: measure_wf_def bt_wf_remove bt_get_remove bt_wf_insert bt_get_insert)
  have mass: "mass (m\<lparr>masses := bt_remove w (masses m)\<rparr>) x = (if x = w then 0 else mass m x)"
    "mass (m\<lparr>masses := bt_insert w (c - v) (masses m)\<rparr>) x = (if x = w then c - v else mass m x)" for x
    using measure_wfD [OF assms] by (simp_all add: mass_def bt_get_remove bt_get_insert)
  show ?thesis
    using Some c(2) wf mass by (auto simp: retract_def c(1))
qed

section \<open>Direct sums add up\<close>

definition pair_sum :: "('x \<times> u64) list \<Rightarrow> 'x \<Rightarrow> nat" where
  "pair_sum ps x = sum_list (map (\<lambda>(y, v). if y = x then unat v else 0) ps)"

lemma pair_sum_simps [simp]:
  "pair_sum [] x = 0"
  "pair_sum ((y, v) # ps) x = (if y = x then unat v else 0) + pair_sum ps x"
  "pair_sum (ps @ qs) x = pair_sum ps x + pair_sum qs x"
  by (simp_all add: pair_sum_def)

lemma add_mass_list:
  assumes "measure_wf m"
  shows "if \<forall>x. unat (mass m x) + pair_sum ps x < 2 ^ 64
    then \<exists>n. for_fold (\<lambda>(w, v) out. add_mass w v out) ps m = Inr n \<and> measure_wf n
      \<and> (\<forall>x. unat (mass n x) = unat (mass m x) + pair_sum ps x)
    else for_fold (\<lambda>(w, v) out. add_mass w v out) ps m = Inl MultiplicityOverflow"
  using assms
proof (induction ps arbitrary: m)
  case Nil
  then show ?case using unsigned_less [where ?'a = nat and ?'b = 64] by simp
next
  case (Cons p ps)
  obtain w v where p: "p = (w, v)" by fastforce
  show ?case
  proof (cases "unat (mass m w) + unat v < 2 ^ 64")
    case True
    then obtain n where n: "add_mass w v m = Inr n" "measure_wf n"
      "\<And>x. unat (mass n x) = unat (mass m x) + (if x = w then unat v else 0)"
      using add_mass_ok [OF Cons.prems] by blast
    have eq: "unat (mass n x) + pair_sum ps x = unat (mass m x) + pair_sum (p # ps) x" for x
      using n(3) by (simp add: p)
    have "for_fold (\<lambda>(w, v) out. add_mass w v out) (p # ps) m = for_fold (\<lambda>(w, v) out. add_mass w v out) ps n"
      by (simp add: p n(1))
    then show ?thesis
      using Cons.IH [OF n(2)] unfolding eq by (simp only:)
  next
    case False
    then have "2 ^ 64 \<le> unat (mass m w) + pair_sum (p # ps) w" by (simp add: p)
    then have "\<not> (\<forall>x. unat (mass m x) + pair_sum (p # ps) x < 2 ^ 64)"
      by (metis linorder_not_less)
    with False show ?thesis
      using add_mass_overflow [of m w v] by (simp add: p)
  qed
qed

definition tagged_pairs :: "('t \<times> 'w violation_measure) list \<Rightarrow> (('t, 'w) tagged_witness \<times> u64) list" where
  "tagged_pairs parts = concat (map (\<lambda>(t, m). map (\<lambda>(w, v). (Tagged t w, v)) (masses m)) parts)"

lemma tagged_direct_sum_flat:
  "tagged_direct_sum parts = for_fold (\<lambda>(w, v) out. add_mass w v out) (tagged_pairs parts) new_measure"
proof -
  have "for_fold (\<lambda>(t, m) out. for_fold (\<lambda>(w, v) out. add_mass (Tagged t w) v out) (masses m) out) parts s
      = for_fold (\<lambda>(w, v) out. add_mass w v out) (tagged_pairs parts) s" for s
    by (induction parts arbitrary: s)
      (auto simp: tagged_pairs_def for_fold_append for_fold_map case_prod_unfold res_bind_def split: sum.splits)
  then show ?thesis by (simp add: tagged_direct_sum_def)
qed

definition tagged_total :: "('t \<times> 'w violation_measure) list \<Rightarrow> ('t, 'w) tagged_witness \<Rightarrow> nat" where
  "tagged_total parts x = sum_list (map (\<lambda>(t, m). if t = tag x then unat (mass m (witness x)) else 0) parts)"

lemma pair_sum_masses: "bt_wf ms \<Longrightarrow> pair_sum (map (\<lambda>(w, v). (Tagged t w, v)) ms) x
    = (if t = tag x then case bt_get ms (witness x) of None \<Rightarrow> 0 | Some v \<Rightarrow> unat v else 0)"
proof (induction ms)
  case (Cons p ms)
  obtain w v where p: "p = (w, v)" by fastforce
  with Cons.prems have w: "bt_get ms w = None" and wf: "bt_wf ms"
    by (auto simp: bt_wf_Cons bt_get_def map_of_eq_None_iff)
  show ?case
    using Cons.IH [OF wf] w by (cases x) (auto simp: p bt_get_def)
qed (simp add: bt_get_def)

lemma pair_sum_tagged:
  "(\<forall>(t, m) \<in> set parts. measure_wf m) \<Longrightarrow> pair_sum (tagged_pairs parts) x = tagged_total parts x"
proof (induction parts)
  case (Cons p parts)
  then show ?case
    by (cases p) (auto simp: tagged_pairs_def tagged_total_def pair_sum_masses measure_wfD mass_def
        split: option.splits)
qed (simp add: tagged_pairs_def tagged_total_def)

section \<open>Properties\<close>

text \<open>
  C11: a violation measure is an exact finite measure: additions and retractions change the mass of one
  witness by exactly the amount, fail exactly on overflow, on a missing witness and on a retraction
  larger than the mass, and keep the invariant under which the empty map is the zero measure and equal
  measures have equal representations.
\<close>

theorem violation_measure_exact:
  assumes "measure_wf m"
  shows "(measure_is_zero m \<longleftrightarrow> (\<forall>w. mass m w = 0))
    \<and> (if unat (mass m w) + unat v < 2 ^ 64
       then \<exists>n. add_mass w v m = Inr n \<and> measure_wf n
         \<and> (\<forall>x. unat (mass n x) = unat (mass m x) + (if x = w then unat v else 0))
         \<and> retract w v n = Inr m
       else add_mass w v m = Inl MultiplicityOverflow)
    \<and> (if v = 0 then retract w v m = Inr m
       else if mass m w = 0 then retract w v m = Inl MissingWitness
       else if mass m w < v then retract w v m = Inl RetractionExceedsMass
       else \<exists>n. retract w v m = Inr n \<and> measure_wf n
         \<and> (\<forall>x. mass n x = (if x = w then mass m w - v else mass m x)))"
proof (intro conjI)
  show "if unat (mass m w) + unat v < 2 ^ 64
       then \<exists>n. add_mass w v m = Inr n \<and> measure_wf n
         \<and> (\<forall>x. unat (mass n x) = unat (mass m x) + (if x = w then unat v else 0))
         \<and> retract w v n = Inr m
       else add_mass w v m = Inl MultiplicityOverflow"
  proof (cases "unat (mass m w) + unat v < 2 ^ 64")
    case True
    then obtain n where n: "add_mass w v m = Inr n" "measure_wf n"
      "\<And>x. unat (mass n x) = unat (mass m x) + (if x = w then unat v else 0)"
      using add_mass_ok [OF assms] by blast
    have mass_n: "mass n x = mass m x + (if x = w then v else 0)" for x
      using n(3) [of x] unat_add_no_overflow [OF True]
      by (cases "x = w") (simp_all add: word_eq_iff_unsigned [where ?'a = nat])
    have "retract w v n = Inr m"
    proof (cases "v = 0")
      case True
      then show ?thesis using measure_eqI [OF n(2) assms] mass_n by (simp add: retract_def)
    next
      case False
      have "mass n w \<noteq> 0" "\<not> mass n w < v"
        using False n(3) [of w] by (auto simp: word_less_nat_alt word_eq_iff_unsigned [where ?'a = nat])
      then obtain k where k: "retract w v n = Inr k" "measure_wf k"
        "\<And>x. mass k x = (if x = w then mass n w - v else mass n x)"
        using retract_spec [OF n(2), of v w] False by auto
      then show ?thesis using measure_eqI [OF k(2) assms] mass_n by simp
    qed
    with True n show ?thesis by auto
  qed (simp add: add_mass_overflow)
qed (use measure_is_zero_iff [OF assms] retract_spec [OF assms] in blast)+

theorem violation_measure_exact_witness:
  "let m = \<lparr>masses = [(3 :: nat, 2)]\<rparr>
   in measure_wf m \<and> retract 3 5 m = Inl RetractionExceedsMass
      \<and> retract 7 1 m = Inl MissingWitness \<and> \<not> measure_is_zero m"
proof -
  have wf: "measure_wf \<lparr>masses = [(3 :: nat, 2)]\<rparr>"
    by (simp add: measure_wf_def bt_wf_def bt_get_def)
  have mass: "mass \<lparr>masses = [(3 :: nat, 2)]\<rparr> 3 = 2" "mass \<lparr>masses = [(3 :: nat, 2)]\<rparr> 7 = 0"
    by (simp_all add: mass_def bt_get_def)
  from violation_measure_exact [OF wf, of 3 5] violation_measure_exact [OF wf, of 7 1] wf mass
  show ?thesis by (auto simp: Let_def)
qed

text \<open>
  C26: the tagged direct sum of measures adds exactly and keeps namespaces apart: the mass of a tagged
  witness is the sum of its masses in the measures with that tag, no mass moves between tags, and the
  sum is refused precisely when some total exceeds \<open>u64\<close>.
\<close>

theorem tagged_direct_sum_exact:
  assumes "\<forall>(t, m) \<in> set parts. measure_wf m"
  shows "if \<forall>x. tagged_total parts x < 2 ^ 64
    then \<exists>out. tagged_direct_sum parts = Inr out \<and> measure_wf out
      \<and> (\<forall>x. unat (mass out x) = tagged_total parts x)
      \<and> (measure_is_zero out \<longleftrightarrow> (\<forall>(t, m) \<in> set parts. measure_is_zero m))
    else tagged_direct_sum parts = Inl MultiplicityOverflow"
proof (cases "\<forall>x. tagged_total parts x < 2 ^ 64")
  case True
  have "\<exists>out. tagged_direct_sum parts = Inr out \<and> measure_wf out
      \<and> (\<forall>x. unat (mass out x) = tagged_total parts x)"
    using add_mass_list [OF new_measure_wf, of "tagged_pairs parts"] True
    by (simp add: tagged_direct_sum_flat pair_sum_tagged [OF assms])
  then obtain out where out: "tagged_direct_sum parts = Inr out" "measure_wf out"
    "\<And>x. unat (mass out x) = tagged_total parts x" by blast
  have "measure_is_zero out \<longleftrightarrow> (\<forall>x. tagged_total parts x = 0)"
    using measure_is_zero_iff [OF out(2)] out(3) by (metis unsigned_0 word_eq_iff_unsigned)
  also have "\<dots> \<longleftrightarrow> (\<forall>(t, m) \<in> set parts. \<forall>w. mass m w = 0)"
  proof -
    have "tagged_total parts x = 0 \<longleftrightarrow> (\<forall>(t, m) \<in> set parts. t = tag x \<longrightarrow> mass m (witness x) = 0)" for x
      by (induction parts) (auto simp: tagged_total_def unsigned_eq_0_iff)
    then have "(\<forall>x. tagged_total parts x = 0)
        \<longleftrightarrow> (\<forall>x. \<forall>(t, m) \<in> set parts. t = tag x \<longrightarrow> mass m (witness x) = 0)"
      by simp
    also have "\<dots> \<longleftrightarrow> (\<forall>(t, m) \<in> set parts. \<forall>w. mass m w = 0)"
      by (auto simp: case_prod_unfold) (metis fst_conv snd_conv tagged_witness.sel)
    finally show ?thesis .
  qed
  also have "\<dots> \<longleftrightarrow> (\<forall>(t, m) \<in> set parts. measure_is_zero m)"
    using assms measure_is_zero_iff by fastforce
  finally show ?thesis using True out by simp
next
  case False
  moreover have "tagged_direct_sum parts = Inl MultiplicityOverflow"
    using add_mass_list [OF new_measure_wf, of "tagged_pairs parts"] False
    by (simp add: tagged_direct_sum_flat pair_sum_tagged [OF assms] split: if_splits)
  ultimately show ?thesis by (simp only: if_False)
qed

theorem tagged_direct_sum_exact_witness:
  "let ms = [(0 :: nat, \<lparr>masses = [(7 :: nat, 1)]\<rparr>), (1, \<lparr>masses = [(7, 3)]\<rparr>)]
   in (\<forall>(t, m) \<in> set ms. measure_wf m)
      \<and> (\<exists>out. tagged_direct_sum ms = Inr out \<and> unat (mass out (Tagged 1 7)) = 3)"
proof -
  let ?ms = "[(0 :: nat, \<lparr>masses = [(7 :: nat, 1)]\<rparr>), (1, \<lparr>masses = [(7, 3)]\<rparr>)]"
  have wf: "\<forall>(t, m) \<in> set ?ms. measure_wf m"
    by (simp add: measure_wf_def bt_wf_def bt_get_def)
  have "tagged_total ?ms x < 2 ^ 64" for x
    by (cases x) (auto simp: tagged_total_def mass_def bt_get_def split: option.splits)
  moreover have "tagged_total ?ms (Tagged 1 7) = 3"
    by (simp add: tagged_total_def mass_def bt_get_def)
  ultimately show ?thesis
    using wf tagged_direct_sum_exact [OF wf] by (auto simp: Let_def)
qed

end
