(* ===== verification/Proof_Rewrite.thy ===== *)
theory Proof_Rewrite
  imports Prelude
begin

text \<open>
  \<open>kernel-proof\<close>: a small proof-carrying optimizer. A rewrite of a plan is accepted only with a
  certificate that a checker validates; the only rule fuses two nested filters. The trait
  \<open>CertificateChecker\<close> is the argument \<open>check\<close> of \<open>verify_certificate\<close>, and the locale
  \<open>sound_checker\<close> is what a checker must promise for a checked certificate to mean anything.
\<close>

section \<open>Checked certificates\<close>

record ('s, 'c) checked_certificate =
  cert_spec :: 's
  cert_certificate :: 'c

definition verify_certificate ::
    "('s \<Rightarrow> 'c \<Rightarrow> ('e, unit) result) \<Rightarrow> 's \<Rightarrow> 'c \<Rightarrow> ('e, ('s, 'c) checked_certificate) result" where
  "verify_certificate check spec certificate =
     res_bind (check spec certificate)
       (\<lambda>_. Inr \<lparr>cert_spec = spec, cert_certificate = certificate\<rparr>)"

locale sound_checker =
  fixes check :: "'s \<Rightarrow> 'c \<Rightarrow> ('e, unit) result"
    and meaning :: "'s \<Rightarrow> bool"
  assumes sound: "check spec certificate = Inr () \<Longrightarrow> meaning spec"
begin

lemma checked_means:
  "verify_certificate check spec certificate = Inr cc
   \<Longrightarrow> cert_spec cc = spec \<and> cert_certificate cc = certificate \<and> meaning (cert_spec cc)"
  by (auto simp: verify_certificate_def result_simps sound)

end

section \<open>Plans\<close>

datatype cell = I64 u64 | Bool bool

type_synonym row = "cell list"

datatype predicate = TrueP | EqI64 nat u64 | And predicate predicate

primrec evaluate :: "predicate \<Rightarrow> row \<Rightarrow> bool" where
  "evaluate TrueP row = True"
| "evaluate (EqI64 column value) row =
     (case get_vec row column of Some (I64 actual) \<Rightarrow> actual = value | _ \<Rightarrow> False)"
| "evaluate (And l r) row = (evaluate l row \<and> evaluate r row)"

datatype plan = Input | Filter predicate plan

primrec execute :: "plan \<Rightarrow> row list \<Rightarrow> row list" where
  "execute Input input_rows = input_rows"
| "execute (Filter predicate input) input_rows =
     filter (evaluate predicate) (execute input input_rows)"

section \<open>The rewrite checker\<close>

datatype rewrite_certificate = FuseNestedFilters

record rewrite_spec =
  before :: plan
  after_plan :: plan

datatype proof_error = InvalidRewrite

fun check_rewrite :: "plan \<Rightarrow> plan \<Rightarrow> rewrite_certificate \<Rightarrow> bool" where
  "check_rewrite bef aft FuseNestedFilters =
     (case bef of
        Filter outer outer_input \<Rightarrow>
          (case outer_input of
             Filter inner base \<Rightarrow> aft = Filter (And inner outer) base
           | Input \<Rightarrow> False)
      | Input \<Rightarrow> False)"

definition rewrite_check :: "rewrite_spec \<Rightarrow> rewrite_certificate \<Rightarrow> (proof_error, unit) result" where
  "rewrite_check spec certificate =
     (if check_rewrite (before spec) (after_plan spec) certificate then Inr () else Inl InvalidRewrite)"

definition verify_rewrite :: "plan \<Rightarrow> plan \<Rightarrow> rewrite_certificate
    \<Rightarrow> (proof_error, (rewrite_spec, rewrite_certificate) checked_certificate) result" where
  "verify_rewrite bef aft certificate =
     verify_certificate rewrite_check \<lparr>before = bef, after_plan = aft\<rparr> certificate"

section \<open>Soundness\<close>

lemma check_rewrite_iff:
  "check_rewrite bef aft cert \<longleftrightarrow>
     (\<exists>p q base. bef = Filter q (Filter p base) \<and> aft = Filter (And p q) base)"
  by (cases cert) (auto split: plan.splits)

lemma check_rewrite_execute: "check_rewrite bef aft cert \<Longrightarrow> execute bef = execute aft"
  by (auto simp: check_rewrite_iff fun_eq_iff intro!: filter_cong)

interpretation rewrite: sound_checker rewrite_check "\<lambda>s. execute (before s) = execute (after_plan s)"
  by unfold_locales (auto simp: rewrite_check_def intro: check_rewrite_execute split: if_splits)

text \<open>
  C25: the certificate checker is sound and exact: a rewrite is certified precisely when it fuses two
  nested filters, a certified rewrite returns the same rows in the same order on every input, and
  anything else is rejected as \<open>InvalidRewrite\<close>.
\<close>

theorem certified_rewrite_sound:
  "(case verify_rewrite bef aft cert of
      Inr cc \<Rightarrow> before (cert_spec cc) = bef \<and> after_plan (cert_spec cc) = aft
        \<and> (\<forall>rows. execute bef rows = execute aft rows)
    | Inl e \<Rightarrow> e = InvalidRewrite \<and> \<not> check_rewrite bef aft cert)
   \<and> ((\<exists>cc. verify_rewrite bef aft cert = Inr cc) \<longleftrightarrow>
        (\<exists>p q base. bef = Filter q (Filter p base) \<and> aft = Filter (And p q) base))"
proof -
  have "execute bef = execute aft" if "verify_rewrite bef aft cert = Inr cc" for cc
    using rewrite.checked_means [of "\<lparr>before = bef, after_plan = aft\<rparr>" cert cc] that
    by (auto simp: verify_rewrite_def)
  then show ?thesis
    by (auto simp: verify_rewrite_def verify_certificate_def rewrite_check_def
        check_rewrite_iff simp del: check_rewrite.simps)
qed

end
