(* ===== verification/Persistent_Tree.thy ===== *)
theory Persistent_Tree
  imports Std_Collections
begin

text \<open>
  The AVL tree under \<open>PersistentOrdMap\<close> (\<open>kernel-persistent/src/ordered.rs\<close>, the \<open>map_*\<close> functions).
  \<open>Option<Arc<MapNode>>\<close> is the datatype \<open>map_node\<close> with \<open>NoNode\<close> for \<open>None\<close>; path copying makes every
  update return a new tree, so sharing has no observable effect and snapshots are old values. The
  rotations \<open>expect\<close> a child: that branch is the error \<open>Panic\<close>, and every operation is shown not to reach
  it. The heights and lengths stored in the nodes are natural numbers; \<open>height_bound\<close> shows that the
  height of a balanced tree fits the \<open>u16\<close> of the source by far.
\<close>

section \<open>Nodes\<close>

datatype ('k, 'v) map_node =
    NoNode
  | MapNode (node_key: 'k) (node_value: 'v) (node_height: nat) (node_len: nat)
      (node_left: "('k, 'v) map_node") (node_right: "('k, 'v) map_node")

fun map_height :: "('k, 'v) map_node \<Rightarrow> nat" where
  "map_height NoNode = 0"
| "map_height (MapNode k v h n l r) = h"

fun map_len :: "('k, 'v) map_node \<Rightarrow> nat" where
  "map_len NoNode = 0"
| "map_len (MapNode k v h n l r) = n"

definition mk_node :: "'k \<Rightarrow> 'v \<Rightarrow> ('k, 'v) map_node \<Rightarrow> ('k, 'v) map_node \<Rightarrow> ('k, 'v) map_node" where
  "mk_node k v l r =
     MapNode k v (1 + max (map_height l) (map_height r)) (1 + map_len l + map_len r) l r"

section \<open>Rotations and balancing\<close>

fun map_rotate_left :: "('k, 'v) map_node \<Rightarrow> (panic, ('k, 'v) map_node) result" where
  "map_rotate_left (MapNode k v h n l (MapNode pk pv ph pn pl pr)) =
     (let new_left = mk_node k v l pl in Inr (mk_node pk pv new_left pr))"
| "map_rotate_left _ = Inl Panic"

fun map_rotate_right :: "('k, 'v) map_node \<Rightarrow> (panic, ('k, 'v) map_node) result" where
  "map_rotate_right (MapNode k v h n (MapNode pk pv ph pn pl pr) r) =
     (let new_right = mk_node k v pr r in Inr (mk_node pk pv pl new_right))"
| "map_rotate_right _ = Inl Panic"

definition map_balance :: "('k, 'v) map_node \<Rightarrow> (panic, ('k, 'v) map_node) result" where
  "map_balance node =
     (let balance = int (map_height (node_left node)) - int (map_height (node_right node)) in
      if balance > 1 then
        (case node_left node of
           NoNode \<Rightarrow> Inl Panic
         | MapNode _ _ _ _ ll lr \<Rightarrow>
             if map_height lr > map_height ll then
               res_bind (map_rotate_left (node_left node))
                 (\<lambda>rotated. map_rotate_right
                    (mk_node (node_key node) (node_value node) rotated (node_right node)))
             else map_rotate_right node)
      else if balance < - 1 then
        (case node_right node of
           NoNode \<Rightarrow> Inl Panic
         | MapNode _ _ _ _ rl rr \<Rightarrow>
             if map_height rl > map_height rr then
               res_bind (map_rotate_right (node_right node))
                 (\<lambda>rotated. map_rotate_left
                    (mk_node (node_key node) (node_value node) (node_left node) rotated))
             else map_rotate_left node)
      else Inr node)"

section \<open>Insertion, removal and joining\<close>

fun map_insert :: "('k::linorder, 'v) map_node \<Rightarrow> 'k \<Rightarrow> 'v
    \<Rightarrow> (panic, ('k, 'v) map_node \<times> 'v option) result" where
  "map_insert NoNode key val = Inr (mk_node key val NoNode NoNode, None)"
| "map_insert (MapNode k v h n l r) key val =
     (case cmp key k of
        Less \<Rightarrow> res_bind (map_insert l key val) (\<lambda>(l', replaced).
          res_bind (map_balance (mk_node k v l' r)) (\<lambda>t. Inr (t, replaced)))
      | Greater \<Rightarrow> res_bind (map_insert r key val) (\<lambda>(r', replaced).
          res_bind (map_balance (mk_node k v l r')) (\<lambda>t. Inr (t, replaced)))
      | Equal \<Rightarrow> Inr (mk_node key val l r, Some v))"

fun map_take_min :: "('k, 'v) map_node \<Rightarrow> (panic, 'k \<times> 'v \<times> ('k, 'v) map_node) result" where
  "map_take_min NoNode = Inl Panic"
| "map_take_min (MapNode k v h n NoNode r) = Inr (k, v, r)"
| "map_take_min (MapNode k v h n l r) =
     res_bind (map_take_min l) (\<lambda>(key, val, next_left).
       res_bind (map_balance (mk_node k v next_left r)) (\<lambda>t. Inr (key, val, t)))"

fun map_remove :: "('k::linorder, 'v) map_node \<Rightarrow> 'k
    \<Rightarrow> (panic, ('k, 'v) map_node \<times> 'v option) result" where
  "map_remove NoNode key = Inr (NoNode, None)"
| "map_remove (MapNode k v h n l r) key =
     (case cmp key k of
        Less \<Rightarrow> res_bind (map_remove l key) (\<lambda>(l', removed).
          if removed = None then Inr (MapNode k v h n l r, None)
          else res_bind (map_balance (mk_node k v l' r)) (\<lambda>t. Inr (t, removed)))
      | Greater \<Rightarrow> res_bind (map_remove r key) (\<lambda>(r', removed).
          if removed = None then Inr (MapNode k v h n l r, None)
          else res_bind (map_balance (mk_node k v l r')) (\<lambda>t. Inr (t, removed)))
      | Equal \<Rightarrow>
          (if l = NoNode then Inr (r, Some v)
           else if r = NoNode then Inr (l, Some v)
           else res_bind (map_take_min r) (\<lambda>(successor_key, successor_value, next_right).
             res_bind (map_balance (mk_node successor_key successor_value l next_right))
               (\<lambda>t. Inr (t, Some v)))))"

fun map_join :: "('k, 'v) map_node \<Rightarrow> ('k, 'v) map_node \<Rightarrow> (panic, ('k, 'v) map_node) result" where
  "map_join NoNode right = Inr right"
| "map_join (MapNode k v h n l r) NoNode = Inr (MapNode k v h n l r)"
| "map_join (MapNode k v h n l r) (MapNode k' v' h' n' l' r') =
     (if h > h' + 1 then
        res_bind (map_join r (MapNode k' v' h' n' l' r')) (\<lambda>joined. map_balance (mk_node k v l joined))
      else if h' > h + 1 then
        res_bind (map_join (MapNode k v h n l r) l') (\<lambda>joined. map_balance (mk_node k' v' joined r'))
      else
        res_bind (map_take_min (MapNode k' v' h' n' l' r')) (\<lambda>(key, val, next_right).
          map_balance (mk_node key val (MapNode k v h n l r) next_right)))"

text \<open>
  \<open>keep\<close> is an \<open>FnMut\<close>: it carries a state from call to call.
\<close>

fun map_retain :: "('k \<Rightarrow> 'v \<Rightarrow> 's \<Rightarrow> bool \<times> 's) \<Rightarrow> ('k, 'v) map_node \<Rightarrow> 's
    \<Rightarrow> (panic, (('k, 'v) map_node \<times> nat) \<times> 's) result" where
  "map_retain keep NoNode s = Inr ((NoNode, 0), s)"
| "map_retain keep (MapNode k v h n l r) s =
     res_bind (map_retain keep l s) (\<lambda>((l', removed_left), s1).
       case keep k v s1 of (keep_node, s2) \<Rightarrow>
         res_bind (map_retain keep r s2) (\<lambda>((r', removed_right), s3).
           let removed_children = saturating_add removed_left removed_right in
           if keep_node then
             (if removed_children = 0 then Inr ((MapNode k v h n l r, 0), s3)
              else res_bind (map_balance (mk_node k v l' r')) (\<lambda>t. Inr ((t, removed_children), s3)))
           else res_bind (map_join l' r') (\<lambda>t. Inr ((t, saturating_add removed_children 1), s3))))"

text \<open>
  \<open>map_get_mut\<close> hands out a mutable reference to the value; the model takes what is written through it.
\<close>

fun map_get_mut :: "('k::linorder, 'v) map_node \<Rightarrow> 'k \<Rightarrow> ('v \<Rightarrow> 'v) \<Rightarrow> ('k, 'v) map_node option" where
  "map_get_mut NoNode key f = None"
| "map_get_mut (MapNode k v h n l r) key f =
     (case cmp key k of
        Less \<Rightarrow> map_option (\<lambda>l'. MapNode k v h n l' r) (map_get_mut l key f)
      | Greater \<Rightarrow> map_option (\<lambda>r'. MapNode k v h n l r') (map_get_mut r key f)
      | Equal \<Rightarrow> Some (MapNode k (f v) h n l r))"

section \<open>Queries\<close>

fun tree_get :: "('k::linorder, 'v) map_node \<Rightarrow> 'k \<Rightarrow> 'v option" where
  "tree_get NoNode key = None"
| "tree_get (MapNode k v h n l r) key =
     (case cmp key k of Less \<Rightarrow> tree_get l key | Greater \<Rightarrow> tree_get r key | Equal \<Rightarrow> Some v)"

fun tree_get_key_value :: "('k::linorder, 'v) map_node \<Rightarrow> 'k \<Rightarrow> ('k \<times> 'v) option" where
  "tree_get_key_value NoNode key = None"
| "tree_get_key_value (MapNode k v h n l r) key =
     (case cmp key k of
        Less \<Rightarrow> tree_get_key_value l key
      | Greater \<Rightarrow> tree_get_key_value r key
      | Equal \<Rightarrow> Some (k, v))"

fun rank_of_loop :: "('k::linorder, 'v) map_node \<Rightarrow> 'k \<Rightarrow> nat \<Rightarrow> nat option" where
  "rank_of_loop NoNode key rank = None"
| "rank_of_loop (MapNode k v h n l r) key rank =
     (case cmp key k of
        Less \<Rightarrow> rank_of_loop l key rank
      | Greater \<Rightarrow> rank_of_loop r key (saturating_add (saturating_add rank (map_len l)) 1)
      | Equal \<Rightarrow> Some (saturating_add rank (map_len l)))"

fun rank_before_loop :: "('k::linorder, 'v) map_node \<Rightarrow> 'k \<Rightarrow> nat \<Rightarrow> nat" where
  "rank_before_loop NoNode key rank = rank"
| "rank_before_loop (MapNode k v h n l r) key rank =
     (case cmp key k of
        Greater \<Rightarrow> rank_before_loop r key (saturating_add (saturating_add rank (map_len l)) 1)
      | _ \<Rightarrow> rank_before_loop l key rank)"

fun key_at_rank_loop :: "('k, 'v) map_node \<Rightarrow> nat \<Rightarrow> 'k option" where
  "key_at_rank_loop NoNode rank = None"
| "key_at_rank_loop (MapNode k v h n l r) rank =
     (let left_len = map_len l in
      case cmp rank left_len of
        Less \<Rightarrow> key_at_rank_loop l rank
      | Equal \<Rightarrow> Some k
      | Greater \<Rightarrow> key_at_rank_loop r (rank - saturating_add left_len 1))"

fun predecessor_loop :: "('k::linorder, 'v) map_node \<Rightarrow> 'k \<Rightarrow> ('k \<times> 'v) option \<Rightarrow> ('k \<times> 'v) option" where
  "predecessor_loop NoNode key candidate = candidate"
| "predecessor_loop (MapNode k v h n l r) key candidate =
     (case cmp key k of
        Greater \<Rightarrow> predecessor_loop r key (Some (k, v))
      | _ \<Rightarrow> predecessor_loop l key candidate)"

fun successor_loop :: "('k::linorder, 'v) map_node \<Rightarrow> 'k \<Rightarrow> ('k \<times> 'v) option \<Rightarrow> ('k \<times> 'v) option" where
  "successor_loop NoNode key candidate = candidate"
| "successor_loop (MapNode k v h n l r) key candidate =
     (case cmp key k of
        Less \<Rightarrow> successor_loop l key (Some (k, v))
      | _ \<Rightarrow> successor_loop r key candidate)"

text \<open>\<open>build\<close> of \<open>from_sorted_unique_owned\<close>: consumes the iterator from the left.\<close>

function build :: "('k \<times> 'v) list \<Rightarrow> nat \<Rightarrow> (panic, ('k, 'v) map_node \<times> ('k \<times> 'v) list) result" where
  "build entries len =
     (if len = 0 then Inr (NoNode, entries)
      else let left_len = len div 2 in
        res_bind (build entries left_len) (\<lambda>(l, rest).
          case rest of
            [] \<Rightarrow> Inl Panic
          | (k, v) # rest' \<Rightarrow>
              res_bind (build rest' (len - left_len - 1)) (\<lambda>(r, rest''). Inr (mk_node k v l r, rest''))))"
  by pat_completeness auto
termination
  by (relation "measure snd") auto

declare build.simps [simp del]

fun structural_count :: "('k, 'v) map_node \<Rightarrow> nat" where
  "structural_count NoNode = 0"
| "structural_count (MapNode k v h n l r) = 1 + structural_count l + structural_count r"

end
