(* ===== verification/Persistent_Balance.thy ===== *)
theory Persistent_Balance
  imports Persistent_Tree
begin

text \<open>
  Correctness of the AVL operations of \<open>Persistent_Tree\<close>: none of them panics, each refines the
  operation on the sorted list of entries, the stored heights and lengths stay right, and insertion,
  removal and joining keep the tree height balanced.
\<close>

section \<open>Abstraction and invariants\<close>

text \<open>The entries in key order; the stored metadata is right; the tree is height balanced.\<close>

fun inorder :: "('k, 'v) map_node \<Rightarrow> ('k \<times> 'v) list" where
  "inorder NoNode = []"
| "inorder (MapNode k v h n l r) = inorder l @ (k, v) # inorder r"

fun aug :: "('k, 'v) map_node \<Rightarrow> bool" where
  "aug NoNode = True"
| "aug (MapNode k v h n l r) \<longleftrightarrow>
     h = 1 + max (map_height l) (map_height r) \<and> n = 1 + map_len l + map_len r \<and> aug l \<and> aug r"

fun avl :: "('k, 'v) map_node \<Rightarrow> bool" where
  "avl NoNode = True"
| "avl (MapNode k v h n l r) \<longleftrightarrow>
     map_height l \<le> map_height r + 1 \<and> map_height r \<le> map_height l + 1 \<and> avl l \<and> avl r"

abbreviation bst :: "('k::linorder, 'v) map_node \<Rightarrow> bool" where
  "bst t \<equiv> bt_wf (inorder t)"

lemma mk_node_simps [simp]:
  "inorder (mk_node k v l r) = inorder l @ (k, v) # inorder r"
  "map_height (mk_node k v l r) = 1 + max (map_height l) (map_height r)"
  "map_len (mk_node k v l r) = 1 + map_len l + map_len r"
  "aug (mk_node k v l r) \<longleftrightarrow> aug l \<and> aug r"
  "avl (mk_node k v l r) \<longleftrightarrow>
     map_height l \<le> map_height r + 1 \<and> map_height r \<le> map_height l + 1 \<and> avl l \<and> avl r"
  "node_left (mk_node k v l r) = l" "node_right (mk_node k v l r) = r"
  "node_key (mk_node k v l r) = k" "node_value (mk_node k v l r) = v"
  "mk_node k v l r \<noteq> NoNode"
  by (auto simp: mk_node_def)

lemma aug_len: "aug t \<Longrightarrow> map_len t = length (inorder t)"
  by (induction t) auto

lemma aug_height_0: "aug t \<Longrightarrow> map_height t = 0 \<longleftrightarrow> t = NoNode"
  by (cases t) auto

lemma height_pos: "0 < map_height t \<Longrightarrow> \<exists>k v h n l r. t = MapNode k v h n l r"
  by (cases t) auto

subsection \<open>Balancing\<close>

text \<open>
  What one call of \<open>map_balance\<close> does to a fresh node: it never panics, keeps the entries and the
  metadata, does not grow the tree, and restores balance when the subtrees differ by at most two.
\<close>

definition balanced_from ::
    "('k, 'v) map_node \<Rightarrow> 'k \<Rightarrow> 'v \<Rightarrow> ('k, 'v) map_node \<Rightarrow> ('k, 'v) map_node \<Rightarrow> bool" where
  "balanced_from t k v l r \<longleftrightarrow>
     inorder t = inorder l @ (k, v) # inorder r \<and> aug t
     \<and> map_height t \<le> 1 + max (map_height l) (map_height r)
     \<and> (avl l \<and> avl r \<and> map_height l \<le> map_height r + 2 \<and> map_height r \<le> map_height l + 2
        \<longrightarrow> avl t \<and> max (map_height l) (map_height r) \<le> map_height t)
     \<and> (map_height l \<le> map_height r + 1 \<and> map_height r \<le> map_height l + 1
        \<longrightarrow> map_height t = 1 + max (map_height l) (map_height r))"

lemma map_balance_left_heavy:
  assumes "aug l" "aug r" "map_height l > map_height r + 1"
  shows "\<exists>t. map_balance (mk_node k v l r) = Inr t \<and> balanced_from t k v l r"
proof -
  obtain lk lv lh ln ll lr where l: "l = MapNode lk lv lh ln ll lr"
    using height_pos [of l] assms(3) by (metis gr_zeroI not_less_zero)
  show ?thesis
  proof (cases "map_height lr > map_height ll")
    case True
    then obtain pk pv ph pn pl pr where lr: "lr = MapNode pk pv ph pn pl pr"
      using height_pos [of lr] by (metis gr_zeroI not_less_zero)
    show ?thesis
      using assms True unfolding map_balance_def balanced_from_def
      by (simp add: l lr mk_node_def) (auto simp: max_def)
  next
    case False
    then show ?thesis
      using assms unfolding map_balance_def balanced_from_def
      by (simp add: l mk_node_def)
  qed
qed

lemma map_balance_right_heavy:
  assumes "aug l" "aug r" "map_height r > map_height l + 1"
  shows "\<exists>t. map_balance (mk_node k v l r) = Inr t \<and> balanced_from t k v l r"
proof -
  obtain rk rv rh rn rl rr where r: "r = MapNode rk rv rh rn rl rr"
    using height_pos [of r] assms(3) by (metis gr_zeroI not_less_zero)
  show ?thesis
  proof (cases "map_height rl > map_height rr")
    case True
    then obtain pk pv ph pn pl pr where rl: "rl = MapNode pk pv ph pn pl pr"
      using height_pos [of rl] by (metis gr_zeroI not_less_zero)
    show ?thesis
      using assms True unfolding map_balance_def balanced_from_def
      by (simp add: r rl mk_node_def) (auto simp: max_def)
  next
    case False
    then show ?thesis
      using assms unfolding map_balance_def balanced_from_def
      by (simp add: r mk_node_def)
  qed
qed

lemma map_balance_ok:
  assumes "aug l" "aug r"
  obtains t where "map_balance (mk_node k v l r) = Inr t" "balanced_from t k v l r"
proof -
  consider "map_height l > map_height r + 1" | "map_height r > map_height l + 1"
    | "map_height l \<le> map_height r + 1" "map_height r \<le> map_height l + 1" by linarith
  then show thesis
  proof cases
    case 3
    then have "map_balance (mk_node k v l r) = Inr (mk_node k v l r)"
      by (simp add: map_balance_def Let_def)
    moreover have "balanced_from (mk_node k v l r) k v l r"
      using 3 assms by (simp add: balanced_from_def le_SucI)
    ultimately show ?thesis using that by blast
  next
    case 1
    then show ?thesis using map_balance_left_heavy [OF assms] that by metis
  next
    case 2
    then show ?thesis using map_balance_right_heavy [OF assms] that by metis
  qed
qed

lemma balanced_fromD:
  assumes "balanced_from t k v l r"
  shows "inorder t = inorder l @ (k, v) # inorder r" "aug t"
    "map_height t \<le> 1 + max (map_height l) (map_height r)"
    "avl l \<Longrightarrow> avl r \<Longrightarrow> map_height l \<le> map_height r + 2 \<Longrightarrow> map_height r \<le> map_height l + 2 \<Longrightarrow> avl t"
    "avl l \<Longrightarrow> avl r \<Longrightarrow> map_height l \<le> map_height r + 2 \<Longrightarrow> map_height r \<le> map_height l + 2
       \<Longrightarrow> max (map_height l) (map_height r) \<le> map_height t"
    "map_height l \<le> map_height r + 1 \<Longrightarrow> map_height r \<le> map_height l + 1
       \<Longrightarrow> map_height t = 1 + max (map_height l) (map_height r)"
  using assms by (auto simp: balanced_from_def)

text \<open>One side of a balanced node grew or shrank by at most one.\<close>

lemma balanced_from_avl:
  assumes b: "balanced_from t k v l' r'" and avl: "avl l'" "avl r'"
    and d: "map_height l' \<le> map_height r' + 2" "map_height r' \<le> map_height l' + 2"
  shows "avl t \<and> map_height t \<le> 1 + max (map_height l') (map_height r')
    \<and> max (map_height l') (map_height r') \<le> map_height t
    \<and> (map_height l' \<le> map_height r' + 1 \<and> map_height r' \<le> map_height l' + 1
        \<longrightarrow> map_height t = 1 + max (map_height l') (map_height r'))"
  using balanced_fromD [OF b] avl d by blast

lemma balanced_grow:
  assumes "balanced_from t k v l' r'" "avl l'" "avl r'"
    "map_height l \<le> map_height r + 1" "map_height r \<le> map_height l + 1"
    "map_height l \<le> map_height l'" "map_height r \<le> map_height r'"
    "map_height l' + map_height r' \<le> map_height l + map_height r + 1"
  shows "avl t" "1 + max (map_height l) (map_height r) \<le> map_height t"
    "map_height t \<le> 2 + max (map_height l) (map_height r)"
proof -
  have d: "map_height l' \<le> map_height r' + 2" "map_height r' \<le> map_height l' + 2"
    using assms by linarith+
  note h = balanced_from_avl [OF assms(1-3) d]
  from h show "avl t" by blast
  show "map_height t \<le> 2 + max (map_height l) (map_height r)" using h assms by linarith
  show "1 + max (map_height l) (map_height r) \<le> map_height t"
  proof (cases "map_height l' \<le> map_height r' + 1 \<and> map_height r' \<le> map_height l' + 1")
    case True
    with h assms show ?thesis by linarith
  next
    case False
    with h assms show ?thesis by linarith
  qed
qed

lemma balanced_shrink:
  assumes "balanced_from t k v l' r'" "avl l'" "avl r'"
    "map_height l \<le> map_height r + 1" "map_height r \<le> map_height l + 1"
    "map_height l' \<le> map_height l" "map_height r' \<le> map_height r"
    "map_height l + map_height r \<le> map_height l' + map_height r' + 1"
  shows "avl t" "map_height t \<le> 1 + max (map_height l) (map_height r)"
    "max (map_height l) (map_height r) \<le> map_height t"
proof -
  have d: "map_height l' \<le> map_height r' + 2" "map_height r' \<le> map_height l' + 2"
    using assms by linarith+
  note h = balanced_from_avl [OF assms(1-3) d]
  from h show "avl t" by blast
  show "map_height t \<le> 1 + max (map_height l) (map_height r)" using h assms by linarith
  show "max (map_height l) (map_height r) \<le> map_height t"
  proof (cases "map_height l' \<le> map_height r' + 1 \<and> map_height r' \<le> map_height l' + 1")
    case True
    with h assms show ?thesis by linarith
  next
    case False
    with h assms show ?thesis by linarith
  qed
qed

subsection \<open>Sorted entry lists split at a key\<close>

lemma bt_wf_append: "bt_wf (xs @ (a, b) # ys) \<longleftrightarrow>
    bt_wf xs \<and> bt_wf ys \<and> (\<forall>x \<in> fst ` set xs. x < a) \<and> (\<forall>y \<in> fst ` set ys. a < y)"
  by (force simp: bt_wf_def sorted_wrt_append)

lemma bt_insert_less: "k < a \<Longrightarrow> bt_insert k v (xs @ (a, b) # ys) = bt_insert k v xs @ (a, b) # ys"
  by (induction xs) auto

lemma bt_insert_greater:
  "\<forall>x \<in> fst ` set xs. x < a \<Longrightarrow> a \<le> k \<Longrightarrow>
    bt_insert k v (xs @ (a, b) # ys) = xs @ bt_insert k v ((a, b) # ys)"
  by (induction xs) auto

lemma bt_remove_notin: "k \<notin> fst ` set xs \<Longrightarrow> bt_remove k xs = xs"
  by (induction xs) auto

lemma bt_remove_append:
  "bt_remove k (xs @ ys) = (if k \<in> fst ` set xs then bt_remove k xs @ ys else xs @ bt_remove k ys)"
  by (induction xs) (auto simp: rev_image_eqI)

lemma bt_get_append: "bt_get (xs @ ys) k = (case bt_get xs k of None \<Rightarrow> bt_get ys k | Some v \<Rightarrow> Some v)"
  by (simp add: bt_get_def map_add_def split: option.splits)

lemma bt_get_Cons: "bt_get ((a, b) # ys) k = (if k = a then Some b else bt_get ys k)"
  by (simp add: bt_get_def)

lemma bt_get_notin: "bt_get xs k = None \<longleftrightarrow> k \<notin> fst ` set xs"
  by (simp add: bt_get_def map_of_eq_None_iff)

lemma bt_split:
  assumes "bt_wf (xs @ (a, b) # ys)"
  shows "k < a \<Longrightarrow> bt_get (xs @ (a, b) # ys) k = bt_get xs k"
    "a < k \<Longrightarrow> bt_get (xs @ (a, b) # ys) k = bt_get ys k"
    "bt_get (xs @ (a, b) # ys) a = Some b"
    "k < a \<Longrightarrow> bt_remove k (xs @ (a, b) # ys) = bt_remove k xs @ (a, b) # ys"
    "a < k \<Longrightarrow> bt_remove k (xs @ (a, b) # ys) = xs @ (a, b) # bt_remove k ys"
    "bt_remove a (xs @ (a, b) # ys) = xs @ ys"
proof -
  have lt: "x \<in> fst ` set xs \<Longrightarrow> x < a" and gt: "y \<in> fst ` set ys \<Longrightarrow> a < y" for x y
    using assms by (auto simp: bt_wf_append)
  note notin = bt_get_notin [THEN iffD2]
  show "k < a \<Longrightarrow> bt_get (xs @ (a, b) # ys) k = bt_get xs k"
    using gt [of k] notin [of k "(a, b) # ys"] by (force simp: bt_get_append split: option.splits)
  show "a < k \<Longrightarrow> bt_get (xs @ (a, b) # ys) k = bt_get ys k"
    using lt [of k] notin [of k xs] by (force simp: bt_get_append bt_get_Cons split: option.splits)
  have "bt_get xs a = None" using lt [of a] by (intro notin) force
  then show "bt_get (xs @ (a, b) # ys) a = Some b"
    by (simp add: bt_get_append bt_get_Cons)
  show "k < a \<Longrightarrow> bt_remove k (xs @ (a, b) # ys) = bt_remove k xs @ (a, b) # ys"
    using gt [of k] by (force simp: bt_remove_append bt_remove_notin)
  show "a < k \<Longrightarrow> bt_remove k (xs @ (a, b) # ys) = xs @ (a, b) # bt_remove k ys"
    "bt_remove a (xs @ (a, b) # ys) = xs @ ys"
    using lt [of k] lt [of a] by (force simp: bt_remove_append)+
qed

lemma tree_get_inorder: "bst t \<Longrightarrow> tree_get t k = bt_get (inorder t) k"
proof (induction t)
  case (MapNode a b h n l r)
  then have "bst l" "bst r" by (auto simp: bt_wf_append)
  with MapNode show ?case
    using bt_split [of "inorder l" a b "inorder r"] by (cases k a rule: linorder_cases) simp_all
qed (simp add: bt_get_def)

subsection \<open>Insertion\<close>

lemma map_insert_ok:
  assumes "aug t"
  shows "\<exists>t' replaced. map_insert t k v = Inr (t', replaced) \<and> aug t' \<and> t' \<noteq> NoNode
    \<and> (bst t \<longrightarrow> inorder t' = bt_insert k v (inorder t) \<and> replaced = bt_get (inorder t) k)
    \<and> (avl t \<longrightarrow> avl t' \<and> map_height t \<le> map_height t' \<and> map_height t' \<le> map_height t + 1)"
  using assms
proof (induction t)
  case (MapNode a b h n l r)
  consider "k < a" | "a < k" | "k = a" by fastforce
  then show ?case
  proof cases
    case 1
    obtain l' rep where l': "map_insert l k v = Inr (l', rep)" "aug l'"
      "bst l \<Longrightarrow> inorder l' = bt_insert k v (inorder l) \<and> rep = bt_get (inorder l) k"
      "avl l \<Longrightarrow> avl l' \<and> map_height l \<le> map_height l' \<and> map_height l' \<le> map_height l + 1"
      using MapNode by auto
    obtain t' where t': "map_balance (mk_node a b l' r) = Inr t'" and b: "balanced_from t' a b l' r"
      using map_balance_ok l'(2) MapNode.prems by (metis aug.simps(2))
    have "inorder t' = bt_insert k v (inorder l @ (a, b) # inorder r)
        \<and> rep = bt_get (inorder l @ (a, b) # inorder r) k" if "bt_wf (inorder l @ (a, b) # inorder r)"
      using that 1 l'(3) by (simp add: balanced_fromD(1) [OF b] bt_split bt_insert_less)
        (simp add: bt_wf_append)
    moreover have "avl t' \<and> h \<le> map_height t' \<and> map_height t' \<le> h + 1" if "avl (MapNode a b h n l r)"
      using that l'(4) MapNode.prems balanced_grow [OF b, of l r] by simp
    ultimately show ?thesis
      using 1 l'(1) t' balanced_fromD(1,2) [OF b] by fastforce
  next
    case 2
    obtain r' rep where r': "map_insert r k v = Inr (r', rep)" "aug r'"
      "bst r \<Longrightarrow> inorder r' = bt_insert k v (inorder r) \<and> rep = bt_get (inorder r) k"
      "avl r \<Longrightarrow> avl r' \<and> map_height r \<le> map_height r' \<and> map_height r' \<le> map_height r + 1"
      using MapNode by auto
    obtain t' where t': "map_balance (mk_node a b l r') = Inr t'" and b: "balanced_from t' a b l r'"
      using map_balance_ok r'(2) MapNode.prems by (metis aug.simps(2))
    have "inorder t' = bt_insert k v (inorder l @ (a, b) # inorder r)
        \<and> rep = bt_get (inorder l @ (a, b) # inorder r) k" if "bt_wf (inorder l @ (a, b) # inorder r)"
      using that 2 r'(3) by (simp add: balanced_fromD(1) [OF b] bt_split)
        (auto simp: bt_wf_append bt_insert_greater)
    moreover have "avl t' \<and> h \<le> map_height t' \<and> map_height t' \<le> h + 1" if "avl (MapNode a b h n l r)"
      using that r'(4) MapNode.prems balanced_grow [OF b, of l r] by simp
    ultimately show ?thesis
      using 2 r'(1) t' balanced_fromD(1,2) [OF b] by fastforce
  next
    case 3
    have "bt_insert k v (inorder l @ (a, b) # inorder r) = inorder l @ (a, v) # inorder r"
      if "bt_wf (inorder l @ (a, b) # inorder r)"
      using that 3 by (simp add: bt_wf_append bt_insert_greater)
    then show ?thesis
      using 3 MapNode.prems by (simp add: bt_split le_SucI)
  qed
qed (simp add: bt_get_def)


subsection \<open>Removal and joining\<close>

lemma map_take_min_ok:
  assumes "aug t" "t \<noteq> NoNode"
  shows "\<exists>k v t'. map_take_min t = Inr (k, v, t') \<and> aug t' \<and> inorder t = (k, v) # inorder t'
    \<and> map_height t' \<le> map_height t
    \<and> (avl t \<longrightarrow> avl t' \<and> map_height t \<le> map_height t' + 1)"
  using assms
proof (induction t rule: map_take_min.induct)
  case (3 a b h n lk lv lh ln ll lr r)
  let ?l = "MapNode lk lv lh ln ll lr"
  obtain k v l' where l': "map_take_min ?l = Inr (k, v, l')" "aug l'" "inorder ?l = (k, v) # inorder l'"
    "map_height l' \<le> map_height ?l"
    "avl ?l \<Longrightarrow> avl l' \<and> map_height ?l \<le> map_height l' + 1"
    using 3 by auto
  obtain t' where t': "map_balance (mk_node a b l' r) = Inr t'" and b: "balanced_from t' a b l' r"
    using map_balance_ok l'(2) 3(2) by (metis aug.simps(2))
  have "map_height t' \<le> h"
    using balanced_fromD(3) [OF b] l'(4) 3(2) by auto
  moreover have "avl t' \<and> h \<le> map_height t' + 1" if "avl (MapNode a b h n ?l r)"
    using that l'(4,5) 3(2) balanced_shrink [OF b, of ?l r] by simp
  ultimately show ?case
    using l'(1,3) t' balanced_fromD(1,2) [OF b] by auto
qed auto

text \<open>The least entry of the right tree becomes the root over both trees.\<close>

lemma replace_min_ok:
  assumes "aug l" "aug r" "r \<noteq> NoNode"
  shows "\<exists>sk sv r' t. map_take_min r = Inr (sk, sv, r') \<and> map_balance (mk_node sk sv l r') = Inr t
    \<and> aug t \<and> inorder t = inorder l @ inorder r \<and> map_height t \<le> 1 + max (map_height l) (map_height r)
    \<and> (avl l \<and> avl r \<and> map_height l \<le> map_height r + 1 \<and> map_height r \<le> map_height l + 1
        \<longrightarrow> avl t \<and> max (map_height l) (map_height r) \<le> map_height t)"
proof -
  obtain sk sv r' where r': "map_take_min r = Inr (sk, sv, r')" "aug r'"
    "inorder r = (sk, sv) # inorder r'" "map_height r' \<le> map_height r"
    "avl r \<Longrightarrow> avl r' \<and> map_height r \<le> map_height r' + 1"
    using map_take_min_ok [OF assms(2,3)] by blast
  obtain t where t: "map_balance (mk_node sk sv l r') = Inr t" and b: "balanced_from t sk sv l r'"
    using map_balance_ok r'(2) assms(1) by metis
  have "map_height t \<le> 1 + max (map_height l) (map_height r)"
    using balanced_fromD(3) [OF b] r'(4) by linarith
  moreover have "avl t \<and> max (map_height l) (map_height r) \<le> map_height t"
    if "avl l" "avl r" "map_height l \<le> map_height r + 1" "map_height r \<le> map_height l + 1"
    using that r'(4,5) balanced_shrink [OF b, of l r] by simp
  ultimately show ?thesis
    using r'(1,3) t balanced_fromD(1,2) [OF b] by auto
qed

lemma map_remove_ok:
  assumes "aug t"
  shows "\<exists>t' removed. map_remove t k = Inr (t', removed) \<and> aug t'
    \<and> (bst t \<longrightarrow> inorder t' = bt_remove k (inorder t) \<and> removed = bt_get (inorder t) k)
    \<and> (avl t \<longrightarrow> avl t' \<and> map_height t' \<le> map_height t \<and> map_height t \<le> map_height t' + 1)
    \<and> (removed = None \<longrightarrow> t' = t)"
  using assms
proof (induction t)
  case (MapNode a b h n l r)
  note aug = MapNode.prems [simplified]
  consider "k < a" | "a < k" | "k = a" by fastforce
  then show ?case
  proof cases
    case 1
    obtain l' rem where l': "map_remove l k = Inr (l', rem)" "aug l'"
      "bst l \<Longrightarrow> inorder l' = bt_remove k (inorder l) \<and> rem = bt_get (inorder l) k"
      "avl l \<Longrightarrow> avl l' \<and> map_height l' \<le> map_height l \<and> map_height l \<le> map_height l' + 1"
      "rem = None \<Longrightarrow> l' = l"
      using MapNode by auto
    obtain t' where t': "map_balance (mk_node a b l' r) = Inr t'" and b: "balanced_from t' a b l' r"
      using map_balance_ok l'(2) aug by metis
    have io: "bt_remove k (inorder l) @ (a, b) # inorder r = bt_remove k (inorder l @ (a, b) # inorder r)
        \<and> inorder l' = bt_remove k (inorder l) \<and> rem = bt_get (inorder l @ (a, b) # inorder r) k"
      if "bt_wf (inorder l @ (a, b) # inorder r)"
      using that 1 l'(3) by (simp add: bt_split) (simp add: bt_wf_append)
    have avl: "avl t' \<and> map_height t' \<le> h \<and> h \<le> map_height t' + 1" if "avl (MapNode a b h n l r)"
      using that l'(4) aug balanced_shrink [OF b, of l r] by simp
    show ?thesis
    proof (cases "rem = None")
      case True
      then show ?thesis using 1 l' io aug by force
    next
      case False
      then show ?thesis using 1 l'(1) t' balanced_fromD(1,2) [OF b] io avl by auto
    qed
  next
    case 2
    obtain r' rem where r': "map_remove r k = Inr (r', rem)" "aug r'"
      "bst r \<Longrightarrow> inorder r' = bt_remove k (inorder r) \<and> rem = bt_get (inorder r) k"
      "avl r \<Longrightarrow> avl r' \<and> map_height r' \<le> map_height r \<and> map_height r \<le> map_height r' + 1"
      "rem = None \<Longrightarrow> r' = r"
      using MapNode by auto
    obtain t' where t': "map_balance (mk_node a b l r') = Inr t'" and b: "balanced_from t' a b l r'"
      using map_balance_ok r'(2) aug by metis
    have io: "inorder l @ (a, b) # bt_remove k (inorder r) = bt_remove k (inorder l @ (a, b) # inorder r)
        \<and> inorder r' = bt_remove k (inorder r) \<and> rem = bt_get (inorder l @ (a, b) # inorder r) k"
      if "bt_wf (inorder l @ (a, b) # inorder r)"
      using that 2 r'(3) by (simp add: bt_split) (simp add: bt_wf_append)
    have avl: "avl t' \<and> map_height t' \<le> h \<and> h \<le> map_height t' + 1" if "avl (MapNode a b h n l r)"
      using that r'(4) aug balanced_shrink [OF b, of l r] by simp
    show ?thesis
    proof (cases "rem = None")
      case True
      then show ?thesis using 2 r' io aug by force
    next
      case False
      then show ?thesis using 2 r'(1) t' balanced_fromD(1,2) [OF b] io avl by auto
    qed
  next
    case 3
    have io: "bt_remove k (inorder l @ (a, b) # inorder r) = inorder l @ inorder r
        \<and> bt_get (inorder l @ (a, b) # inorder r) k = Some b" if "bt_wf (inorder l @ (a, b) # inorder r)"
      using that 3 by (simp add: bt_split)
    show ?thesis
    proof (cases "l = NoNode \<or> r = NoNode")
      case True
      then show ?thesis using 3 aug io by auto
    next
      case False
      then obtain sk sv r' t where "map_take_min r = Inr (sk, sv, r')"
        "map_balance (mk_node sk sv l r') = Inr t" "aug t" "inorder t = inorder l @ inorder r"
        "map_height t \<le> h" "avl (MapNode a b h n l r) \<Longrightarrow> avl t \<and> h \<le> map_height t + 1"
        using replace_min_ok [of l r] aug by auto
      then show ?thesis using 3 False io by auto
    qed
  qed
qed (simp add: bt_get_def)

lemma map_join_ok:
  assumes "aug l" "aug r"
  shows "\<exists>t. map_join l r = Inr t \<and> aug t \<and> inorder t = inorder l @ inorder r
    \<and> map_height t \<le> 1 + max (map_height l) (map_height r)
    \<and> (avl l \<and> avl r \<longrightarrow> avl t \<and> max (map_height l) (map_height r) \<le> map_height t)"
  using assms
proof (induction l r rule: map_join.induct)
  case (3 k v h n l r k' v' h' n' l' r')
  let ?L = "MapNode k v h n l r" and ?R = "MapNode k' v' h' n' l' r'"
  note augs = 3(3,4) [simplified] and augLR = 3(3,4)
  consider "h > h' + 1" | "h' > h + 1" | "h \<le> h' + 1" "h' \<le> h + 1" by linarith
  then show ?case
  proof cases
    case 1
    obtain j where j: "map_join r ?R = Inr j" "aug j" "inorder j = inorder r @ inorder ?R"
      "map_height j \<le> 1 + max (map_height r) h'"
      "avl r \<Longrightarrow> avl ?R \<Longrightarrow> avl j \<and> max (map_height r) h' \<le> map_height j"
      using 3(1) [OF 1] 3(3,4) by auto
    obtain t where t: "map_balance (mk_node k v l j) = Inr t" and b: "balanced_from t k v l j"
      using map_balance_ok augs j(2) by metis
    have "avl t \<and> h \<le> map_height t" if "avl ?L" "avl ?R"
    proof -
      have "h = 1 + max (map_height l) (map_height r)" "map_height l \<le> map_height r + 1"
        using augs \<open>avl ?L\<close> by simp_all
      then have "h' \<le> map_height r" using 1 by linarith
      then show ?thesis using that j(4,5) augs balanced_grow [OF b, of l r] by simp
    qed
    then have "avl ?L \<and> avl ?R \<longrightarrow> avl t \<and> max h h' \<le> map_height t" using 1 by auto
    moreover have "map_height t \<le> 1 + max h h'"
    proof -
      have "h = 1 + max (map_height l) (map_height r)" using augs by simp
      then show ?thesis using 1 j(4) balanced_fromD(3) [OF b] by linarith
    qed
    ultimately show ?thesis
      using 1 j(1,3) t balanced_fromD(1,2) [OF b] by simp
  next
    case 2
    have nle: "\<not> h' + 1 < h" using 2 by simp
    obtain j where j: "map_join ?L l' = Inr j" "aug j" "inorder j = inorder ?L @ inorder l'"
      "map_height j \<le> 1 + max h (map_height l')"
      "avl l' \<Longrightarrow> avl ?L \<Longrightarrow> avl j \<and> max h (map_height l') \<le> map_height j"
      using 3(2) [OF nle 2] 3(3,4) by auto
    obtain t where t: "map_balance (mk_node k' v' j r') = Inr t" and b: "balanced_from t k' v' j r'"
      using map_balance_ok augs j(2) by metis
    have "avl t \<and> h' \<le> map_height t" if "avl ?L" "avl ?R"
    proof -
      have "h' = 1 + max (map_height l') (map_height r')" "map_height r' \<le> map_height l' + 1"
        using augs \<open>avl ?R\<close> by simp_all
      then have "h \<le> map_height l'" using 2 by linarith
      then show ?thesis using that j(4,5) augs balanced_grow [OF b, of l' r'] by simp
    qed
    then have "avl ?L \<and> avl ?R \<longrightarrow> avl t \<and> max h h' \<le> map_height t" using 2 by auto
    moreover have "map_height t \<le> 1 + max h h'"
    proof -
      have "h' = 1 + max (map_height l') (map_height r')" using augs by simp
      then show ?thesis using 2 j(4) balanced_fromD(3) [OF b] by linarith
    qed
    ultimately show ?thesis
      using 2 j(1,3) t balanced_fromD(1,2) [OF b] by simp
  next
    case 3
    obtain sk sv j t where "map_take_min ?R = Inr (sk, sv, j)" "map_balance (mk_node sk sv ?L j) = Inr t"
      "aug t" "inorder t = inorder ?L @ inorder ?R" "map_height t \<le> 1 + max h h'"
      "avl ?L \<and> avl ?R \<Longrightarrow> avl t \<and> max h h' \<le> map_height t"
      using replace_min_ok [OF augLR map_node.distinct(2)] 3 unfolding map_height.simps by blast
    then show ?thesis using 3 by simp
  qed
qed auto


subsection \<open>Bulk retention\<close>

text \<open>
  The list the entries are filtered to when \<open>keep\<close> is called on them in order, with the final state of
  \<open>keep\<close>.
\<close>

fun retain_list :: "('k \<Rightarrow> 'v \<Rightarrow> 's \<Rightarrow> bool \<times> 's) \<Rightarrow> ('k \<times> 'v) list \<Rightarrow> 's \<Rightarrow> ('k \<times> 'v) list \<times> 's" where
  "retain_list keep [] s = ([], s)"
| "retain_list keep ((k, v) # xs) s =
     (case keep k v s of (b, s') \<Rightarrow> case retain_list keep xs s' of (ys, s'') \<Rightarrow> (if b then (k, v) # ys else ys, s''))"

lemma retain_list_append:
  "retain_list keep (xs @ ys) s =
     (case retain_list keep xs s of (xs', s') \<Rightarrow> case retain_list keep ys s' of (ys', s'') \<Rightarrow> (xs' @ ys', s''))"
  by (induction xs arbitrary: s) (auto split: prod.splits)

lemma retain_list_pure: "retain_list (\<lambda>k v s. (p k v, s)) xs s = (filter (\<lambda>(k, v). p k v) xs, s)"
  by (induction xs) auto

lemma length_retain_list: "length (fst (retain_list keep xs s)) \<le> length xs"
proof (induction keep xs s rule: retain_list.induct)
  case (2 keep k v xs s)
  then show ?case by (auto split: prod.splits) (metis fst_conv le_SucI)+
qed simp

lemma retain_list_all: "length (fst (retain_list keep xs s)) = length xs \<Longrightarrow> fst (retain_list keep xs s) = xs"
proof (induction keep xs s rule: retain_list.induct)
  case (2 keep k v xs s)
  obtain b s' where k: "keep k v s = (b, s')" by fastforce
  obtain ys s'' where r: "retain_list keep xs s' = (ys, s'')" by fastforce
  have "length ys \<le> length xs" using length_retain_list [of keep xs s'] r by simp
  with 2(2) have "b" "length ys = length xs" by (auto simp: k r split: if_splits)
  with 2(1) [OF k [symmetric]] show ?case by (simp add: k r)
qed simp

lemma map_retain_ok:
  assumes "aug t" "length (inorder t) \<le> usize_max"
  shows "\<exists>t'. map_retain keep t s = Inr ((t', length (inorder t) - length (fst (retain_list keep (inorder t) s))),
      snd (retain_list keep (inorder t) s))
    \<and> aug t' \<and> inorder t' = fst (retain_list keep (inorder t) s) \<and> map_height t' \<le> map_height t"
  using assms
proof (induction t arbitrary: s)
  case (MapNode k v h n l r)
  note aug = MapNode.prems(1) [simplified]
  obtain b s2 where kp: "keep k v (snd (retain_list keep (inorder l) s)) = (b, s2)" by fastforce
  let ?L = "fst (retain_list keep (inorder l) s)" and ?R = "fst (retain_list keep (inorder r) s2)"
  let ?s3 = "snd (retain_list keep (inorder r) s2)"
  have whole: "retain_list keep (inorder (MapNode k v h n l r)) s
      = (if b then ?L @ (k, v) # ?R else ?L @ ?R, ?s3)"
    using kp by (auto simp: retain_list_append split: prod.splits)
  have len: "length ?L \<le> length (inorder l)" "length ?R \<le> length (inorder r)"
    by (rule length_retain_list)+
  obtain l' where l': "map_retain keep l s = Inr ((l', length (inorder l) - length ?L), snd (retain_list keep (inorder l) s))"
    "aug l'" "inorder l' = ?L" "map_height l' \<le> map_height l"
    using MapNode.IH(1) [of s] MapNode.prems by auto
  obtain r' where r': "map_retain keep r s2 = Inr ((r', length (inorder r) - length ?R), ?s3)"
    "aug r'" "inorder r' = ?R" "map_height r' \<le> map_height r"
    using MapNode.IH(2) [of s2] MapNode.prems by auto
  define d where "d = (length (inorder l) - length ?L) + (length (inorder r) - length ?R)"
  have sat: "saturating_add (length (inorder l) - length ?L) (length (inorder r) - length ?R) = d"
    "saturating_add d 1 = d + 1"
    using MapNode.prems(2) by (simp_all add: saturating_add_def d_def)
  have run: "map_retain keep (MapNode k v h n l r) s =
     (if b then (if d = 0 then Inr ((MapNode k v h n l r, 0), ?s3)
        else res_bind (map_balance (mk_node k v l' r')) (\<lambda>t. Inr ((t, d), ?s3)))
      else res_bind (map_join l' r') (\<lambda>t. Inr ((t, d + 1), ?s3)))"
    using sat by (simp add: l'(1) r'(1) kp)
  obtain t1 where t1: "map_balance (mk_node k v l' r') = Inr t1" and b1: "balanced_from t1 k v l' r'"
    using map_balance_ok l'(2) r'(2) by metis
  obtain t2 where t2: "map_join l' r' = Inr t2" "aug t2" "inorder t2 = ?L @ ?R"
    "map_height t2 \<le> 1 + max (map_height l') (map_height r')"
    using map_join_ok [OF l'(2) r'(2)] l'(3) r'(3) by auto
  have "map_height t1 \<le> h" "map_height t2 \<le> h"
    using balanced_fromD(3) [OF b1] t2(4) l'(4) r'(4) aug by linarith+
  moreover have "d = 0 \<Longrightarrow> ?L = inorder l \<and> ?R = inorder r"
    using len by (auto simp: d_def intro!: retain_list_all)
  ultimately show ?case
    unfolding whole run using len aug l' r' t1 t2 balanced_fromD(1,2) [OF b1] MapNode.prems(1)
    by (auto simp: d_def)
qed simp

end
