(* ===== verification/Persistent_Queries.thy ===== *)
theory Persistent_Queries
  imports Persistent_Balance
begin

text \<open>
  The logarithmic height of a balanced tree, the order queries (rank, key at rank, predecessor,
  successor) against the sorted list of entries, and the bulk construction from a sorted sequence.
\<close>

section \<open>Logarithmic height\<close>

lemma height_bound: "aug t \<Longrightarrow> avl t \<Longrightarrow> 2 ^ (map_height t div 2) \<le> length (inorder t) + 1"
proof (induction t)
  case (MapNode k v h n l r)
  define m where "m = min (map_height l) (map_height r)"
  have IH: "2 ^ (map_height l div 2) \<le> length (inorder l) + 1" "2 ^ (map_height r div 2) \<le> length (inorder r) + 1"
    using MapNode by auto
  have "(2 :: nat) ^ (m div 2) \<le> 2 ^ (map_height l div 2)" "(2 :: nat) ^ (m div 2) \<le> 2 ^ (map_height r div 2)"
    by (intro power_increasing div_le_mono; simp add: m_def)+
  with IH have "2 ^ (m div 2) + 2 ^ (m div 2) \<le> (length (inorder l) + 1) + (length (inorder r) + 1)" by linarith
  then have "2 ^ (m div 2 + 1) \<le> length (inorder (MapNode k v h n l r)) + 1" by simp
  moreover have "h div 2 \<le> m div 2 + 1"
    using MapNode.prems by (auto simp: m_def)
  then have "(2 :: nat) ^ (h div 2) \<le> 2 ^ (m div 2 + 1)" by (intro power_increasing) simp_all
  ultimately show ?case by simp
qed simp

section \<open>Queries\<close>

lemma bst_children: "bst (MapNode k v h n l r) \<Longrightarrow> bst l" "bst (MapNode k v h n l r) \<Longrightarrow> bst r"
  by (simp_all add: bt_wf_append)

text \<open>The entries below and above a key, split at the root.\<close>

definition below :: "'k::linorder \<Rightarrow> ('k \<times> 'v) list \<Rightarrow> ('k \<times> 'v) list" where
  "below key xs = filter (\<lambda>e. fst e < key) xs"

definition above :: "'k::linorder \<Rightarrow> ('k \<times> 'v) list \<Rightarrow> ('k \<times> 'v) list" where
  "above key xs = filter (\<lambda>e. key < fst e) xs"

lemma bst_cut:
  assumes "bst (MapNode a b h n l r)"
  shows "k \<le> a \<Longrightarrow> below k (inorder l @ (a, b) # inorder r) = below k (inorder l)"
    "a < k \<Longrightarrow> below k (inorder l @ (a, b) # inorder r) = inorder l @ (a, b) # below k (inorder r)"
    "k < a \<Longrightarrow> above k (inorder l @ (a, b) # inorder r) = above k (inorder l) @ (a, b) # inorder r"
    "a \<le> k \<Longrightarrow> above k (inorder l @ (a, b) # inorder r) = above k (inorder r)"
    "below a (inorder l) = inorder l"
  using assms by (force simp: below_def above_def bt_wf_append filter_empty_conv filter_id_conv)+

lemma rank_before_loop_ok:
  "bst t \<Longrightarrow> aug t \<Longrightarrow> rank + length (inorder t) \<le> usize_max \<Longrightarrow>
    rank_before_loop t key rank = rank + length (below key (inorder t))"
proof (induction t arbitrary: rank)
  case (MapNode k v h n l r)
  note cut = bst_cut [OF MapNode.prems(1)] and sub = bst_children [OF MapNode.prems(1)]
  show ?case
  proof (cases "k < key")
    case True
    then have "rank_before_loop (MapNode k v h n l r) key rank
        = rank_before_loop r key (rank + length (inorder l) + 1)"
      using MapNode.prems by (simp add: saturating_add_def aug_len)
    then show ?thesis
      using MapNode.IH(2) [of "rank + length (inorder l) + 1"] MapNode.prems sub True by (simp add: cut(2))
  next
    case False
    then have "rank_before_loop (MapNode k v h n l r) key rank = rank_before_loop l key rank"
      by (cases key k rule: linorder_cases) simp_all
    then show ?thesis
      using MapNode.IH(1) [of rank] MapNode.prems sub False by (simp add: cut(1) not_less)
  qed
qed (simp add: below_def)

lemma rank_of_loop_ok:
  "bst t \<Longrightarrow> aug t \<Longrightarrow> rank + length (inorder t) \<le> usize_max \<Longrightarrow>
    rank_of_loop t key rank =
      (if bt_get (inorder t) key = None then None else Some (rank + length (below key (inorder t))))"
proof (induction t arbitrary: rank)
  case (MapNode k v h n l r)
  note cut = bst_cut [OF MapNode.prems(1)] and sub = bst_children [OF MapNode.prems(1)]
    and get = bt_split(1-3) [OF MapNode.prems(1) [unfolded inorder.simps]]
  consider "key < k" | "key = k" | "k < key" by fastforce
  then show ?case
  proof cases
    case 1
    then show ?thesis
      using MapNode.IH(1) [of rank] MapNode.prems sub by (simp add: cut(1) get(1))
  next
    case 2
    then show ?thesis
      using MapNode.prems cut(5) by (simp add: cut(1) get(3) saturating_add_def aug_len)
  next
    case 3
    then have "rank_of_loop (MapNode k v h n l r) key rank
        = rank_of_loop r key (rank + length (inorder l) + 1)"
      using MapNode.prems by (simp add: saturating_add_def aug_len)
    then show ?thesis
      using MapNode.IH(2) [of "rank + length (inorder l) + 1"] MapNode.prems sub 3
      by (simp add: cut(2) get(2))
  qed
qed (simp add: bt_get_def)

lemma key_at_rank_loop_ok:
  "aug t \<Longrightarrow> length (inorder t) \<le> usize_max \<Longrightarrow> key_at_rank_loop t rank = get_vec (map fst (inorder t)) rank"
proof (induction t arbitrary: rank)
  case (MapNode k v h n l r)
  have "saturating_add (length (inorder l)) 1 = length (inorder l) + 1"
    using MapNode.prems by (simp add: saturating_add_def)
  with MapNode show ?case
    by (cases rank "length (inorder l)" rule: linorder_cases)
      (auto simp: aug_len get_vec_def nth_append nth_Cons' Let_def)
qed (simp add: get_vec_def)

lemma predecessor_loop_ok:
  "bst t \<Longrightarrow> predecessor_loop t key candidate =
    (if below key (inorder t) = [] then candidate else Some (last (below key (inorder t))))"
proof (induction t arbitrary: candidate)
  case (MapNode k v h n l r)
  note cut = bst_cut [OF MapNode.prems(1)] and sub = bst_children [OF MapNode.prems(1)]
  show ?case
  proof (cases "k < key")
    case True
    then show ?thesis
      using MapNode.IH(2) [of "Some (k, v)"] sub by (simp add: cut(2))
  next
    case False
    then have "predecessor_loop (MapNode k v h n l r) key candidate = predecessor_loop l key candidate"
      by (cases key k rule: linorder_cases) simp_all
    then show ?thesis
      using MapNode.IH(1) [of candidate] sub False by (simp add: cut(1) not_less)
  qed
qed (simp add: below_def)

lemma successor_loop_ok:
  "bst t \<Longrightarrow> successor_loop t key candidate =
    (if above key (inorder t) = [] then candidate else Some (hd (above key (inorder t))))"
proof (induction t arbitrary: candidate)
  case (MapNode k v h n l r)
  note cut = bst_cut [OF MapNode.prems(1)] and sub = bst_children [OF MapNode.prems(1)]
  show ?case
  proof (cases "key < k")
    case True
    then show ?thesis
      using MapNode.IH(1) [of "Some (k, v)"] sub by (simp add: cut(3))
  next
    case False
    then have "successor_loop (MapNode k v h n l r) key candidate = successor_loop r key candidate"
      by (cases key k rule: linorder_cases) simp_all
    then show ?thesis
      using MapNode.IH(2) [of candidate] sub False by (simp add: cut(4) not_less)
  qed
qed (simp add: above_def)

lemma tree_get_key_value_ok:
  "bst t \<Longrightarrow> tree_get_key_value t k = map_option (Pair k) (tree_get t k)"
proof (induction t)
  case (MapNode a b h n l r)
  then show ?case using bst_children [OF MapNode.prems] by (cases k a rule: linorder_cases) simp_all
qed simp

lemma map_get_mut_ok:
  "bst t \<Longrightarrow> (case map_get_mut t k f of
      None \<Rightarrow> bt_get (inorder t) k = None
    | Some t' \<Rightarrow> (\<exists>v. bt_get (inorder t) k = Some v \<and> inorder t' = bt_insert k (f v) (inorder t)))"
proof (induction t)
  case (MapNode a b h n l r)
  note wf = MapNode.prems [simplified]
  have sub: "bst l" "bst r" and lt: "\<forall>x \<in> fst ` set (inorder l). x < a"
    using wf by (auto simp: bt_wf_append)
  show ?case
    using MapNode.IH sub lt bt_split [OF wf]
    by (cases k a rule: linorder_cases)
      (auto simp: bt_insert_less bt_insert_greater split: option.splits)
qed (simp add: bt_get_def)

lemma map_get_mut_shape:
  "map_get_mut t k f = Some t' \<Longrightarrow> map_height t' = map_height t \<and> map_len t' = map_len t \<and> aug t' = aug t \<and> avl t' = avl t"
  by (induction t arbitrary: t') (auto split: ordering.splits)

section \<open>Bulk construction\<close>

fun bit_length :: "nat \<Rightarrow> nat" where
  "bit_length n = (if n = 0 then 0 else 1 + bit_length (n div 2))"

declare bit_length.simps [simp del]

lemma bit_length_mono: "m \<le> n \<Longrightarrow> bit_length m \<le> bit_length n"
proof (induction n arbitrary: m rule: bit_length.induct)
  case (1 n)
  show ?case
  proof (cases "m = 0")
    case False
    then have "bit_length (m div 2) \<le> bit_length (n div 2)"
      using 1 by (intro 1(1)) (auto intro: div_le_mono)
    with False 1(2) show ?thesis by (simp add: bit_length.simps [of m] bit_length.simps [of n])
  qed (simp add: bit_length.simps [of 0])
qed

lemma bit_length_Suc: "bit_length (Suc n) \<le> bit_length n + 1"
proof (induction n rule: bit_length.induct)
  case (1 n)
  show ?case
  proof (cases "n = 0")
    case False
    have "Suc n div 2 \<le> Suc (n div 2)" by linarith
    then have "bit_length (Suc n div 2) \<le> bit_length (Suc (n div 2))" by (rule bit_length_mono)
    also have "\<dots> \<le> bit_length (n div 2) + 1" using 1 False by blast
    finally show ?thesis
      using False by (simp add: bit_length.simps [of n] bit_length.simps [of "Suc n"])
  qed (simp add: bit_length.simps)
qed

lemma build_ok:
  "n \<le> length xs \<Longrightarrow> \<exists>t. build xs n = Inr (t, drop n xs) \<and> inorder t = take n xs \<and> aug t \<and> avl t
     \<and> map_height t = bit_length n"
proof (induction n arbitrary: xs rule: less_induct)
  case (less n)
  show ?case
  proof (cases "n = 0")
    case True
    then show ?thesis by (simp add: build.simps bit_length.simps)
  next
    case False
    define a where "a = n div 2"
    define b where "b = n - a - 1"
    have ab: "a < n" "b < n" "a + 1 + b = n" "b \<le> a" "a \<le> Suc b"
      using False by (auto simp: a_def b_def)
    have bl: "bit_length b \<le> bit_length a" "bit_length a \<le> bit_length b + 1"
      using bit_length_mono [OF ab(4)] bit_length_mono [OF ab(5)] bit_length_Suc [of b] by linarith+
    obtain l where l: "build xs a = Inr (l, drop a xs)" "inorder l = take a xs" "aug l" "avl l"
      "map_height l = bit_length a"
      using less.IH [OF ab(1), of xs] less.prems ab by auto
    obtain k v rest where d: "drop a xs = (k, v) # rest"
      using less.prems ab by (cases "drop a xs") auto
    then have rest: "rest = drop (a + 1) xs"
      by (metis One_nat_def add.commute drop_0 drop_Suc_Cons drop_drop plus_1_eq_Suc)
    have "b \<le> length rest" using less.prems ab(3) unfolding rest by simp
    then obtain r where r: "build rest b = Inr (r, drop b rest)" "inorder r = take b rest" "aug r" "avl r"
      "map_height r = bit_length b"
      using less.IH [OF ab(2)] by blast
    have "build xs n = Inr (mk_node k v l r, drop b rest)"
      using False l(1) r(1) d by (subst build.simps) (simp add: a_def [symmetric] b_def Let_def)
    moreover have "drop b rest = drop n xs" using ab(3) by (simp add: rest add.commute)
    moreover have "take n xs = take a xs @ (k, v) # take b rest"
      using d ab(3) by (metis add.assoc plus_1_eq_Suc take_Suc_Cons take_add)
    moreover have "bit_length n = 1 + bit_length a"
      using False by (simp add: bit_length.simps [of n] a_def)
    ultimately show ?thesis
      using l r bl by auto
  qed
qed

end
