(* ===== verification/Persistent_Map.thy ===== *)
theory Persistent_Map
  imports Persistent_Queries
begin

text \<open>
  \<open>PersistentOrdMap\<close>, its double-ended iterator and \<open>PersistentOrdSet\<close>
  (\<open>kernel-persistent/src/ordered.rs\<close>). The map is the AVL tree of \<open>Persistent_Tree\<close> with its length;
  it is an instance of the contract \<open>ordered_map\<close> and the set an instance of \<open>set_impl\<close>. A clone of a
  map is the same value, so every operation leaves earlier snapshots as they were.
\<close>

section \<open>The map\<close>

record ('k, 'v) persistent_ord_map =
  map_root :: "('k, 'v) map_node"
  map_size :: nat

definition om_default :: "('k, 'v) persistent_ord_map" where
  "om_default = \<lparr>map_root = NoNode, map_size = 0\<rparr>"

fun windows_ok :: "('k::linorder \<times> 'v) list \<Rightarrow> bool" where
  "windows_ok (a # b # xs) = (\<not> fst a \<ge> fst b \<and> windows_ok (b # xs))"
| "windows_ok _ = True"

definition from_sorted_unique ::
    "('k::linorder \<times> 'v) list \<Rightarrow> (panic, ('k, 'v) persistent_ord_map option) result" where
  "from_sorted_unique entries =
     (if \<not> windows_ok entries then Inr None
      else res_bind (build entries (length entries))
        (\<lambda>(root, _). Inr (Some \<lparr>map_root = root, map_size = length entries\<rparr>)))"

definition om_insert :: "('k::linorder, 'v) persistent_ord_map \<Rightarrow> 'k \<Rightarrow> 'v
    \<Rightarrow> (panic, ('k, 'v) persistent_ord_map \<times> 'v option) result" where
  "om_insert m key val =
     res_bind (map_insert (map_root m) key val) (\<lambda>(root, replaced).
       Inr (m\<lparr>map_root := root,
              map_size := (if replaced = None then saturating_add (map_size m) 1 else map_size m)\<rparr>,
            replaced))"

definition om_remove :: "('k::linorder, 'v) persistent_ord_map \<Rightarrow> 'k
    \<Rightarrow> (panic, ('k, 'v) persistent_ord_map \<times> 'v option) result" where
  "om_remove m key =
     res_bind (map_remove (map_root m) key) (\<lambda>(root, removed).
       if removed \<noteq> None then Inr (m\<lparr>map_root := root, map_size := map_size m - 1\<rparr>, removed)
       else Inr (m, removed))"

definition om_retain :: "('k \<Rightarrow> 'v \<Rightarrow> 's \<Rightarrow> bool \<times> 's) \<Rightarrow> ('k, 'v) persistent_ord_map \<Rightarrow> 's
    \<Rightarrow> (panic, ('k, 'v) persistent_ord_map \<times> 's) result" where
  "om_retain keep m s =
     res_bind (map_retain keep (map_root m) s) (\<lambda>((root, removed), s').
       if removed = 0 then Inr (m, s')
       else Inr (m\<lparr>map_root := root, map_size := map_size m - removed\<rparr>, s'))"

definition om_get :: "('k::linorder, 'v) persistent_ord_map \<Rightarrow> 'k \<Rightarrow> 'v option" where
  "om_get m key = tree_get (map_root m) key"

definition om_get_key_value :: "('k::linorder, 'v) persistent_ord_map \<Rightarrow> 'k \<Rightarrow> ('k \<times> 'v) option" where
  "om_get_key_value m key = tree_get_key_value (map_root m) key"

definition om_get_mut :: "('k::linorder, 'v) persistent_ord_map \<Rightarrow> 'k \<Rightarrow> ('v \<Rightarrow> 'v)
    \<Rightarrow> ('k, 'v) persistent_ord_map option" where
  "om_get_mut m key f = map_option (\<lambda>root. m\<lparr>map_root := root\<rparr>) (map_get_mut (map_root m) key f)"

definition contains_key :: "('k::linorder, 'v) persistent_ord_map \<Rightarrow> 'k \<Rightarrow> bool" where
  "contains_key m key = (om_get m key \<noteq> None)"

definition rank_of :: "('k::linorder, 'v) persistent_ord_map \<Rightarrow> 'k \<Rightarrow> nat option" where
  "rank_of m key = rank_of_loop (map_root m) key 0"

definition rank_before :: "('k::linorder, 'v) persistent_ord_map \<Rightarrow> 'k \<Rightarrow> nat" where
  "rank_before m key = rank_before_loop (map_root m) key 0"

definition key_at_rank :: "('k, 'v) persistent_ord_map \<Rightarrow> nat \<Rightarrow> 'k option" where
  "key_at_rank m rank = key_at_rank_loop (map_root m) rank"

definition predecessor :: "('k::linorder, 'v) persistent_ord_map \<Rightarrow> 'k \<Rightarrow> ('k \<times> 'v) option" where
  "predecessor m key = predecessor_loop (map_root m) key None"

definition successor :: "('k::linorder, 'v) persistent_ord_map \<Rightarrow> 'k \<Rightarrow> ('k \<times> 'v) option" where
  "successor m key = successor_loop (map_root m) key None"

definition om_is_empty :: "('k, 'v) persistent_ord_map \<Rightarrow> bool" where
  "om_is_empty m = (map_size m = 0)"

section \<open>The double-ended iterator\<close>

text \<open>The stacks \<open>front\<close> and \<open>back\<close> grow at the head of the list.\<close>

record ('k, 'v) persistent_ord_map_iter =
  front_stack :: "('k, 'v) map_node list"
  back_stack :: "('k, 'v) map_node list"
  remaining :: nat

fun push_left :: "('k, 'v) map_node \<Rightarrow> ('k, 'v) map_node list \<Rightarrow> ('k, 'v) map_node list" where
  "push_left NoNode stack = stack"
| "push_left (MapNode k v h n l r) stack = push_left l (MapNode k v h n l r # stack)"

fun push_right :: "('k, 'v) map_node \<Rightarrow> ('k, 'v) map_node list \<Rightarrow> ('k, 'v) map_node list" where
  "push_right NoNode stack = stack"
| "push_right (MapNode k v h n l r) stack = push_right r (MapNode k v h n l r # stack)"

definition iter_new :: "('k, 'v) map_node \<Rightarrow> nat \<Rightarrow> ('k, 'v) persistent_ord_map_iter" where
  "iter_new root n = \<lparr>front_stack = push_left root [], back_stack = push_right root [], remaining = n\<rparr>"

definition iter_next :: "('k, 'v) persistent_ord_map_iter
    \<Rightarrow> ('k \<times> 'v) option \<times> ('k, 'v) persistent_ord_map_iter" where
  "iter_next it =
     (if remaining it = 0 then (None, it)
      else case front_stack it of
        [] \<Rightarrow> (None, it)
      | node # stack \<Rightarrow>
          (Some (node_key node, node_value node),
           it\<lparr>front_stack := push_left (node_right node) stack, remaining := remaining it - 1\<rparr>))"

definition iter_next_back :: "('k, 'v) persistent_ord_map_iter
    \<Rightarrow> ('k \<times> 'v) option \<times> ('k, 'v) persistent_ord_map_iter" where
  "iter_next_back it =
     (if remaining it = 0 then (None, it)
      else case back_stack it of
        [] \<Rightarrow> (None, it)
      | node # stack \<Rightarrow>
          (Some (node_key node, node_value node),
           it\<lparr>back_stack := push_right (node_left node) stack, remaining := remaining it - 1\<rparr>))"

definition om_iter :: "('k, 'v) persistent_ord_map \<Rightarrow> ('k, 'v) persistent_ord_map_iter" where
  "om_iter m = iter_new (map_root m) (map_size m)"

text \<open>Running an iterator to its end.\<close>

function iter_collect :: "('k, 'v) persistent_ord_map_iter \<Rightarrow> ('k \<times> 'v) list" where
  "iter_collect it =
     (case iter_next it of (None, _) \<Rightarrow> [] | (Some e, it') \<Rightarrow> e # iter_collect it')"
  by pat_completeness auto
termination
  by (relation "measure remaining") (auto simp: iter_next_def split: if_splits list.splits)

declare iter_collect.simps [simp del]

definition om_eq :: "('k, 'v) persistent_ord_map \<Rightarrow> ('k, 'v) persistent_ord_map \<Rightarrow> bool" where
  "om_eq m n = (map_size m = map_size n \<and> iter_collect (om_iter m) = iter_collect (om_iter n))"

definition om_from_iter :: "('k::linorder \<times> 'v) list \<Rightarrow> (panic, ('k, 'v) persistent_ord_map) result" where
  "om_from_iter xs =
     for_fold (\<lambda>(key, val) m. res_bind (om_insert m key val) (\<lambda>(m', _). Inr m')) xs om_default"

section \<open>The set\<close>

record 't persistent_ord_set =
  set_entries :: "('t, unit) persistent_ord_map"

definition os_default :: "'t persistent_ord_set" where
  "os_default = \<lparr>set_entries = om_default\<rparr>"

definition os_insert :: "'t::linorder persistent_ord_set \<Rightarrow> 't
    \<Rightarrow> (panic, 't persistent_ord_set \<times> bool) result" where
  "os_insert s val =
     res_bind (om_insert (set_entries s) val ()) (\<lambda>(m, replaced). Inr (s\<lparr>set_entries := m\<rparr>, replaced = None))"

definition os_remove :: "'t::linorder persistent_ord_set \<Rightarrow> 't
    \<Rightarrow> (panic, 't persistent_ord_set \<times> bool) result" where
  "os_remove s val =
     res_bind (om_remove (set_entries s) val) (\<lambda>(m, removed). Inr (s\<lparr>set_entries := m\<rparr>, removed \<noteq> None))"

definition os_retain :: "('t \<Rightarrow> 's \<Rightarrow> bool \<times> 's) \<Rightarrow> 't persistent_ord_set \<Rightarrow> 's
    \<Rightarrow> (panic, 't persistent_ord_set \<times> 's) result" where
  "os_retain keep s st =
     res_bind (om_retain (\<lambda>val _. keep val) (set_entries s) st) (\<lambda>(m, st'). Inr (s\<lparr>set_entries := m\<rparr>, st'))"

definition os_contains :: "'t::linorder persistent_ord_set \<Rightarrow> 't \<Rightarrow> bool" where
  "os_contains s val = contains_key (set_entries s) val"

definition os_len :: "'t persistent_ord_set \<Rightarrow> nat" where
  "os_len s = map_size (set_entries s)"

definition os_iter :: "'t persistent_ord_set \<Rightarrow> 't list" where
  "os_iter s = map fst (iter_collect (om_iter (set_entries s)))"

definition os_extend :: "'t::linorder persistent_ord_set \<Rightarrow> 't list
    \<Rightarrow> (panic, 't persistent_ord_set) result" where
  "os_extend s xs = for_fold (\<lambda>val s. res_bind (os_insert s val) (\<lambda>(s', _). Inr s')) xs s"

definition os_from_iter :: "'t::linorder list \<Rightarrow> (panic, 't persistent_ord_set) result" where
  "os_from_iter xs = os_extend os_default xs"

end
