(* ===== verification/Persistent_Map_Correct.thy ===== *)
theory Persistent_Map_Correct
  imports Persistent_Map
begin

text \<open>
  What the persistent map and set promise: the map refines \<open>BTreeMap\<close> over every history and is an
  interpretation of \<open>ordered_map\<close>, its iterator is a deque over the sorted entries, the bulk operations
  agree with the list operations, and the set is an interpretation of \<open>set_impl\<close>.
\<close>

section \<open>Refinement of the ordered map contract\<close>

definition om_entries :: "('k, 'v) persistent_ord_map \<Rightarrow> ('k \<times> 'v) list" where
  "om_entries m = inorder (map_root m)"

definition om_wf :: "('k::linorder, 'v) persistent_ord_map \<Rightarrow> bool" where
  "om_wf m \<longleftrightarrow> bst (map_root m) \<and> aug (map_root m)"

definition om_len_ok :: "('k, 'v) persistent_ord_map \<Rightarrow> bool" where
  "om_len_ok m \<longleftrightarrow> map_size m = length (om_entries m)"

definition om_avl :: "('k, 'v) persistent_ord_map \<Rightarrow> bool" where
  "om_avl m = avl (map_root m)"

lemma om_wfD: "om_wf m \<Longrightarrow> bt_wf (om_entries m)" "om_wf m \<Longrightarrow> aug (map_root m)"
  by (simp_all add: om_wf_def om_entries_def)

lemma om_get_entries: "om_wf m \<Longrightarrow> om_get m k = bt_get (om_entries m) k"
  by (simp add: om_get_def om_wf_def om_entries_def tree_get_inorder)

lemma om_default_simps [simp]:
  "om_entries om_default = []" "om_wf om_default" "om_len_ok om_default" "om_avl om_default"
  by (simp_all add: om_entries_def om_default_def om_wf_def om_len_ok_def om_avl_def)

lemma length_bt_insert:
  "length (bt_insert k v m) = length m + (if bt_get m k = None then 1 else 0)" if "bt_wf m"
  using btree.length_ins [OF that] by simp

lemma length_bt_remove:
  "length (bt_remove k m) = length m - (if bt_get m k = None then 0 else 1)" if "bt_wf m"
  using btree.length_del [OF that] by simp

lemma om_insert_ok:
  assumes "om_wf m"
  obtains m' where "om_insert m k v = Inr (m', om_get m k)" "om_wf m'"
    "om_entries m' = bt_insert k v (om_entries m)" "om_avl m \<Longrightarrow> om_avl m'"
    "om_len_ok m \<Longrightarrow> length (om_entries m) < usize_max \<Longrightarrow> om_len_ok m'"
proof -
  have wf: "bst (map_root m)" "aug (map_root m)" using assms by (simp_all add: om_wf_def)
  obtain t' rep where t': "map_insert (map_root m) k v = Inr (t', rep)" "aug t'"
    "inorder t' = bt_insert k v (inorder (map_root m))" "rep = bt_get (inorder (map_root m)) k"
    "avl (map_root m) \<Longrightarrow> avl t'"
    using map_insert_ok [OF wf(2), of k v] wf(1) by blast
  have rep: "rep = om_get m k" using t'(4) by (simp add: om_get_entries assms om_entries_def)
  show thesis
    using t' wf length_bt_insert [OF wf(1), of k v]
    by (intro that [of "m\<lparr>map_root := t', map_size := (if rep = None then saturating_add (map_size m) 1 else map_size m)\<rparr>"])
      (auto simp: om_insert_def rep om_wf_def om_entries_def bt_wf_insert om_avl_def
        om_len_ok_def saturating_add_def om_get_entries assms)
qed

lemma om_remove_ok:
  assumes "om_wf m"
  obtains m' where "om_remove m k = Inr (m', om_get m k)" "om_wf m'"
    "om_entries m' = bt_remove k (om_entries m)" "om_avl m \<Longrightarrow> om_avl m'"
    "om_len_ok m \<Longrightarrow> om_len_ok m'"
proof -
  have wf: "bst (map_root m)" "aug (map_root m)" using assms by (simp_all add: om_wf_def)
  obtain t' rem where t': "map_remove (map_root m) k = Inr (t', rem)" "aug t'"
    "inorder t' = bt_remove k (inorder (map_root m))" "rem = bt_get (inorder (map_root m)) k"
    "avl (map_root m) \<Longrightarrow> avl t'" "rem = None \<Longrightarrow> t' = map_root m"
    using map_remove_ok [OF wf(2), of k] wf(1) by auto
  have rem: "rem = om_get m k" using t'(4) by (simp add: om_get_entries assms om_entries_def)
  show thesis
  proof (cases "rem = None")
    case True
    then show ?thesis
      using t' assms by (intro that [of m]) (auto simp: om_remove_def rem [symmetric] om_entries_def)
  next
    case False
    then show ?thesis
      using t' wf length_bt_remove [OF wf(1), of k]
      by (intro that [of "m\<lparr>map_root := t', map_size := map_size m - 1\<rparr>"])
        (auto simp: om_remove_def rem om_wf_def om_entries_def bt_wf_remove om_avl_def
        om_len_ok_def om_get_entries assms)
  qed
qed

interpretation pmap: ordered_map om_default
  "\<lambda>k v m. fst (projr (om_insert m k v))" "\<lambda>k m. fst (projr (om_remove m k))" om_get om_entries om_wf
proof unfold_locales
  fix m :: "('k::linorder, 'v) persistent_ord_map" and k k' :: 'k and v :: 'v
  show "om_get om_default k = (None :: 'v option)" by (simp add: om_get_def om_default_def)
  assume wf: "om_wf m"
  obtain m1 where m1: "om_insert m k v = Inr (m1, om_get m k)" "om_wf m1"
    "om_entries m1 = bt_insert k v (om_entries m)" using om_insert_ok [OF wf] by blast
  obtain m2 where m2: "om_remove m k = Inr (m2, om_get m k)" "om_wf m2"
    "om_entries m2 = bt_remove k (om_entries m)" using om_remove_ok [OF wf] by blast
  show "om_wf (fst (projr (om_insert m k v)))" "om_wf (fst (projr (om_remove m k)))"
    by (simp_all add: m1 m2)
  show "om_get (fst (projr (om_insert m k v))) k' = (if k' = k then Some v else om_get m k')"
    by (simp add: m1 om_get_entries wf bt_get_insert)
  show "om_get (fst (projr (om_remove m k))) k' = (if k' = k then None else om_get m k')"
    by (simp add: m2 om_get_entries wf bt_get_remove om_wfD)
  show "sorted_wrt (<) (map fst (om_entries m))"
    using om_wfD(1) [OF wf] by (simp add: bt_wf_def)
  show "map_of (om_entries m) k = om_get m k"
    by (simp add: om_get_entries wf bt_get_def)
qed simp

section \<open>Histories\<close>

datatype ('k, 'v) map_op = InsertKV 'k 'v | RemoveK 'k

definition step_map :: "('k::linorder, 'v) map_op \<Rightarrow> ('k, 'v) persistent_ord_map \<times> 'v option list
    \<Rightarrow> (panic, ('k, 'v) persistent_ord_map \<times> 'v option list) result" where
  "step_map op s = (case s of (m, out) \<Rightarrow>
     res_bind (case op of InsertKV k v \<Rightarrow> om_insert m k v | RemoveK k \<Rightarrow> om_remove m k)
       (\<lambda>(m', old). Inr (m', out @ [old])))"

definition step_btree :: "('k::linorder, 'v) map_op \<Rightarrow> ('k, 'v) btree_map \<times> 'v option list
    \<Rightarrow> ('k, 'v) btree_map \<times> 'v option list" where
  "step_btree op s = (case s of (b, out) \<Rightarrow>
     (case op of
        InsertKV k v \<Rightarrow> (bt_insert k v b, out @ [bt_get b k])
      | RemoveK k \<Rightarrow> (bt_remove k b, out @ [bt_get b k])))"

lemma history_step:
  assumes "om_wf m" "om_avl m" "om_len_ok m" "length (om_entries m) < usize_max"
  obtains m' where "step_map op (m, out) = Inr (m', snd (step_btree op (om_entries m, out)))"
    "om_wf m'" "om_avl m'" "om_len_ok m'" "om_entries m' = fst (step_btree op (om_entries m, out))"
    "length (om_entries m') \<le> length (om_entries m) + 1"
proof (cases op)
  case (InsertKV k v)
  obtain m' where "om_insert m k v = Inr (m', om_get m k)" "om_wf m'"
    "om_entries m' = bt_insert k v (om_entries m)" "om_avl m'" "om_len_ok m'"
    using om_insert_ok [OF assms(1)] assms by blast
  then show ?thesis
    using InsertKV length_bt_insert [OF om_wfD(1) [OF assms(1)], of k v]
    by (intro that [of m']) (simp_all add: step_map_def step_btree_def om_get_entries assms(1))
next
  case (RemoveK k)
  obtain m' where "om_remove m k = Inr (m', om_get m k)" "om_wf m'"
    "om_entries m' = bt_remove k (om_entries m)" "om_avl m'" "om_len_ok m'"
    using om_remove_ok [OF assms(1)] assms by blast
  then show ?thesis
    using RemoveK length_bt_remove [OF om_wfD(1) [OF assms(1)], of k]
    by (intro that [of m']) (simp_all add: step_map_def step_btree_def om_get_entries assms(1))
qed

lemma history_run:
  assumes "om_wf m" "om_avl m" "om_len_ok m" "length (om_entries m) + length ops \<le> usize_max"
  shows "\<exists>m'. for_fold step_map ops (m, out) = Inr (m', snd (fold step_btree ops (om_entries m, out)))
    \<and> om_wf m' \<and> om_avl m' \<and> om_len_ok m' \<and> om_entries m' = fst (fold step_btree ops (om_entries m, out))"
  using assms
proof (induction ops arbitrary: m out)
  case (Cons op ops)
  obtain m1 where m1: "step_map op (m, out) = Inr (m1, snd (step_btree op (om_entries m, out)))"
    "om_wf m1" "om_avl m1" "om_len_ok m1" "om_entries m1 = fst (step_btree op (om_entries m, out))"
    "length (om_entries m1) \<le> length (om_entries m) + 1"
    using history_step [OF Cons.prems(1-3), of op out] Cons.prems(4) by auto
  obtain m' where "for_fold step_map ops (m1, snd (step_btree op (om_entries m, out)))
      = Inr (m', snd (fold step_btree ops (om_entries m1, snd (step_btree op (om_entries m, out)))))"
    "om_wf m'" "om_avl m'" "om_len_ok m'"
    "om_entries m' = fst (fold step_btree ops (om_entries m1, snd (step_btree op (om_entries m, out))))"
    using Cons.IH [OF m1(2-4)] m1(6) Cons.prems(4) by fastforce
  then show ?case by (simp add: m1(1,5))
qed simp

section \<open>The iterator as a deque\<close>

definition front_seq :: "('k, 'v) map_node list \<Rightarrow> ('k \<times> 'v) list" where
  "front_seq st = concat (map (\<lambda>n. (node_key n, node_value n) # inorder (node_right n)) st)"

definition back_seq :: "('k, 'v) map_node list \<Rightarrow> ('k \<times> 'v) list" where
  "back_seq st = concat (map (\<lambda>n. (node_key n, node_value n) # rev (inorder (node_left n))) st)"

lemma front_seq_push_left: "front_seq (push_left t st) = inorder t @ front_seq st"
  by (induction t arbitrary: st) (simp_all add: front_seq_def)

lemma back_seq_push_right: "back_seq (push_right t st) = rev (inorder t) @ back_seq st"
  by (induction t arbitrary: st) (simp_all add: back_seq_def)

text \<open>\<open>i\<close> entries have been taken from the front and \<open>j\<close> from the back.\<close>

definition iter_at :: "('k \<times> 'v) list \<Rightarrow> nat \<Rightarrow> nat \<Rightarrow> ('k, 'v) persistent_ord_map_iter \<Rightarrow> bool" where
  "iter_at xs i j it \<longleftrightarrow> front_seq (front_stack it) = drop i xs \<and> back_seq (back_stack it) = drop j (rev xs)
     \<and> i + j + remaining it = length xs"

lemma iter_at_next:
  assumes "iter_at xs i j it"
  shows "if i + j = length xs then iter_next it = (None, it)
    else \<exists>it'. iter_next it = (Some (xs ! i), it') \<and> iter_at xs (Suc i) j it'"
proof (cases "i + j = length xs")
  case False
  with assms have lt: "i < length xs" and rem: "remaining it \<noteq> 0" by (auto simp: iter_at_def)
  then have seq: "front_seq (front_stack it) = xs ! i # drop (Suc i) xs"
    using assms by (simp add: iter_at_def Cons_nth_drop_Suc)
  then obtain node st where st: "front_stack it = node # st"
    by (cases "front_stack it") (auto simp: front_seq_def)
  then have "(node_key node, node_value node) = xs ! i" "inorder (node_right node) @ front_seq st = drop (Suc i) xs"
    using seq by (simp_all add: front_seq_def)
  then show ?thesis
    using False assms rem st by (auto simp: iter_next_def iter_at_def front_seq_push_left)
qed (use assms in \<open>simp add: iter_at_def iter_next_def\<close>)

lemma iter_at_next_back:
  assumes "iter_at xs i j it"
  shows "if i + j = length xs then iter_next_back it = (None, it)
    else \<exists>it'. iter_next_back it = (Some (xs ! (length xs - 1 - j)), it') \<and> iter_at xs i (Suc j) it'"
proof (cases "i + j = length xs")
  case False
  with assms have lt: "j < length (rev xs)" and rem: "remaining it \<noteq> 0" by (auto simp: iter_at_def)
  have "back_seq (back_stack it) = drop j (rev xs)" using assms by (simp add: iter_at_def)
  also have "\<dots> = rev xs ! j # drop (Suc j) (rev xs)" using lt by (simp only: Cons_nth_drop_Suc)
  finally have seq: "back_seq (back_stack it) = xs ! (length xs - 1 - j) # drop (Suc j) (rev xs)"
    using lt by (simp add: rev_nth)
  then obtain node st where st: "back_stack it = node # st"
    by (cases "back_stack it") (auto simp: back_seq_def)
  then have "(node_key node, node_value node) = xs ! (length xs - 1 - j)"
    "rev (inorder (node_left node)) @ back_seq st = drop (Suc j) (rev xs)"
    using seq by (simp_all add: back_seq_def)
  then show ?thesis
    using False assms rem st by (auto simp: iter_next_back_def iter_at_def back_seq_push_right)
qed (use assms in \<open>simp add: iter_at_def iter_next_back_def\<close>)

lemma iter_at_start: "om_len_ok m \<Longrightarrow> iter_at (om_entries m) 0 0 (om_iter m)"
  by (simp add: iter_at_def om_iter_def iter_new_def front_seq_push_left back_seq_push_right om_len_ok_def
      om_entries_def) (simp add: front_seq_def back_seq_def)

text \<open>A sequence of calls of \<open>next\<close> (\<open>True\<close>) and \<open>next_back\<close> (\<open>False\<close>).\<close>

fun iter_run :: "bool list \<Rightarrow> ('k, 'v) persistent_ord_map_iter \<Rightarrow> ('k \<times> 'v) option list" where
  "iter_run [] it = []"
| "iter_run (b # bs) it =
     (case (if b then iter_next it else iter_next_back it) of (e, it') \<Rightarrow> e # iter_run bs it')"

fun deque_run :: "bool list \<Rightarrow> 'a list \<Rightarrow> 'a option list" where
  "deque_run [] xs = []"
| "deque_run (b # bs) xs =
     (if xs = [] then None # deque_run bs []
      else if b then Some (hd xs) # deque_run bs (tl xs)
      else Some (last xs) # deque_run bs (butlast xs))"

lemma iter_run_deque:
  "iter_at xs i j it \<Longrightarrow> iter_run bs it = deque_run bs (drop i (take (length xs - j) xs))"
proof (induction bs arbitrary: i j it)
  case (Cons b bs)
  let ?ys = "drop i (take (length xs - j) xs)"
  have le: "i + j \<le> length xs" using Cons.prems by (simp add: iter_at_def)
  show ?case
  proof (cases "i + j = length xs")
    case True
    then have "?ys = []" by simp
    with True show ?thesis
      using iter_at_next [OF Cons.prems] iter_at_next_back [OF Cons.prems] Cons.IH [OF Cons.prems]
      by simp
  next
    case False
    then have ne: "?ys \<noteq> []" using le by simp
    have hd: "hd ?ys = xs ! i" "tl ?ys = drop (Suc i) (take (length xs - j) xs)"
      using False le by (simp_all add: hd_drop_conv_nth tl_drop drop_Suc)
    have lst: "last ?ys = xs ! (length xs - 1 - j)" "butlast ?ys = drop i (take (length xs - Suc j) xs)"
      using False le ne by (simp_all add: last_conv_nth butlast_drop butlast_take)
    obtain f g where f: "iter_next it = (Some (xs ! i), f)" "iter_at xs (Suc i) j f"
      and g: "iter_next_back it = (Some (xs ! (length xs - 1 - j)), g)" "iter_at xs i (Suc j) g"
      using False iter_at_next [OF Cons.prems] iter_at_next_back [OF Cons.prems] by auto
    show ?thesis
      using ne hd lst Cons.IH [OF f(2)] Cons.IH [OF g(2)] by (simp add: f(1) g(1))
  qed
qed simp

lemma iter_collect_drop: "iter_at xs i j it \<Longrightarrow> iter_collect it = drop i (take (length xs - j) xs)"
proof (induction it arbitrary: i rule: iter_collect.induct)
  case (1 it)
  have le: "i + j \<le> length xs" using 1(2) by (simp add: iter_at_def)
  show ?case
  proof (cases "i + j = length xs")
    case True
    then show ?thesis using iter_at_next [OF 1(2)] by (simp add: iter_collect.simps [of it])
  next
    case False
    then obtain f where f: "iter_next it = (Some (xs ! i), f)" "iter_at xs (Suc i) j f"
      using iter_at_next [OF 1(2)] by auto
    have "iter_collect f = drop (Suc i) (take (length xs - j) xs)"
      using 1(1) [OF f(1) [symmetric] _ f(2)] by simp
    moreover have "drop i (take (length xs - j) xs) = xs ! i # drop (Suc i) (take (length xs - j) xs)"
      using False le by (simp add: Cons_nth_drop_Suc [symmetric])
    ultimately show ?thesis by (simp add: iter_collect.simps [of it] f(1))
  qed
qed

lemma iter_collect_entries: "om_len_ok m \<Longrightarrow> iter_collect (om_iter m) = om_entries m"
  using iter_collect_drop [OF iter_at_start] by simp

lemma om_eq_iff: "om_len_ok m \<Longrightarrow> om_len_ok n \<Longrightarrow> om_eq m n \<longleftrightarrow> om_entries m = om_entries n"
  by (auto simp: om_eq_def iter_collect_entries om_len_ok_def)

section \<open>Bulk operations\<close>

lemma windows_ok_iff: "windows_ok xs \<longleftrightarrow> bt_wf xs"
  by (induction xs rule: windows_ok.induct)
    (auto simp: bt_wf_def not_le dest: order.strict_trans)

lemma from_sorted_unique_spec:
  "if bt_wf xs then \<exists>m. from_sorted_unique xs = Inr (Some m) \<and> om_wf m \<and> om_len_ok m \<and> om_avl m \<and> om_entries m = xs
   else from_sorted_unique xs = Inr None"
proof -
  obtain t where "build xs (length xs) = Inr (t, [])" "inorder t = xs" "aug t" "avl t"
    using build_ok [of "length xs" xs] by auto
  then show ?thesis
    by (simp add: from_sorted_unique_def windows_ok_iff om_wf_def om_len_ok_def om_avl_def om_entries_def)
qed

lemma retain_list_bt_wf:
  "set (fst (retain_list keep xs s)) \<subseteq> set xs \<and> (bt_wf xs \<longrightarrow> bt_wf (fst (retain_list keep xs s)))"
proof (induction xs arbitrary: s)
  case (Cons x xs)
  obtain k v where x: "x = (k, v)" by fastforce
  obtain b s' where k: "keep k v s = (b, s')" by fastforce
  obtain ys s'' where r: "retain_list keep xs s' = (ys, s'')" by fastforce
  have "set ys \<subseteq> set xs" "bt_wf xs \<longrightarrow> bt_wf ys"
    using Cons.IH [of s'] by (simp_all add: r)
  then show ?case by (auto simp: x k r bt_wf_Cons)
qed simp

lemma om_retain_ok:
  assumes "om_wf m" "om_len_ok m" "length (om_entries m) \<le> usize_max"
  shows "\<exists>m'. om_retain keep m s = Inr (m', snd (retain_list keep (om_entries m) s)) \<and> om_wf m' \<and> om_len_ok m'
    \<and> om_entries m' = fst (retain_list keep (om_entries m) s)
    \<and> map_height (map_root m') \<le> map_height (map_root m)"
proof -
  let ?xs = "inorder (map_root m)"
  have wf: "bst (map_root m)" "aug (map_root m)" and len: "length ?xs \<le> usize_max"
    using assms by (simp_all add: om_wf_def om_entries_def)
  obtain t' where t': "map_retain keep (map_root m) s
      = Inr ((t', length ?xs - length (fst (retain_list keep ?xs s))), snd (retain_list keep ?xs s))"
    "aug t'" "inorder t' = fst (retain_list keep ?xs s)" "map_height t' \<le> map_height (map_root m)"
    using map_retain_ok [OF wf(2) len, of keep s] by blast
  have le: "length (fst (retain_list keep ?xs s)) \<le> length ?xs" by (rule length_retain_list)
  show ?thesis
  proof (cases "length ?xs - length (fst (retain_list keep ?xs s)) = 0")
    case True
    then have eq: "fst (retain_list keep ?xs s) = ?xs" using le by (intro retain_list_all) simp
    have "om_retain keep m s = Inr (m, snd (retain_list keep ?xs s))"
      unfolding om_retain_def t'(1) using True by simp
    with eq assms(1,2) show ?thesis unfolding om_entries_def by auto
  next
    case False
    let ?m = "m\<lparr>map_root := t', map_size := map_size m - (length ?xs - length (fst (retain_list keep ?xs s)))\<rparr>"
    have "om_retain keep m s = Inr (?m, snd (retain_list keep ?xs s))"
      unfolding om_retain_def t'(1) using False by simp
    moreover have "om_wf ?m" using t'(2,3) retain_list_bt_wf [of keep ?xs s] wf(1) by (simp add: om_wf_def)
    moreover have "om_len_ok ?m" using assms(2) le t'(3) by (simp add: om_len_ok_def om_entries_def)
    ultimately show ?thesis using t'(3,4) unfolding om_entries_def by auto
  qed
qed

section \<open>The set as a set\<close>






section \<open>Properties\<close>

text \<open>
  C3: for every history of insertions and removals from the empty map the persistent map behaves as
  \<open>BTreeMap\<close>: no operation panics, each returns the value it replaced or removed, the entries, their
  number and their order are those of the B-tree map, lookup agrees with it, and the tree stays height
  balanced.
\<close>

theorem persistent_map_history:
  assumes "length ops \<le> usize_max"
  shows "\<exists>m. for_fold step_map ops (om_default, []) = Inr (m, snd (fold step_btree ops ([], [])))
    \<and> om_avl m \<and> om_entries m = fst (fold step_btree ops ([], []))
    \<and> map_size m = length (om_entries m)
    \<and> (\<forall>k. om_get m k = bt_get (fst (fold step_btree ops ([], []))) k)"
proof -
  obtain m where "for_fold step_map ops (om_default, []) = Inr (m, snd (fold step_btree ops ([], [])))"
    "om_wf m" "om_avl m" "om_len_ok m" "om_entries m = fst (fold step_btree ops ([], []))"
    using history_run [of om_default ops "[]"] assms by auto
  then show ?thesis by (auto simp: om_get_entries om_len_ok_def)
qed

theorem persistent_map_history_witness:
  "\<exists>m. for_fold step_map [InsertKV (2 :: nat) True, InsertKV 1 False, RemoveK 2, InsertKV 1 True] (om_default, [])
       = Inr (m, [None, None, Some True, Some False]) \<and> om_entries m = [(1, True)]"
proof -
  let ?ops = "[InsertKV (2 :: nat) True, InsertKV 1 False, RemoveK 2, InsertKV 1 True]"
  have "length ?ops \<le> usize_max" by (simp add: usize_max_def)
  moreover have "fold step_btree ?ops ([], []) = ([(1, True)], [None, None, Some True, Some False])"
    by (simp add: step_btree_def bt_get_def)
  ultimately show ?thesis using persistent_map_history [of ?ops] by auto
qed



text \<open>
  C16: the order queries agree with the sorted entries: \<open>rank_before\<close> counts the smaller keys,
  \<open>rank_of\<close> is that count exactly for present keys, \<open>key_at_rank\<close> inverts it, and \<open>predecessor\<close> and
  \<open>successor\<close> are the closest entries strictly below and above, or \<open>None\<close>.
\<close>

theorem persistent_map_order_queries:
  assumes "om_wf m" "length (om_entries m) \<le> usize_max"
  shows "rank_before m k = card {x \<in> dom (om_get m). x < k}
    \<and> rank_of m k = (if om_get m k = None then None else Some (rank_before m k))
    \<and> key_at_rank m r = get_vec (map fst (om_entries m)) r
    \<and> predecessor m k = (if below k (om_entries m) = [] then None else Some (last (below k (om_entries m))))
    \<and> successor m k = (if above k (om_entries m) = [] then None else Some (hd (above k (om_entries m))))
    \<and> (om_get m k \<noteq> None \<longrightarrow> key_at_rank m (rank_before m k) = Some k)"
proof -
  let ?t = "map_root m" and ?xs = "om_entries m"
  have wf: "bst ?t" "aug ?t" and len: "length (inorder ?t) \<le> usize_max"
    using assms by (simp_all add: om_wf_def om_entries_def)
  have before: "rank_before m k = length (below k ?xs)"
    using rank_before_loop_ok [OF wf, of 0 k] len by (simp add: rank_before_def om_entries_def)
  have rank: "rank_of m k = (if om_get m k = None then None else Some (rank_before m k))"
    using rank_of_loop_ok [OF wf, of 0 k] len
    by (simp add: rank_of_def om_get_entries assms(1) before) (simp add: om_entries_def)
  have key: "key_at_rank m i = get_vec (map fst ?xs) i" for i
    using key_at_rank_loop_ok [OF wf(2) len] by (simp add: key_at_rank_def om_entries_def)
  have "fst ` set (below k ?xs) = {x \<in> dom (om_get m). x < k}"
    using pmap.keys_dom [OF assms(1)] by (auto simp: below_def image_iff)
  moreover have "distinct (map fst (below k ?xs))"
    using pmap.entries_distinct [OF assms(1)] by (simp add: below_def distinct_map_filter)
  ultimately have "length (below k ?xs) = card {x \<in> dom (om_get m). x < k}"
    by (metis distinct_card length_map list.set_map)
  moreover have "key_at_rank m (rank_before m k) = Some k" if "om_get m k \<noteq> None"
  proof -
    have "k \<in> fst ` set ?xs" using that pmap.keys_dom [OF assms(1)] by auto
    then obtain v ys zs where split: "?xs = ys @ (k, v) # zs" by (auto dest: split_list)
    then have "below k ?xs = ys"
      using om_wfD(1) [OF assms(1)] by (auto simp: below_def bt_wf_append filter_id_conv filter_empty_conv)
    then show ?thesis by (simp add: before key split get_vec_def nth_append)
  qed
  ultimately show ?thesis
    using before rank key predecessor_loop_ok [OF wf(1), of k None] successor_loop_ok [OF wf(1), of k None]
    by (simp add: predecessor_def successor_def om_entries_def)
qed

theorem persistent_map_order_queries_witness:
  "let m = \<lparr>map_root = mk_node (20 :: nat) True (mk_node 10 True NoNode NoNode) NoNode, map_size = 2\<rparr>
   in om_wf m \<and> length (om_entries m) \<le> usize_max \<and> predecessor m 20 = Some (10, True)
      \<and> successor m 20 = None \<and> key_at_rank m 1 = Some 20"
proof -
  let ?m = "\<lparr>map_root = mk_node (20 :: nat) True (mk_node 10 True NoNode NoNode) NoNode, map_size = 2\<rparr>"
  have wf: "om_wf ?m" "length (om_entries ?m) \<le> usize_max"
    by (simp_all add: om_wf_def om_entries_def bt_wf_def usize_max_def)
  with persistent_map_order_queries [OF wf, of 20 1] show ?thesis
    by (simp add: om_entries_def below_def above_def get_vec_def)
qed

text \<open>
  C15: the iterator is double ended and exact: any interleaving of \<open>next\<close> and \<open>next_back\<close> takes the
  entries from the two ends of the sorted sequence, each once, and then reports the end for good.
\<close>

theorem persistent_map_iterator:
  assumes "om_len_ok m"
  shows "iter_run calls (om_iter m) = deque_run calls (om_entries m)
    \<and> iter_collect (om_iter m) = om_entries m"
  using iter_run_deque [OF iter_at_start [OF assms], of calls] iter_collect_entries [OF assms] by simp

theorem persistent_map_iterator_witness:
  "let m = \<lparr>map_root = mk_node (20 :: nat) True (mk_node 10 False NoNode NoNode) NoNode, map_size = 2\<rparr>
   in om_len_ok m \<and> iter_run [False, True, True] (om_iter m) = [Some (20, True), Some (10, False), None]"
proof -
  let ?m = "\<lparr>map_root = mk_node (20 :: nat) True (mk_node 10 False NoNode NoNode) NoNode, map_size = 2\<rparr>"
  have "om_len_ok ?m" by (simp add: om_len_ok_def om_entries_def)
  with persistent_map_iterator [OF this, of "[False, True, True]"] show ?thesis
    by (simp add: om_entries_def)
qed

text \<open>
  C28: bulk construction accepts exactly the strictly increasing sequences, never panics, and builds a
  balanced map of exactly these entries.
\<close>

theorem from_sorted_unique_correct:
  "if sorted_wrt (<) (map fst xs)
   then \<exists>m. from_sorted_unique xs = Inr (Some m) \<and> om_wf m \<and> om_avl m \<and> om_entries m = xs
     \<and> map_size m = length xs \<and> (\<forall>k. om_get m k = map_of xs k)
   else from_sorted_unique xs = Inr None"
  using from_sorted_unique_spec [of xs] by (auto simp: bt_wf_def om_get_entries bt_get_def om_len_ok_def)

text \<open>
  C29: \<open>retain\<close> calls the predicate once on every entry in key order, threading its state, keeps
  exactly the accepted entries, counts them right and never makes the tree higher.
\<close>

theorem persistent_map_retain:
  assumes "om_wf m" "om_len_ok m" "length (om_entries m) \<le> usize_max"
  shows "(\<exists>m'. om_retain keep m s = Inr (m', snd (retain_list keep (om_entries m) s))
      \<and> om_wf m' \<and> om_len_ok m' \<and> om_entries m' = fst (retain_list keep (om_entries m) s)
      \<and> map_height (map_root m') \<le> map_height (map_root m))
    \<and> (\<exists>m'. om_retain (\<lambda>k v s. (p k v, s)) m s = Inr (m', s)
      \<and> om_entries m' = filter (\<lambda>(k, v). p k v) (om_entries m))"
proof
  show "\<exists>m'. om_retain (\<lambda>k v s. (p k v, s)) m s = Inr (m', s)
      \<and> om_entries m' = filter (\<lambda>(k, v). p k v) (om_entries m)"
    using om_retain_ok [OF assms, of "\<lambda>k v s. (p k v, s)" s] by (auto simp: retain_list_pure)
qed (rule om_retain_ok [OF assms])

theorem persistent_map_retain_witness:
  "let m = \<lparr>map_root = mk_node (20 :: nat) True (mk_node 10 False NoNode NoNode) NoNode, map_size = 2\<rparr>
   in om_wf m \<and> om_len_ok m \<and> (\<exists>m'. om_retain (\<lambda>k v s. (v, s)) m () = Inr (m', ()) \<and> om_entries m' = [(20, True)])"
proof -
  let ?m = "\<lparr>map_root = mk_node (20 :: nat) True (mk_node 10 False NoNode NoNode) NoNode, map_size = 2\<rparr>"
  have wf: "om_wf ?m" "om_len_ok ?m" "length (om_entries ?m) \<le> usize_max"
    by (simp_all add: om_wf_def om_len_ok_def om_entries_def bt_wf_def usize_max_def)
  with persistent_map_retain [OF wf, of "\<lambda>k v s. (v, s)" "()" "\<lambda>k v. v"] show ?thesis
    by (auto simp: om_entries_def)
qed

definition perfect3 :: "(nat, unit) map_node" where
  "perfect3 = mk_node 4 () (mk_node 2 () (mk_node 1 () NoNode NoNode) (mk_node 3 () NoNode NoNode))
     (mk_node 6 () (mk_node 5 () NoNode NoNode) (mk_node 7 () NoNode NoNode))"

lemma retain_right_emptied:
  "map_retain (\<lambda>k _ s. (k \<le> 8, s)) (mk_node (9 :: nat) () NoNode (mk_node 10 () NoNode NoNode)) s = Inr ((NoNode, 2), s)"
  by (simp add: mk_node_def saturating_add_def usize_max_def)

lemma retain_left_kept: "map_retain (\<lambda>k _ s. (k \<le> 8, s)) perfect3 s = Inr ((perfect3, 0), s)"
  by (simp add: perfect3_def mk_node_def saturating_add_def usize_max_def)

text \<open>
  C30: \<open>retain\<close> does not keep the tree height balanced: a kept node whose subtrees have lost different
  numbers of levels is rotated only once. Dropping the keys above 8 from a balanced map of \<open>1 .. 10\<close>
  leaves a node whose children differ in height by two, which no insertion or removal would.
\<close>

theorem persistent_map_retain_unbalanced:
  "let m = \<lparr>map_root = mk_node 8 () perfect3 (mk_node 9 () NoNode (mk_node 10 () NoNode NoNode)), map_size = 10\<rparr>
   in om_wf m \<and> om_len_ok m \<and> om_avl m
      \<and> (\<exists>m'. om_retain (\<lambda>k _ s. (k \<le> 8, s)) m () = Inr (m', ()) \<and> \<not> om_avl m')"
proof -
  let ?m = "\<lparr>map_root = mk_node 8 () perfect3 (mk_node 9 () NoNode (mk_node 10 () NoNode NoNode)), map_size = 10\<rparr>"
  have "om_wf ?m" "om_len_ok ?m"
    by (simp_all add: om_wf_def om_len_ok_def om_entries_def perfect3_def bt_wf_def)
  moreover have "om_avl ?m \<and> (\<exists>m'. om_retain (\<lambda>k _ s. (k \<le> 8, s)) ?m () = Inr (m', ()) \<and> \<not> om_avl m')"
    by (simp add: mk_node_def [of 8] om_retain_def retain_right_emptied retain_left_kept om_avl_def
        saturating_add_def usize_max_def)
      (simp add: perfect3_def mk_node_def map_balance_def)
  ultimately show ?thesis by simp
qed



end
