(* ===== verification/Persistent_Vec.thy ===== *)
theory Persistent_Vec
  imports Prelude
begin

text \<open>
  \<open>PersistentVec\<close> (\<open>kernel-persistent/src/vector.rs\<close>): a vector stored as pages of \<open>PAGE\<close> elements under
  a radix tree of \<open>BRANCH\<close>-way nodes. An \<open>Arc\<close> of a node is the node, so that a clone is the same value
  and updates never touch it; \<open>contiguous_cache\<close> is the lazily filled slice view. \<open>Inl Panic\<close> is a
  failed assertion, index, \<open>expect\<close> or \<open>unreachable!\<close>; the loop \<open>ensure_page_capacity\<close> is partial, and
  not returning is counted as \<open>Panic\<close> too. \<open>Arc::ptr_eq\<close> is the argument \<open>ptr_eq\<close> of the functions that
  use it.
\<close>

section \<open>Nodes\<close>

definition PAGE :: nat where
  "PAGE = 256"

definition BRANCH :: nat where
  "BRANCH = 32"

datatype 'a vec_node = Branch "'a vec_node option list" | Leaf "'a list"

record 'a persistent_vec =
  vec_root :: "'a vec_node"
  vec_levels :: nat
  vec_len :: nat
  contiguous_cache :: "'a list option"

definition empty_branch :: "'a vec_node" where
  "empty_branch = Branch (replicate BRANCH None)"

definition vec_default :: "'a persistent_vec" where
  "vec_default = \<lparr>vec_root = empty_branch, vec_levels = 1, vec_len = 0, contiguous_cache = None\<rparr>"

definition page_capacity :: "nat \<Rightarrow> nat" where
  "page_capacity levels = fold (\<lambda>_ capacity. saturating_mul capacity BRANCH) [0..<levels] 1"

text \<open>\<open>levels - 1\<close> underflows at level 0, which is a panic.\<close>

fun page :: "'a vec_node \<Rightarrow> nat \<Rightarrow> nat \<Rightarrow> (panic, 'a list option) result" where
  "page (Leaf p) levels page_index = Inr None"
| "page (Branch children) levels page_index =
     (let divisor = page_capacity (levels - 1);
          child_index = (page_index div divisor) mod BRANCH
      in case get_vec children child_index of
           None \<Rightarrow> Inr None
         | Some None \<Rightarrow> Inr None
         | Some (Some child) \<Rightarrow>
             (if levels = 1 then (case child of Leaf p \<Rightarrow> Inr (Some p) | Branch _ \<Rightarrow> Inr None)
              else if levels = 0 then Inl Panic
              else page child (levels - 1) (page_index mod divisor)))"

fun set_page :: "'a vec_node \<Rightarrow> nat \<Rightarrow> nat \<Rightarrow> 'a list option \<Rightarrow> (panic, 'a vec_node) result" where
  "set_page node levels page_index new_page =
     (case node of
        Leaf _ \<Rightarrow> Inl Panic
      | Branch existing \<Rightarrow>
          (let divisor = page_capacity (levels - 1);
               child_index = (page_index div divisor) mod BRANCH
           in if child_index \<ge> length existing then Inl Panic
              else if levels = 1 then
                Inr (Branch (existing[child_index := map_option Leaf new_page]))
              else if levels = 0 then Inl Panic
              else
                (let child = (case existing ! child_index of None \<Rightarrow> empty_branch | Some c \<Rightarrow> c)
                 in res_bind (set_page child (levels - 1) (page_index mod divisor) new_page)
                      (\<lambda>c. Inr (Branch (existing[child_index := Some c]))))))"

declare set_page.simps [simp del]

text \<open>\<open>value_mut\<close> hands out a mutable reference; the model takes what is written through it.\<close>

fun value_mut :: "'a vec_node \<Rightarrow> nat \<Rightarrow> nat \<Rightarrow> nat \<Rightarrow> ('a \<Rightarrow> 'a) \<Rightarrow> (panic, 'a vec_node option) result" where
  "value_mut node levels page_index offset f =
     (case node of
        Leaf _ \<Rightarrow> Inr None
      | Branch children \<Rightarrow>
          (let divisor = page_capacity (levels - 1);
               child_index = (page_index div divisor) mod BRANCH
           in case get_vec children child_index of
                None \<Rightarrow> Inr None
              | Some None \<Rightarrow> Inr None
              | Some (Some child) \<Rightarrow>
                  (if levels = 1 then
                     (case child of
                        Branch _ \<Rightarrow> Inr None
                      | Leaf p \<Rightarrow>
                          Inr (if offset < length p
                               then Some (Branch (children[child_index := Some (Leaf (p[offset := f (p ! offset)]))]))
                               else None))
                   else if levels = 0 then Inl Panic
                   else res_bind (value_mut child (levels - 1) (page_index mod divisor) offset f)
                     (\<lambda>c. Inr (map_option (\<lambda>c. Branch (children[child_index := Some c])) c)))))"

declare value_mut.simps [simp del]

section \<open>The vector\<close>

definition vec_page :: "'a persistent_vec \<Rightarrow> nat \<Rightarrow> (panic, 'a list option) result" where
  "vec_page v page_index = page (vec_root v) (vec_levels v) page_index"

text \<open>\<open>self.page(i).expect(..).clone()\<close>.\<close>

definition expect_page :: "'a persistent_vec \<Rightarrow> nat \<Rightarrow> (panic, 'a list) result" where
  "expect_page v page_index = res_bind (vec_page v page_index) (\<lambda>p. ok_or p Panic)"

definition write_page :: "'a persistent_vec \<Rightarrow> nat \<Rightarrow> 'a list option \<Rightarrow> (panic, 'a persistent_vec) result" where
  "write_page v page_index p =
     res_bind (set_page (vec_root v) (vec_levels v) page_index p) (\<lambda>root. Inr (v\<lparr>vec_root := root\<rparr>))"

definition clear_cache :: "'a persistent_vec \<Rightarrow> 'a persistent_vec" where
  "clear_cache v = v\<lparr>contiguous_cache := None\<rparr>"

partial_function (option) grow :: "nat \<Rightarrow> 'a vec_node \<Rightarrow> nat \<Rightarrow> ('a vec_node \<times> nat) option" where
  "grow page_index root levels =
     (if page_index \<ge> page_capacity levels
      then grow page_index (Branch ((replicate BRANCH None)[0 := Some root])) (levels + 1)
      else Some (root, levels))"

definition ensure_page_capacity :: "'a persistent_vec \<Rightarrow> nat \<Rightarrow> (panic, 'a persistent_vec) result" where
  "ensure_page_capacity v page_index =
     res_bind (ok_or (grow page_index (vec_root v) (vec_levels v)) Panic)
       (\<lambda>(root, levels). Inr (v\<lparr>vec_root := root, vec_levels := levels\<rparr>))"

definition append_page :: "'a persistent_vec \<Rightarrow> 'a list \<Rightarrow> (panic, 'a persistent_vec) result" where
  "append_page v p =
     (let v0 = clear_cache v; page_index = vec_len v0 div PAGE in
      res_bind (ensure_page_capacity v0 page_index) (\<lambda>v1.
        write_page (v1\<lparr>vec_len := vec_len v1 + length p\<rparr>) page_index (Some p)))"

text \<open>The loop of \<open>from_vec\<close>, with the page under construction.\<close>

fun from_vec_loop :: "'a list \<Rightarrow> 'a list \<Rightarrow> 'a persistent_vec
    \<Rightarrow> (panic, 'a persistent_vec \<times> 'a list) result" where
  "from_vec_loop [] pg out = Inr (out, pg)"
| "from_vec_loop (x # xs) pg out =
     (let pg' = pg @ [x] in
      if length pg' = PAGE then res_bind (append_page out pg') (\<lambda>out'. from_vec_loop xs [] out')
      else from_vec_loop xs pg' out)"

definition from_vec :: "'a list \<Rightarrow> (panic, 'a persistent_vec) result" where
  "from_vec values =
     res_bind (from_vec_loop values [] vec_default) (\<lambda>(out, pg).
       if pg \<noteq> [] then append_page out pg else Inr out)"

definition vec_get :: "'a persistent_vec \<Rightarrow> nat \<Rightarrow> (panic, 'a option) result" where
  "vec_get v i =
     (if i \<ge> vec_len v then Inr None
      else res_bind (vec_page v (i div PAGE))
        (\<lambda>p. Inr (case p of None \<Rightarrow> None | Some p \<Rightarrow> get_vec p (i mod PAGE))))"

definition vec_index :: "'a persistent_vec \<Rightarrow> nat \<Rightarrow> (panic, 'a) result" where
  "vec_index v i = res_bind (vec_get v i) (\<lambda>x. ok_or x Panic)"

definition vec_get_mut :: "'a persistent_vec \<Rightarrow> nat \<Rightarrow> ('a \<Rightarrow> 'a) \<Rightarrow> (panic, 'a persistent_vec option) result" where
  "vec_get_mut v i f =
     (if i \<ge> vec_len v then Inr None
      else res_bind (value_mut (vec_root v) (vec_levels v) (i div PAGE) (i mod PAGE) f)
        (\<lambda>r. Inr (map_option (\<lambda>root. (clear_cache v)\<lparr>vec_root := root\<rparr>) r)))"

definition vec_push :: "'a persistent_vec \<Rightarrow> 'a \<Rightarrow> (panic, 'a persistent_vec) result" where
  "vec_push v x =
     (let v0 = clear_cache v;
          page_index = vec_len v0 div PAGE;
          offset = vec_len v0 mod PAGE
      in res_bind (ensure_page_capacity v0 page_index) (\<lambda>v1.
           res_bind (if offset = 0 then Inr [] else expect_page v1 page_index) (\<lambda>p.
             res_bind (write_page v1 page_index (Some (p @ [x]))) (\<lambda>v2.
               Inr (v2\<lparr>vec_len := vec_len v2 + 1\<rparr>)))))"

definition vec_pop_last :: "'a persistent_vec \<Rightarrow> (panic, 'a persistent_vec \<times> 'a) result" where
  "vec_pop_last v =
     (let v0 = clear_cache v in
      if \<not> vec_len v0 > 0 then Inl Panic
      else
        (let last_index = vec_len v0 - 1; page_index = last_index div PAGE in
         res_bind (expect_page v0 page_index) (\<lambda>p.
           if p = [] then Inl Panic
           else res_bind (write_page v0 page_index (if butlast p = [] then None else Some (butlast p)))
             (\<lambda>v1. Inr (v1\<lparr>vec_len := vec_len v1 - 1\<rparr>, last p)))))"

definition vec_pop :: "'a persistent_vec \<Rightarrow> (panic, 'a persistent_vec \<times> 'a option) result" where
  "vec_pop v =
     (if vec_len v = 0 then Inr (v, None)
      else res_bind (vec_pop_last v) (\<lambda>(v', x). Inr (v', Some x)))"

definition vec_set :: "'a persistent_vec \<Rightarrow> nat \<Rightarrow> 'a \<Rightarrow> (panic, 'a persistent_vec) result" where
  "vec_set v i x =
     (let v0 = clear_cache v in
      if \<not> i < vec_len v0 then Inl Panic
      else
        (let page_index = i div PAGE; offset = i mod PAGE in
         res_bind (expect_page v0 page_index) (\<lambda>p.
           if offset \<ge> length p then Inl Panic
           else write_page v0 page_index (Some (p[offset := x])))))"

text \<open>\<open>Vec::remove\<close>.\<close>

definition remove_at :: "nat \<Rightarrow> 'a list \<Rightarrow> 'a list" where
  "remove_at i xs = take i xs @ drop (i + 1) xs"

definition remove_step :: "nat \<Rightarrow> nat \<Rightarrow> nat \<Rightarrow> nat \<Rightarrow> 'a persistent_vec \<Rightarrow> (panic, 'a persistent_vec) result" where
  "remove_step first_page first_offset last_page page_index v =
     res_bind (expect_page v page_index) (\<lambda>p.
       let off = (if page_index = first_page then first_offset else 0) in
       if off \<ge> length p then Inl Panic
       else
         (let p1 = remove_at off p in
          res_bind
            (if page_index < last_page
             then res_bind (vec_page v (page_index + 1)) (\<lambda>next.
               case next of None \<Rightarrow> Inl Panic | Some [] \<Rightarrow> Inl Panic | Some (y # _) \<Rightarrow> Inr (p1 @ [y]))
             else Inr p1)
            (\<lambda>p2. write_page v page_index (if p2 = [] then None else Some p2))))"

definition vec_remove :: "'a persistent_vec \<Rightarrow> nat \<Rightarrow> (panic, 'a persistent_vec \<times> 'a) result" where
  "vec_remove v i =
     (let v0 = clear_cache v in
      if \<not> i < vec_len v0 then Inl Panic
      else
        res_bind (vec_index v0 i) (\<lambda>removed.
          let first_page = i div PAGE;
              first_offset = i mod PAGE;
              last_page = (vec_len v0 - 1) div PAGE
          in res_bind (for_fold (remove_step first_page first_offset last_page) [first_page..<last_page + 1] v0)
               (\<lambda>v1. Inr (v1\<lparr>vec_len := vec_len v1 - 1\<rparr>, removed))))"

definition vec_swap :: "'a persistent_vec \<Rightarrow> nat \<Rightarrow> nat \<Rightarrow> (panic, 'a persistent_vec) result" where
  "vec_swap v i j =
     (if \<not> (i < vec_len v \<and> j < vec_len v) then Inl Panic
      else if i = j then Inr v
      else
        (let v0 = clear_cache v;
             left_page_index = i div PAGE;
             right_page_index = j div PAGE;
             left_offset = i mod PAGE;
             right_offset = j mod PAGE
         in if left_page_index = right_page_index then
              res_bind (expect_page v0 left_page_index) (\<lambda>p.
                if left_offset \<ge> length p \<or> right_offset \<ge> length p then Inl Panic
                else write_page v0 left_page_index
                  (Some (p[left_offset := p ! right_offset, right_offset := p ! left_offset])))
            else
              res_bind (expect_page v0 left_page_index) (\<lambda>left_page.
                res_bind (expect_page v0 right_page_index) (\<lambda>right_page.
                  if left_offset \<ge> length left_page \<or> right_offset \<ge> length right_page then Inl Panic
                  else
                    res_bind (write_page v0 left_page_index
                        (Some (left_page[left_offset := right_page ! right_offset])))
                      (\<lambda>v1. write_page v1 right_page_index
                        (Some (right_page[right_offset := left_page ! left_offset])))))))"

definition vec_swap_remove :: "'a persistent_vec \<Rightarrow> nat \<Rightarrow> (panic, 'a persistent_vec \<times> 'a) result" where
  "vec_swap_remove v i =
     (let v0 = clear_cache v in
      if \<not> i < vec_len v0 then Inl Panic
      else
        (let last_index = vec_len v0 - 1 in
         if i = last_index then vec_pop_last v0
         else
           res_bind (vec_index v0 i) (\<lambda>removed.
             let page_index = i div PAGE; last_page_index = last_index div PAGE in
             if page_index = last_page_index then
               res_bind (expect_page v0 page_index) (\<lambda>p.
                 if p = [] then Inl Panic
                 else if i mod PAGE \<ge> length (butlast p) then Inl Panic
                 else
                   res_bind (write_page v0 page_index (Some ((butlast p)[i mod PAGE := last p])))
                     (\<lambda>v1. Inr (v1\<lparr>vec_len := vec_len v1 - 1\<rparr>, removed)))
             else
               res_bind (vec_index v0 last_index) (\<lambda>lst.
                 res_bind (vec_set v0 i lst) (\<lambda>v1.
                   res_bind (vec_pop_last v1) (\<lambda>(v2, _). Inr (v2, removed)))))))"

definition vec_truncate :: "'a persistent_vec \<Rightarrow> nat \<Rightarrow> (panic, 'a persistent_vec) result" where
  "vec_truncate v new_len =
     (if new_len \<ge> vec_len v then Inr v
      else
        (let v0 = clear_cache v in
         if new_len = 0 then Inr (v0\<lparr>vec_root := empty_branch, vec_levels := 1, vec_len := 0\<rparr>)
         else
           (let old_last_page = (vec_len v0 - 1) div PAGE;
                kept_last_page = (new_len - 1) div PAGE;
                kept_tail_len = new_len mod PAGE
            in res_bind
                 (if kept_tail_len \<noteq> 0 then
                    res_bind (expect_page v0 kept_last_page)
                      (\<lambda>p. write_page v0 kept_last_page (Some (take kept_tail_len p)))
                  else Inr v0)
                 (\<lambda>v1. res_bind
                    (for_fold (\<lambda>page_index v. write_page v page_index None)
                       [kept_last_page + 1..<old_last_page + 1] v1)
                    (\<lambda>v2. Inr (v2\<lparr>vec_len := new_len\<rparr>))))))"

text \<open>\<open>(0..added).map(|_| f())\<close> for an \<open>FnMut\<close>.\<close>

fun generate :: "('s \<Rightarrow> 'a \<times> 's) \<Rightarrow> nat \<Rightarrow> 's \<Rightarrow> 'a list \<times> 's" where
  "generate f 0 s = ([], s)"
| "generate f (Suc n) s = (case f s of (x, s') \<Rightarrow> case generate f n s' of (xs, s'') \<Rightarrow> (x # xs, s''))"

lemma generate_length: "length (fst (generate f n s)) = n"
  by (induction n arbitrary: s) (auto split: prod.splits, metis fst_conv)

lemma generate_length': "(xs, s') = generate f n s \<Longrightarrow> length xs = n"
  by (metis fst_conv generate_length)

lemma append_page_len: "append_page v p = Inr v' \<Longrightarrow> vec_len v' = vec_len v + length p"
  by (auto simp: append_page_def ensure_page_capacity_def write_page_def clear_cache_def Let_def result_simps)

text \<open>The loop appends a page while the length is short; it ends because each page has an element.\<close>

function resize_loop :: "('s \<Rightarrow> 'a \<times> 's) \<Rightarrow> nat \<Rightarrow> 'a persistent_vec \<Rightarrow> 's
    \<Rightarrow> (panic, 'a persistent_vec \<times> 's) result" where
  "resize_loop f new_len v s =
     (if vec_len v < new_len then
        (let added = min PAGE (new_len - vec_len v) in
         case generate f added s of (pg, s') \<Rightarrow>
           res_bind (append_page v pg) (\<lambda>v'. resize_loop f new_len v' s'))
      else Inr (v, s))"
  by pat_completeness auto
termination
  by (relation "measure (\<lambda>(f, n, v, s). n - vec_len v)")
    (auto simp: PAGE_def min_def dest!: append_page_len generate_length')

declare resize_loop.simps [simp del]

definition vec_resize_with :: "('s \<Rightarrow> 'a \<times> 's) \<Rightarrow> 'a persistent_vec \<Rightarrow> nat \<Rightarrow> 's
    \<Rightarrow> (panic, 'a persistent_vec \<times> 's) result" where
  "vec_resize_with f v new_len s =
     (if new_len \<le> vec_len v then res_bind (vec_truncate v new_len) (\<lambda>v'. Inr (v', s))
      else
        (let v0 = clear_cache v in
         res_bind
           (if vec_len v0 mod PAGE \<noteq> 0 then
              (let page_index = vec_len v0 div PAGE in
               res_bind (expect_page v0 page_index) (\<lambda>p.
                 let added = min (PAGE - length p) (new_len - vec_len v0) in
                 case generate f added s of (new, s') \<Rightarrow>
                   res_bind (write_page v0 page_index (Some (p @ new)))
                     (\<lambda>v1. Inr (v1\<lparr>vec_len := vec_len v1 + added\<rparr>, s'))))
            else Inr (v0, s))
           (\<lambda>(v1, s1). resize_loop f new_len v1 s1)))"

definition vec_resize :: "'a persistent_vec \<Rightarrow> nat \<Rightarrow> 'a \<Rightarrow> (panic, 'a persistent_vec) result" where
  "vec_resize v new_len x = res_bind (vec_resize_with (\<lambda>u. (x, u)) v new_len ()) (\<lambda>(v', _). Inr v')"

section \<open>Iteration and comparison\<close>

text \<open>The iterator calls \<open>get\<close> from index 0 until it answers \<open>None\<close>.\<close>

function vec_iter_from :: "'a persistent_vec \<Rightarrow> nat \<Rightarrow> (panic, 'a list) result" where
  "vec_iter_from v i =
     res_bind (vec_get v i) (\<lambda>x. case x of
        None \<Rightarrow> Inr []
      | Some x \<Rightarrow> res_bind (vec_iter_from v (i + 1)) (\<lambda>xs. Inr (x # xs)))"
  by pat_completeness auto
termination
  by (relation "measure (\<lambda>(v, i). vec_len v - i)") (auto simp: vec_get_def split: if_splits)

declare vec_iter_from.simps [simp del]

definition as_slice :: "'a persistent_vec \<Rightarrow> (panic, 'a persistent_vec \<times> 'a list) result" where
  "as_slice v =
     (case contiguous_cache v of
        Some s \<Rightarrow> Inr (v, s)
      | None \<Rightarrow> res_bind (vec_iter_from v 0) (\<lambda>s. Inr (v\<lparr>contiguous_cache := Some s\<rparr>, s)))"

definition vec_clone :: "'a persistent_vec \<Rightarrow> 'a persistent_vec" where
  "vec_clone v = v\<lparr>contiguous_cache := None\<rparr>"

definition vec_eq :: "'a persistent_vec \<Rightarrow> 'a persistent_vec \<Rightarrow> (panic, bool) result" where
  "vec_eq v w =
     (if vec_len v \<noteq> vec_len w then Inr False
      else res_bind (vec_iter_from v 0) (\<lambda>xs. res_bind (vec_iter_from w 0) (\<lambda>ys. Inr (xs = ys))))"

definition vec_capacity :: "'a persistent_vec \<Rightarrow> nat" where
  "vec_capacity v = div_ceil (vec_len v) PAGE * PAGE"

section \<open>Difference of two snapshots\<close>

fun zero_subtree :: "'a vec_node \<Rightarrow> nat \<Rightarrow> nat \<Rightarrow> 'a vec_node option" where
  "zero_subtree current levels target_levels =
     (if levels > target_levels then
        (case current of
           Branch (Some c # _) \<Rightarrow> zero_subtree c (levels - 1) target_levels
         | _ \<Rightarrow> None)
      else Some current)"

declare zero_subtree.simps [simp del]

text \<open>The loop over the children stops at the first child beyond \<open>common_len\<close>.\<close>

fun collect_changed_indices :: "('a vec_node \<Rightarrow> 'a vec_node \<Rightarrow> bool) \<Rightarrow> nat \<Rightarrow> 'a vec_node \<Rightarrow> 'a vec_node
    \<Rightarrow> nat \<Rightarrow> nat \<Rightarrow> nat list \<Rightarrow> (panic, nat list) result" where
  "collect_changed_indices ptr_eq levels left right base_page common_len changed =
     (if ptr_eq left right then Inr changed
      else case (left, right) of
        (Branch left_children, Branch right_children) \<Rightarrow>
          (let pages_per_child = page_capacity (levels - 1) in
           for_fold
             (\<lambda>child_index changed.
                let child_base_page = base_page + child_index * pages_per_child;
                    child_base_index = child_base_page * PAGE
                in if child_index \<ge> length left_children \<or> child_index \<ge> length right_children then Inl Panic
                   else case (left_children ! child_index, right_children ! child_index) of
                     (Some left_child, Some right_child) \<Rightarrow>
                       (if ptr_eq left_child right_child then Inr changed
                        else if levels = 1 then
                          (case (left_child, right_child) of
                             (Leaf left_page, Leaf right_page) \<Rightarrow>
                               (let page_len = min (min (length left_page) (length right_page))
                                      (common_len - child_base_index)
                                in Inr (changed @ map (\<lambda>offset. child_base_index + offset)
                                     (filter (\<lambda>offset. left_page ! offset \<noteq> right_page ! offset) [0..<page_len])))
                           | _ \<Rightarrow> Inr changed)
                        else if levels = 0 then Inl Panic
                        else collect_changed_indices ptr_eq (levels - 1) left_child right_child
                               child_base_page common_len changed)
                   | _ \<Rightarrow> Inr (changed @ [child_base_index..<min common_len (child_base_index + pages_per_child * PAGE)]))
             (takeWhile (\<lambda>child_index. \<not> (base_page + child_index * pages_per_child) * PAGE \<ge> common_len) [0..<BRANCH])
             changed)
      | _ \<Rightarrow> Inr changed)"

declare collect_changed_indices.simps [simp del]

definition changed_indices :: "('a vec_node \<Rightarrow> 'a vec_node \<Rightarrow> bool) \<Rightarrow> 'a persistent_vec \<Rightarrow> 'a persistent_vec
    \<Rightarrow> (panic, nat list) result" where
  "changed_indices ptr_eq v w =
     (let common_len = min (vec_len v) (vec_len w);
          aligned =
            (if vec_levels v = vec_levels w then Some (vec_root v, vec_root w, vec_levels v)
             else if vec_levels v < vec_levels w
             then map_option (\<lambda>right. (vec_root v, right, vec_levels v)) (zero_subtree (vec_root w) (vec_levels w) (vec_levels v))
             else map_option (\<lambda>left. (left, vec_root w, vec_levels w)) (zero_subtree (vec_root v) (vec_levels v) (vec_levels w)))
      in res_bind
           (case aligned of
              Some (left, right, levels) \<Rightarrow> collect_changed_indices ptr_eq levels left right 0 common_len []
            | None \<Rightarrow>
                for_fold (\<lambda>index changed. res_bind (vec_index v index) (\<lambda>x. res_bind (vec_index w index) (\<lambda>y.
                  Inr (if x \<noteq> y then changed @ [index] else changed)))) [0..<common_len] [])
           (\<lambda>changed. Inr (changed @ [common_len..<max (vec_len v) (vec_len w)])))"

end
