(* ===== verification/Persistent_Vec_Tree.thy ===== *)
theory Persistent_Vec_Tree
  imports Persistent_Vec
begin

text \<open>
  What a \<open>PersistentVec\<close> means: the radix tree is a map from page numbers to pages, a page is a segment
  of the list the vector represents, and the operations on single pages (lookup, replacement, growth of
  the tree) act on that map. Every level is addressed without saturation because a length fits 64 bits.
\<close>

section \<open>The radix tree as a map from page numbers to pages\<close>

lemma PAGE_pos [simp]: "0 < PAGE"
  by (simp add: PAGE_def)

lemma BRANCH_pos [simp]: "0 < BRANCH"
  by (simp add: BRANCH_def)

text \<open>
  Twelve levels address every page a 64-bit length can have, and up to there the capacity does not
  saturate.
\<close>

definition max_levels :: nat where
  "max_levels = 12"

lemma page_capacity_Suc: "page_capacity (Suc n) = saturating_mul (page_capacity n) BRANCH"
  by (simp add: page_capacity_def)

lemma page_capacity_pow: "n \<le> max_levels \<Longrightarrow> page_capacity n = BRANCH ^ n"
proof (induction n)
  case 0
  then show ?case by (simp add: page_capacity_def)
next
  case (Suc n)
  have "(32 :: nat) ^ Suc n \<le> 32 ^ 12" using Suc.prems by (intro power_increasing) (simp_all add: max_levels_def)
  then have "BRANCH ^ n * BRANCH \<le> usize_max" by (simp add: BRANCH_def usize_max_def mult.commute)
  then show ?case using Suc by (simp add: page_capacity_Suc saturating_mul_def mult.commute)
qed

fun node_ok :: "nat \<Rightarrow> 'a vec_node \<Rightarrow> bool" where
  "node_ok 0 (Leaf p) = True"
| "node_ok (Suc n) (Branch cs) \<longleftrightarrow> length cs = BRANCH \<and> (\<forall>c. Some c \<in> set cs \<longrightarrow> node_ok n c)"
| "node_ok _ _ = False"

text \<open>The page map of a node of a given height.\<close>

fun pages :: "nat \<Rightarrow> 'a vec_node \<Rightarrow> nat \<Rightarrow> 'a list option" where
  "pages 0 (Leaf p) i = Some p"
| "pages (Suc n) (Branch cs) i =
     (case cs ! (i div BRANCH ^ n) of None \<Rightarrow> None | Some c \<Rightarrow> pages n c (i mod BRANCH ^ n))"
| "pages _ _ i = None"

lemma node_ok_0: "node_ok 0 c \<Longrightarrow> \<exists>p. c = Leaf p"
  by (cases c) auto

lemma node_ok_Suc: "node_ok (Suc n) c \<Longrightarrow> \<exists>cs. c = Branch cs \<and> length cs = BRANCH \<and> (\<forall>i < BRANCH. \<forall>d. cs ! i = Some d \<longrightarrow> node_ok n d)"
  by (cases c) (auto, metis nth_mem)

lemma child_index_less: "i < BRANCH ^ Suc n \<Longrightarrow> i div BRANCH ^ n < BRANCH"
  by (simp add: less_mult_imp_div_less)

lemma node_ok_empty [simp]: "node_ok (Suc n) empty_branch"
  by (auto simp: empty_branch_def)

lemma pages_empty [simp]: "i < BRANCH ^ Suc n \<Longrightarrow> pages (Suc n) empty_branch i = None"
  using child_index_less by (simp add: empty_branch_def)

lemma node_ok_update:
  "node_ok (Suc n) (Branch cs) \<Longrightarrow> (\<And>d. c = Some d \<Longrightarrow> node_ok n d) \<Longrightarrow> node_ok (Suc n) (Branch (cs[i := c]))"
  by (auto dest: set_update_subset_insert [THEN subsetD])

lemma page_pages:
  "node_ok (Suc n) node \<Longrightarrow> n < max_levels \<Longrightarrow> i < BRANCH ^ Suc n \<Longrightarrow> page node (Suc n) i = Inr (pages (Suc n) node i)"
proof (induction n arbitrary: node i)
  case 0
  then obtain cs where cs: "node = Branch cs" "length cs = BRANCH" "\<And>i d. i < BRANCH \<Longrightarrow> cs ! i = Some d \<Longrightarrow> node_ok 0 d"
    using node_ok_Suc by blast
  have i: "i < BRANCH" using 0 by simp
  show ?case
  proof (cases "cs ! i")
    case (Some c)
    then obtain p where "c = Leaf p" using cs(3) [OF i] node_ok_0 by blast
    then show ?thesis using Some i cs(1,2) by (simp add: page_capacity_def Let_def)
  qed (use i cs(1,2) in \<open>simp add: page_capacity_def Let_def\<close>)
next
  case (Suc n)
  obtain cs where cs: "node = Branch cs" "length cs = BRANCH"
    "\<And>i d. i < BRANCH \<Longrightarrow> cs ! i = Some d \<Longrightarrow> node_ok (Suc n) d"
    using node_ok_Suc [OF Suc.prems(1)] by blast
  have cap: "page_capacity (Suc n) = BRANCH ^ Suc n" using Suc.prems by (intro page_capacity_pow) simp
  have ci: "i div BRANCH ^ Suc n < BRANCH" using Suc.prems(3) by (rule child_index_less)
  have m: "i mod BRANCH ^ Suc n < BRANCH ^ Suc n" by simp
  show ?case
    using Suc.IH [OF cs(3) [OF ci] _ m] Suc.prems(2) ci cs(1,2)
    by (auto simp: cap Let_def simp del: power_Suc split: option.splits)
qed

lemma set_page_level1:
  "length cs = BRANCH \<Longrightarrow> i < BRANCH \<Longrightarrow>
    set_page (Branch cs) (Suc 0) i p = Inr (Branch (cs[i := map_option Leaf p]))"
  by (subst set_page.simps) (simp add: page_capacity_def Let_def)

lemma set_page_level:
  assumes "length cs = BRANCH" "Suc n \<le> max_levels" "i < BRANCH ^ Suc (Suc n)"
  shows "set_page (Branch cs) (Suc (Suc n)) i p =
    res_bind (set_page (case cs ! (i div BRANCH ^ Suc n) of None \<Rightarrow> empty_branch | Some c \<Rightarrow> c)
        (Suc n) (i mod BRANCH ^ Suc n) p)
      (\<lambda>c. Inr (Branch (cs[i div BRANCH ^ Suc n := Some c])))"
  using child_index_less [OF assms(3)] assms(1)
  by (subst set_page.simps) (simp add: page_capacity_pow [OF assms(2)] Let_def del: power_Suc)

lemma set_page_pages:
  "node_ok (Suc n) node \<Longrightarrow> n < max_levels \<Longrightarrow> i < BRANCH ^ Suc n \<Longrightarrow>
    \<exists>node'. set_page node (Suc n) i p = Inr node' \<and> node_ok (Suc n) node'
      \<and> (\<forall>j < BRANCH ^ Suc n. pages (Suc n) node' j = (if j = i then p else pages (Suc n) node j))"
proof (induction n arbitrary: node i)
  case 0
  then obtain cs where cs: "node = Branch cs" "length cs = BRANCH"
    using node_ok_Suc by blast
  have i: "i < BRANCH" using 0 by simp
  have "node_ok (Suc 0) (Branch (cs[i := map_option Leaf p]))"
    using 0(1) cs by (intro node_ok_update) auto
  then show ?case
    using i cs by (auto simp: set_page_level1 nth_list_update split: option.splits)
next
  case (Suc n)
  obtain cs where cs: "node = Branch cs" "length cs = BRANCH"
    "\<And>i d. i < BRANCH \<Longrightarrow> cs ! i = Some d \<Longrightarrow> node_ok (Suc n) d"
    using node_ok_Suc [OF Suc.prems(1)] by blast
  define ci where "ci = i div BRANCH ^ Suc n"
  have ci: "ci < BRANCH" using child_index_less [OF Suc.prems(3)] by (simp add: ci_def)
  define child where "child = (case cs ! ci of None \<Rightarrow> empty_branch | Some c \<Rightarrow> c)"
  have child: "node_ok (Suc n) child"
    using cs(3) [OF ci] by (auto simp: child_def split: option.splits)
  obtain c' where c': "set_page child (Suc n) (i mod BRANCH ^ Suc n) p = Inr c'" "node_ok (Suc n) c'"
    "\<And>j. j < BRANCH ^ Suc n \<Longrightarrow> pages (Suc n) c' j = (if j = i mod BRANCH ^ Suc n then p else pages (Suc n) child j)"
    using Suc.IH [OF child Suc_lessD [OF Suc.prems(2)], of "i mod BRANCH ^ Suc n"] BRANCH_pos
    by (metis mod_less_divisor zero_less_power)
  have run: "set_page node (Suc (Suc n)) i p = Inr (Branch (cs[ci := Some c']))"
    using set_page_level [OF cs(2) _ Suc.prems(3)] Suc.prems(2) c'(1)
    by (simp add: cs(1) ci_def child_def del: power_Suc)
  have ok: "node_ok (Suc (Suc n)) (Branch (cs[ci := Some c']))"
    using Suc.prems(1) cs(1) c'(2) by (intro node_ok_update) auto
  have "pages (Suc (Suc n)) (Branch (cs[ci := Some c'])) j = (if j = i then p else pages (Suc (Suc n)) node j)"
    if j: "j < BRANCH ^ Suc (Suc n)" for j
  proof (cases "j div BRANCH ^ Suc n = ci")
    case True
    have "j = i \<longleftrightarrow> j mod BRANCH ^ Suc n = i mod BRANCH ^ Suc n"
      using div_mult_mod_eq [of i "BRANCH ^ Suc n"] div_mult_mod_eq [of j "BRANCH ^ Suc n"]
      unfolding True ci_def [symmetric] by (metis add_left_cancel)
    moreover have "pages (Suc (Suc n)) node j = pages (Suc n) child (j mod BRANCH ^ Suc n)"
      unfolding cs(1) pages.simps(2) [of "Suc n"] True child_def
      by (cases "cs ! ci") (simp_all del: power_Suc pages.simps(2))
    moreover have "pages (Suc (Suc n)) (Branch (cs[ci := Some c'])) j = pages (Suc n) c' (j mod BRANCH ^ Suc n)"
      unfolding pages.simps(2) [of "Suc n"] True using ci cs(2) by simp
    ultimately show ?thesis
      using c'(3) [of "j mod BRANCH ^ Suc n"] by simp
  next
    case False
    then have "j \<noteq> i" by (auto simp: ci_def)
    with False show ?thesis by (simp add: cs(1) del: power_Suc)
  qed
  then show ?case
    by (intro exI [of _ "Branch (cs[ci := Some c'])"] conjI run ok allI impI)
qed

lemma grow_pages:
  assumes "node_ok n root" "i < BRANCH ^ Suc n"
  shows "pages (Suc n) (Branch ((replicate BRANCH None)[0 := Some root])) i
    = (if i < BRANCH ^ n then pages n root i else None)"
proof (cases "i < BRANCH ^ n")
  case True
  then have "i div BRANCH ^ n = 0" by simp
  with True show ?thesis by simp
next
  case False
  then have "i div BRANCH ^ n \<noteq> 0" by (simp add: div_eq_0_iff)
  with False child_index_less [OF assms(2)] show ?thesis by simp
qed

lemma node_ok_grow: "node_ok n root \<Longrightarrow> node_ok (Suc n) (Branch ((replicate BRANCH None)[0 := Some root]))"
  by (auto dest: set_update_subset_insert [THEN subsetD])

section \<open>Vectors represent lists\<close>

definition list_page :: "'a list \<Rightarrow> nat \<Rightarrow> 'a list option" where
  "list_page xs i = (if i * PAGE < length xs then Some (take PAGE (drop (i * PAGE) xs)) else None)"

text \<open>
  A vector with \<open>Suc n\<close> levels represents the list whose pages its tree holds. Its length is an address
  and its cache, when filled, is the list.
\<close>

definition tree_rep :: "nat \<Rightarrow> 'a vec_node \<Rightarrow> 'a list \<Rightarrow> bool" where
  "tree_rep n root xs \<longleftrightarrow> node_ok (Suc n) root \<and> n < max_levels \<and> length xs \<le> BRANCH ^ Suc n * PAGE
     \<and> (\<forall>i < BRANCH ^ Suc n. pages (Suc n) root i = list_page xs i)"

definition vec_rep :: "'a persistent_vec \<Rightarrow> 'a list \<Rightarrow> bool" where
  "vec_rep v xs \<longleftrightarrow> (\<exists>n. vec_levels v = Suc n \<and> tree_rep n (vec_root v) xs)
     \<and> vec_len v = length xs \<and> length xs \<le> usize_max
     \<and> (contiguous_cache v = None \<or> contiguous_cache v = Some xs)"

lemma vec_repE:
  assumes "vec_rep v xs"
  obtains n where "vec_levels v = Suc n" "tree_rep n (vec_root v) xs" "vec_len v = length xs"
    "length xs \<le> usize_max"
  using assms by (auto simp: vec_rep_def)

lemma vec_rep_clear: "vec_rep v xs \<Longrightarrow> vec_rep (clear_cache v) xs"
  by (simp add: vec_rep_def clear_cache_def)

lemma vec_rep_default: "vec_rep vec_default []"
  by (auto simp: vec_rep_def vec_default_def tree_rep_def list_page_def max_levels_def usize_max_def)

lemma page_in_tree: "i < length xs \<Longrightarrow> length xs \<le> c * PAGE \<Longrightarrow> i div PAGE < c"
  by (metis less_le_trans less_mult_imp_div_less)

lemma div_page_less: "i < length xs \<Longrightarrow> i div PAGE * PAGE < length xs"
  by (metis div_times_less_eq_dividend le_less_trans)

lemma vec_page_rep:
  assumes "vec_rep v xs" "i < BRANCH ^ vec_levels v"
  shows "vec_page v i = Inr (list_page xs i)"
proof -
  from assms(1) obtain n where n: "vec_levels v = Suc n" "tree_rep n (vec_root v) xs" by (rule vec_repE)
  have i: "i < BRANCH ^ Suc n" using assms(2) n(1) by simp
  show ?thesis
    using n page_pages [of n "vec_root v" i] i unfolding vec_page_def tree_rep_def by simp
qed

lemma vec_page_at:
  assumes "vec_rep v xs" "i < length xs"
  shows "vec_page v (i div PAGE) = Inr (Some (take PAGE (drop (i div PAGE * PAGE) xs)))"
    "expect_page v (i div PAGE) = Inr (take PAGE (drop (i div PAGE * PAGE) xs))"
    "i mod PAGE < length (take PAGE (drop (i div PAGE * PAGE) xs))"
    "take PAGE (drop (i div PAGE * PAGE) xs) ! (i mod PAGE) = xs ! i"
proof -
  have "i div PAGE < BRANCH ^ vec_levels v"
    using assms by (auto simp: vec_rep_def tree_rep_def intro: page_in_tree)
  then show pg: "vec_page v (i div PAGE) = Inr (Some (take PAGE (drop (i div PAGE * PAGE) xs)))"
    using vec_page_rep [OF assms(1)] div_page_less [OF assms(2)] by (simp add: list_page_def)
  then show "expect_page v (i div PAGE) = Inr (take PAGE (drop (i div PAGE * PAGE) xs))"
    by (simp add: expect_page_def)
  have le: "i mod PAGE < length xs - i div PAGE * PAGE"
    using assms(2) div_mult_mod_eq [of i PAGE] by linarith
  then show "i mod PAGE < length (take PAGE (drop (i div PAGE * PAGE) xs))" by simp
  show "take PAGE (drop (i div PAGE * PAGE) xs) ! (i mod PAGE) = xs ! i"
    using le assms(2) by (simp add: nth_drop div_mult_mod_eq)
qed

lemma vec_get_rep: "vec_rep v xs \<Longrightarrow> vec_get v i = Inr (get_vec xs i)"
  using vec_page_at [of v xs i] by (auto simp: vec_get_def vec_rep_def get_vec_def)

lemma vec_index_rep: "vec_rep v xs \<Longrightarrow> vec_index v i = (if i < length xs then Inr (xs ! i) else Inl Panic)"
  by (simp add: vec_index_def vec_get_rep get_vec_def)

text \<open>
  Writing one page: the tree then represents any list that has this page there and the old pages
  everywhere else.
\<close>

lemma write_page_tree:
  assumes "vec_levels v = Suc n" "node_ok (Suc n) (vec_root v)" "n < max_levels" "i < BRANCH ^ Suc n"
    "length ys \<le> BRANCH ^ Suc n * PAGE"
    "\<And>j. j < BRANCH ^ Suc n \<Longrightarrow> j \<noteq> i \<Longrightarrow> pages (Suc n) (vec_root v) j = list_page ys j" "p = list_page ys i"
  shows "\<exists>root. write_page v i p = Inr (v\<lparr>vec_root := root\<rparr>) \<and> tree_rep n root ys"
proof -
  obtain root where "set_page (vec_root v) (Suc n) i p = Inr root" "node_ok (Suc n) root"
    "\<And>j. j < BRANCH ^ Suc n \<Longrightarrow> pages (Suc n) root j = (if j = i then p else pages (Suc n) (vec_root v) j)"
    using set_page_pages [OF assms(2-4), of p] by blast
  then show ?thesis
    using assms by (auto simp: write_page_def tree_rep_def)
qed

lemma write_page_rep:
  assumes "vec_rep v xs" "contiguous_cache v = None" "i < BRANCH ^ vec_levels v"
    "length ys \<le> BRANCH ^ vec_levels v * PAGE" "length ys \<le> usize_max"
    "\<And>j. j \<noteq> i \<Longrightarrow> list_page ys j = list_page xs j" "p = list_page ys i"
  shows "\<exists>root. write_page v i p = Inr (v\<lparr>vec_root := root\<rparr>) \<and> vec_rep (v\<lparr>vec_root := root, vec_len := length ys\<rparr>) ys"
proof -
  from assms(1) obtain n where n: "vec_levels v = Suc n" "tree_rep n (vec_root v) xs" by (rule vec_repE)
  obtain root where "write_page v i p = Inr (v\<lparr>vec_root := root\<rparr>)" "tree_rep n root ys"
    using write_page_tree [OF n(1), of i ys p] n assms(3-7) by (auto simp: tree_rep_def simp del: power_Suc)
  then show ?thesis using n(1) assms(2,5) by (auto simp: vec_rep_def)
qed


section \<open>Growing the tree\<close>

lemma tree_rep_grow:
  assumes "tree_rep n root xs" "Suc n < max_levels"
  shows "tree_rep (Suc n) (Branch ((replicate BRANCH None)[0 := Some root])) xs"
proof -
  let ?c = "BRANCH ^ Suc n"
  have len: "length xs \<le> ?c * PAGE" and ok: "node_ok (Suc n) root"
    using assms(1) by (auto simp: tree_rep_def)
  have "pages (Suc (Suc n)) (Branch ((replicate BRANCH None)[0 := Some root])) i = list_page xs i"
    if i: "i < BRANCH ^ Suc (Suc n)" for i
  proof (cases "i < ?c")
    case True
    then show ?thesis using assms(1) grow_pages [OF ok i] by (simp add: tree_rep_def del: power_Suc pages.simps)
  next
    case False
    then have "?c * PAGE \<le> i * PAGE" by (intro mult_le_mono1) simp
    with len have "length xs \<le> i * PAGE" by (rule order.trans)
    then have "list_page xs i = None" by (simp add: list_page_def)
    with False show ?thesis using grow_pages [OF ok i] by (simp del: power_Suc pages.simps)
  qed
  moreover have "length xs \<le> BRANCH ^ Suc (Suc n) * PAGE"
    using len by (rule order.trans) (simp add: BRANCH_def)
  ultimately show ?thesis
    using node_ok_grow [OF ok] assms(2) by (simp add: tree_rep_def del: power_Suc pages.simps node_ok.simps)
qed

lemma grow_ok:
  "tree_rep n root xs \<Longrightarrow> i < BRANCH ^ max_levels \<Longrightarrow>
    \<exists>root' n'. grow i root (Suc n) = Some (root', Suc n') \<and> tree_rep n' root' xs \<and> i < BRANCH ^ Suc n'"
proof (induction "max_levels - n" arbitrary: n root)
  case 0
  then show ?case by (simp add: tree_rep_def)
next
  case (Suc k)
  have cap: "page_capacity (Suc n) = BRANCH ^ Suc n"
    using Suc.prems(1) by (intro page_capacity_pow) (simp add: tree_rep_def)
  show ?case
  proof (cases "i < BRANCH ^ Suc n")
    case True
    then have "grow i root (Suc n) = Some (root, Suc n)"
      by (subst grow.simps) (simp add: cap del: power_Suc)
    with True Suc.prems(1) show ?thesis by blast
  next
    case False
    then have "BRANCH ^ Suc n < BRANCH ^ max_levels" using Suc.prems(2) by linarith
    then have lt: "Suc n < max_levels" by (rule power_less_imp_less_exp [rotated]) (simp add: BRANCH_def)
    have "grow i root (Suc n) = grow i (Branch ((replicate BRANCH None)[0 := Some root])) (Suc (Suc n))"
      using False by (subst grow.simps) (simp add: cap del: power_Suc)
    then show ?thesis
      using Suc.hyps(1) [of "Suc n", OF _ tree_rep_grow [OF Suc.prems(1) lt] Suc.prems(2)] Suc.hyps(2) lt by auto
  qed
qed

lemma ensure_page_capacity_rep:
  assumes "vec_rep v xs" "i \<le> length xs div PAGE"
  obtains v' where "ensure_page_capacity v i = Inr v'" "vec_rep v' xs" "i < BRANCH ^ vec_levels v'"
    "contiguous_cache v' = contiguous_cache v"
proof -
  from assms(1) obtain n where n: "vec_levels v = Suc n" "tree_rep n (vec_root v) xs"
    and len: "length xs \<le> usize_max" by (rule vec_repE)
  have "i \<le> usize_max div PAGE" using assms(2) len by (meson div_le_mono order.trans)
  then have "i < BRANCH ^ max_levels" by (simp add: usize_max_def PAGE_def BRANCH_def max_levels_def)
  then obtain root' n' where g: "grow i (vec_root v) (Suc n) = Some (root', Suc n')" "tree_rep n' root' xs"
    "i < BRANCH ^ Suc n'"
    using grow_ok [OF n(2)] by blast
  show thesis
    using g n assms(1)
    by (intro that [of "v\<lparr>vec_root := root', vec_levels := Suc n'\<rparr>"])
      (auto simp: ensure_page_capacity_def vec_rep_def)
qed

section \<open>Segments\<close>

definition seg :: "'a list \<Rightarrow> nat \<Rightarrow> 'a list" where
  "seg xs j = take PAGE (drop (j * PAGE) xs)"

lemma list_page_seg: "list_page xs j = (if seg xs j = [] then None else Some (seg xs j))"
  by (auto simp: list_page_def seg_def)

lemma length_seg: "length (seg xs j) = min PAGE (length xs - j * PAGE)"
  by (simp add: seg_def min.commute)

lemma nth_seg: "k < PAGE \<Longrightarrow> j * PAGE + k < length xs \<Longrightarrow> seg xs j ! k = xs ! (j * PAGE + k)"
  by (simp add: seg_def)

lemma seg_eqI:
  assumes "length ys = min PAGE (length xs - j * PAGE)"
    "\<And>k. k < PAGE \<Longrightarrow> j * PAGE + k < length xs \<Longrightarrow> xs ! (j * PAGE + k) = ys ! k"
  shows "seg xs j = ys"
  by (rule nth_equalityI) (use assms in \<open>auto simp: length_seg nth_seg\<close>)

lemma page_pos_iff: "k < PAGE \<Longrightarrow> j * PAGE + k = i \<longleftrightarrow> j = i div PAGE \<and> k = i mod PAGE"
  by (auto simp: div_mult_mod_eq)

lemma seg_offset:
  assumes "i < length xs"
  shows "i mod PAGE < length (seg xs (i div PAGE))" "seg xs (i div PAGE) ! (i mod PAGE) = xs ! i"
    "seg xs (i div PAGE) \<noteq> []"
proof -
  have "i mod PAGE < length xs - i div PAGE * PAGE"
    using assms div_mult_mod_eq [of i PAGE] by linarith
  then show lt: "i mod PAGE < length (seg xs (i div PAGE))" by (simp add: length_seg)
  then show "seg xs (i div PAGE) \<noteq> []" by auto
  show "seg xs (i div PAGE) ! (i mod PAGE) = xs ! i"
    using assms by (simp add: nth_seg div_mult_mod_eq)
qed

lemma seg_update:
  assumes "i < length xs"
  shows "seg (xs[i := x]) j = (if j = i div PAGE then (seg xs j)[i mod PAGE := x] else seg xs j)"
proof (rule seg_eqI)
  fix k assume k: "k < PAGE" "j * PAGE + k < length (xs[i := x])"
  have "i = j * PAGE + k \<longleftrightarrow> j = i div PAGE \<and> k = i mod PAGE" using page_pos_iff [OF k(1), of j i] by auto
  with k assms show "xs[i := x] ! (j * PAGE + k) = (if j = i div PAGE then (seg xs j)[i mod PAGE := x] else seg xs j) ! k"
    using seg_offset(1) [OF assms] by (auto simp: nth_list_update nth_seg)
qed (simp add: length_seg)

lemma seg_append:
  assumes "length zs \<le> PAGE - length xs mod PAGE"
  shows "seg (xs @ zs) j = (if j = length xs div PAGE then seg xs j @ zs else seg xs j)"
proof -
  have split: "length xs = length xs div PAGE * PAGE + length xs mod PAGE" by simp
  have "length xs mod PAGE < PAGE" by simp
  consider "j < length xs div PAGE" | "j = length xs div PAGE" | "length xs div PAGE < j" by linarith
  then show ?thesis
  proof cases
    case 1
    then have "Suc j * PAGE \<le> length xs div PAGE * PAGE" by (intro mult_le_mono1) simp
    with split have "Suc j * PAGE \<le> length xs" by linarith
    with 1 show ?thesis by (simp add: seg_def)
  next
    case 2
    have "length (drop (j * PAGE) xs) = length xs mod PAGE"
      using 2 split by (simp add: minus_div_mult_eq_mod)
    then show ?thesis
      using 2 assms split by (simp add: seg_def)
  next
    case 3
    then have "Suc (length xs div PAGE) * PAGE \<le> j * PAGE" by (intro mult_le_mono1) simp
    then have "length xs div PAGE * PAGE + PAGE \<le> j * PAGE" by simp
    with split assms \<open>length xs mod PAGE < PAGE\<close> have "length xs + length zs \<le> j * PAGE" by linarith
    with 3 show ?thesis by (simp add: seg_def)
  qed
qed

lemma seg_take: "seg (take n xs) j = take (n - j * PAGE) (seg xs j)"
  by (simp add: seg_def drop_take take_take min.commute)

end
