(* ===== verification/Persistent_Vec_Ops.thy ===== *)
theory Persistent_Vec_Ops
  imports Persistent_Vec_Tree
begin

text \<open>
  The operations that rewrite one page or loop over the pages of a \<open>PersistentVec\<close>: \<open>set\<close>, \<open>push\<close>,
  \<open>pop\<close>, \<open>from_vec\<close>, \<open>truncate\<close> and \<open>remove\<close>, each shown to act on the represented list.
\<close>

section \<open>Single pages\<close>

lemmas vec_at = vec_page_at [folded seg_def]

lemma vec_rep_len: "vec_rep v xs \<Longrightarrow> vec_len v = length xs"
  by (simp add: vec_rep_def)

lemma vec_rep_capacity: "vec_rep v xs \<Longrightarrow> length xs \<le> BRANCH ^ vec_levels v * PAGE"
  by (auto simp: vec_rep_def tree_rep_def)

lemma vec_rep_bound: "vec_rep v xs \<Longrightarrow> length xs \<le> usize_max"
  by (simp add: vec_rep_def)

lemma clear_cache_simps [simp]:
  "vec_len (clear_cache v) = vec_len v" "contiguous_cache (clear_cache v) = None"
  "vec_levels (clear_cache v) = vec_levels v" "vec_root (clear_cache v) = vec_root v"
  "clear_cache v\<lparr>vec_root := vec_root v\<rparr> = clear_cache v"
  by (simp_all add: clear_cache_def)

lemma div_in_tree: "vec_rep v xs \<Longrightarrow> i < length xs \<Longrightarrow> i div PAGE < BRANCH ^ vec_levels v"
  using page_in_tree vec_rep_capacity by blast

text \<open>A write that changes the list only inside one page.\<close>

lemma write_seg_rep:
  assumes "vec_rep v xs" "contiguous_cache v = None" "i < BRANCH ^ vec_levels v"
    "length ys \<le> BRANCH ^ vec_levels v * PAGE" "length ys \<le> usize_max"
    "\<And>j. j \<noteq> i \<Longrightarrow> seg ys j = seg xs j" "p = (if seg ys i = [] then None else Some (seg ys i))"
  obtains root where "write_page v i p = Inr (v\<lparr>vec_root := root\<rparr>)" "vec_rep (v\<lparr>vec_root := root, vec_len := length ys\<rparr>) ys"
proof -
  have "list_page ys j = list_page xs j" if "j \<noteq> i" for j
    using assms(6) [OF that] by (simp add: list_page_seg)
  with write_page_rep [OF assms(1-5), of p] assms(7) show thesis
    by (metis list_page_seg that)
qed

lemma write_seg_same:
  assumes "vec_rep v xs" "contiguous_cache v = None" "i < BRANCH ^ vec_levels v" "length ys = length xs"
    "\<And>j. j \<noteq> i \<Longrightarrow> seg ys j = seg xs j" "seg ys i \<noteq> []"
  obtains root where "write_page v i (Some (seg ys i)) = Inr (v\<lparr>vec_root := root\<rparr>)" "vec_rep (v\<lparr>vec_root := root\<rparr>) ys"
proof -
  have "length ys \<le> BRANCH ^ vec_levels v * PAGE" "length ys \<le> usize_max"
    using vec_rep_capacity [OF assms(1)] vec_rep_bound [OF assms(1)] assms(4) by simp_all
  then obtain root where root: "write_page v i (Some (seg ys i)) = Inr (v\<lparr>vec_root := root\<rparr>)"
    "vec_rep (v\<lparr>vec_root := root, vec_len := length ys\<rparr>) ys"
    using write_seg_rep [OF assms(1-3) _ _ assms(5), of "Some (seg ys i)"] assms(6) by auto
  have "v\<lparr>vec_root := root, vec_len := length ys\<rparr> = v\<lparr>vec_root := root\<rparr>"
    using vec_rep_len [OF assms(1)] assms(4) by simp
  with root show thesis using that by simp
qed
lemma vec_set_rep:
  assumes "vec_rep v xs"
  shows "if i < length xs then \<exists>v'. vec_set v i x = Inr v' \<and> vec_rep v' (xs[i := x]) else vec_set v i x = Inl Panic"
proof (cases "i < length xs")
  case True
  note rep = vec_rep_clear [OF assms]
  have ne: "seg (xs[i := x]) (i div PAGE) \<noteq> []" using seg_offset(3) [OF True] by (simp add: seg_update [OF True])
  obtain root where "write_page (clear_cache v) (i div PAGE) (Some ((seg xs (i div PAGE))[i mod PAGE := x]))
      = Inr (clear_cache v\<lparr>vec_root := root\<rparr>)" "vec_rep (clear_cache v\<lparr>vec_root := root\<rparr>) (xs[i := x])"
    using write_seg_same [OF rep _ _ _ _ ne] div_in_tree [OF rep True] by (auto simp: seg_update [OF True])
  then show ?thesis
    using True vec_at(2,3) [OF rep True] vec_rep_len [OF assms] by (simp add: vec_set_def Let_def)
qed (simp add: vec_set_def vec_rep_len [OF assms])

lemma vec_push_rep:
  assumes "vec_rep v xs" "length xs < usize_max"
  shows "\<exists>v'. vec_push v x = Inr v' \<and> vec_rep v' (xs @ [x])"
proof -
  let ?i = "length xs div PAGE"
  note rep = vec_rep_clear [OF assms(1)]
  obtain v1 where v1: "ensure_page_capacity (clear_cache v) ?i = Inr v1" "vec_rep v1 xs" "?i < BRANCH ^ vec_levels v1"
    "contiguous_cache v1 = None"
    using ensure_page_capacity_rep [OF rep, of ?i] by auto
  have room: "length [x] \<le> PAGE - length xs mod PAGE" by (simp add: Suc_le_eq)
  note seg = seg_append [OF room]
  have "length xs < BRANCH ^ vec_levels v1 * PAGE"
    using v1(3) by (simp add: div_less_iff_less_mult)
  then obtain root where w: "write_page v1 ?i (Some (seg xs ?i @ [x])) = Inr (v1\<lparr>vec_root := root\<rparr>)"
    "vec_rep (v1\<lparr>vec_root := root, vec_len := length (xs @ [x])\<rparr>) (xs @ [x])"
    using write_seg_rep [OF v1(2,4,3), of "xs @ [x]"] assms(2) by (auto simp: seg)
  have load: "(if length xs mod PAGE = 0 then Inr [] else expect_page v1 ?i) = Inr (seg xs ?i)"
  proof (cases "length xs mod PAGE = 0")
    case True
    then show ?thesis by (auto simp: seg_def)
  next
    case False
    then have "?i * PAGE < length xs" by (metis div_mult_mod_eq gr_zeroI less_add_same_cancel1)
    then have "vec_page v1 ?i = Inr (Some (seg xs ?i))"
      using vec_page_rep [OF v1(2,3)] by (simp add: list_page_def seg_def)
    with False show ?thesis by (simp add: expect_page_def)
  qed
  show ?thesis
    unfolding vec_push_def Let_def clear_cache_simps vec_rep_len [OF assms(1)] v1(1) res_bind_simps load w(1)
    using w(2) vec_rep_len [OF v1(2)] by simp
qed

lemma vec_pop_last_rep:
  assumes "vec_rep v xs" "xs \<noteq> []"
  shows "\<exists>v'. vec_pop_last v = Inr (v', last xs) \<and> vec_rep v' (butlast xs)"
proof -
  let ?i = "(length xs - 1) div PAGE" and ?ys = "butlast xs"
  note rep = vec_rep_clear [OF assms(1)]
  have lt: "length xs - 1 < length xs" using assms(2) by simp
  have xs: "xs = ?ys @ [last xs]" using assms(2) by simp
  have "length [last xs] \<le> PAGE - length ?ys mod PAGE" by (simp add: Suc_le_eq)
  from seg_append [OF this] have seg: "seg xs j = (if j = ?i then seg ?ys j @ [last xs] else seg ?ys j)" for j
    using xs by (metis length_butlast)
  have lvl: "?i < BRANCH ^ vec_levels (clear_cache v)" using div_in_tree [OF rep lt] .
  have size: "length ?ys \<le> BRANCH ^ vec_levels (clear_cache v) * PAGE" "length ?ys \<le> usize_max"
    using vec_rep_capacity [OF rep] vec_rep_bound [OF rep] by simp_all
  have other: "j \<noteq> ?i \<Longrightarrow> seg ?ys j = seg xs j" for j by (simp add: seg)
  obtain root where w: "write_page (clear_cache v) ?i (if seg ?ys ?i = [] then None else Some (seg ?ys ?i))
      = Inr (clear_cache v\<lparr>vec_root := root\<rparr>)"
    "vec_rep (clear_cache v\<lparr>vec_root := root, vec_len := length ?ys\<rparr>) ?ys"
    using write_seg_rep [OF rep clear_cache_simps(2) lvl size other refl] .
  have "expect_page (clear_cache v) ?i = Inr (seg ?ys ?i @ [last xs])"
    using vec_at(2) [OF rep lt] by (simp add: seg)
  then show ?thesis
    using w vec_rep_len [OF assms(1)] assms(2) by (auto simp: vec_pop_last_def Let_def)
qed

lemma vec_pop_rep:
  assumes "vec_rep v xs"
  shows "if xs = [] then vec_pop v = Inr (v, None)
    else \<exists>v'. vec_pop v = Inr (v', Some (last xs)) \<and> vec_rep v' (butlast xs)"
  using vec_pop_last_rep [OF assms] vec_rep_len [OF assms] by (auto simp: vec_pop_def)

lemma write_page_len:
  "write_page v i p = Inr (v\<lparr>vec_root := r\<rparr>) \<Longrightarrow> write_page (v\<lparr>vec_len := n\<rparr>) i p = Inr (v\<lparr>vec_root := r, vec_len := n\<rparr>)"
  by (cases v) (auto simp: write_page_def result_simps)

lemma append_page_rep:
  assumes "vec_rep v xs" "length xs mod PAGE = 0" "p \<noteq> []" "length p \<le> PAGE" "length xs + length p \<le> usize_max"
  shows "\<exists>v'. append_page v p = Inr v' \<and> vec_rep v' (xs @ p)"
proof -
  let ?i = "length xs div PAGE"
  note rep = vec_rep_clear [OF assms(1)]
  obtain v1 where v1: "ensure_page_capacity (clear_cache v) ?i = Inr v1" "vec_rep v1 xs" "?i < BRANCH ^ vec_levels v1"
    "contiguous_cache v1 = None"
    using ensure_page_capacity_rep [OF rep, of ?i] by auto
  have room: "length p \<le> PAGE - length xs mod PAGE" using assms(2,4) by simp
  have eq: "length xs = ?i * PAGE" using assms(2) by auto
  have empty: "seg xs ?i = []" using eq by (simp add: seg_def)
  have seg: "seg (xs @ p) j = (if j = ?i then p else seg xs j)" for j
    using seg_append [OF room] empty by simp
  have "Suc ?i * PAGE \<le> BRANCH ^ vec_levels v1 * PAGE" using v1(3) by (intro mult_le_mono1) simp
  then have size: "length (xs @ p) \<le> BRANCH ^ vec_levels v1 * PAGE"
    using assms(4) eq by simp
  obtain root where w: "write_page v1 ?i (Some p) = Inr (v1\<lparr>vec_root := root\<rparr>)"
    "vec_rep (v1\<lparr>vec_root := root, vec_len := length (xs @ p)\<rparr>) (xs @ p)"
    using write_seg_rep [OF v1(2,4,3) size _ _, of "Some p"] assms(3,5) by (auto simp: seg)
  then show ?thesis
    using v1(1) vec_rep_len [OF assms(1)] vec_rep_len [OF v1(2)]
    by (simp add: append_page_def Let_def write_page_len)
qed

lemma from_vec_loop_rep:
  assumes "vec_rep out ys" "length ys mod PAGE = 0" "length pg < PAGE"
    "length ys + length pg + length xs \<le> usize_max"
  shows "\<exists>out' ys' pg'. from_vec_loop xs pg out = Inr (out', pg') \<and> vec_rep out' ys' \<and> length ys' mod PAGE = 0
    \<and> length pg' < PAGE \<and> ys' @ pg' = ys @ pg @ xs"
  using assms
proof (induction xs arbitrary: ys pg out)
  case (Cons x xs)
  show ?case
  proof (cases "length (pg @ [x]) = PAGE")
    case True
    obtain out1 where "append_page out (pg @ [x]) = Inr out1" "vec_rep out1 (ys @ pg @ [x])"
      using append_page_rep [OF Cons.prems(1,2), of "pg @ [x]"] True Cons.prems(4) by auto
    moreover have "length (ys @ pg @ [x]) mod PAGE = 0"
      using True Cons.prems(2) by (metis append.assoc length_append mod_add_self2)
    ultimately show ?thesis
      using Cons.IH [of out1 "ys @ pg @ [x]" "[]"] Cons.prems(4) True by simp
  next
    case False
    then show ?thesis
      using Cons.IH [OF Cons.prems(1,2), of "pg @ [x]"] Cons.prems(3,4) by simp
  qed
qed auto

lemma from_vec_rep:
  assumes "length xs \<le> usize_max"
  shows "\<exists>v. from_vec xs = Inr v \<and> vec_rep v xs"
proof -
  obtain out ys pg where o: "from_vec_loop xs [] vec_default = Inr (out, pg)" "vec_rep out ys"
    "length ys mod PAGE = 0" "length pg < PAGE" "ys @ pg = xs"
    using from_vec_loop_rep [OF vec_rep_default, of "[]" xs] assms by auto
  show ?thesis
  proof (cases "pg = []")
    case False
    then have "\<exists>v'. append_page out pg = Inr v' \<and> vec_rep v' (ys @ pg)"
      using o assms by (intro append_page_rep) auto
    with False o show ?thesis by (simp add: from_vec_def)
  qed (use o in \<open>simp add: from_vec_def\<close>)
qed

section \<open>Loops over pages\<close>

text \<open>In the middle of a loop the tree holds an arbitrary page map.\<close>

definition tree_map :: "'a persistent_vec \<Rightarrow> (nat \<Rightarrow> 'a list option) \<Rightarrow> bool" where
  "tree_map v f \<longleftrightarrow> (\<exists>n. vec_levels v = Suc n \<and> node_ok (Suc n) (vec_root v) \<and> n < max_levels
     \<and> (\<forall>i < BRANCH ^ Suc n. pages (Suc n) (vec_root v) i = f i))"

lemma vec_rep_tree_map:
  "vec_rep v xs \<longleftrightarrow> tree_map v (list_page xs) \<and> vec_len v = length xs \<and> length xs \<le> BRANCH ^ vec_levels v * PAGE
     \<and> length xs \<le> usize_max \<and> (contiguous_cache v = None \<or> contiguous_cache v = Some xs)"
  by (auto simp: vec_rep_def tree_map_def tree_rep_def simp del: power_Suc)

lemma tree_map_cong:
  "tree_map v f \<Longrightarrow> (\<And>i. i < BRANCH ^ vec_levels v \<Longrightarrow> f i = g i) \<Longrightarrow> tree_map v g"
  by (auto simp: tree_map_def simp del: power_Suc)

lemma vec_page_map:
  assumes "tree_map v f" "i < BRANCH ^ vec_levels v"
  shows "vec_page v i = Inr (f i)"
  using assms by (auto simp: tree_map_def vec_page_def page_pages simp del: power_Suc)

lemma write_page_map:
  assumes "tree_map v f" "i < BRANCH ^ vec_levels v"
  obtains root where "write_page v i p = Inr (v\<lparr>vec_root := root\<rparr>)" "tree_map (v\<lparr>vec_root := root\<rparr>) (f(i := p))"
proof -
  obtain n where n: "vec_levels v = Suc n" "node_ok (Suc n) (vec_root v)" "n < max_levels"
    "\<And>i. i < BRANCH ^ Suc n \<Longrightarrow> pages (Suc n) (vec_root v) i = f i"
    using assms(1) by (auto simp: tree_map_def)
  obtain root where r: "set_page (vec_root v) (Suc n) i p = Inr root" "node_ok (Suc n) root"
    "\<And>j. j < BRANCH ^ Suc n \<Longrightarrow> pages (Suc n) root j = (if j = i then p else pages (Suc n) (vec_root v) j)"
    using set_page_pages [OF n(2,3), of i p] assms(2) n(1) by (auto simp del: power_Suc)
  show thesis
    using r n by (intro that [of root]) (auto simp: write_page_def tree_map_def simp del: power_Suc)
qed

lemma erase_pages:
  assumes "tree_map v f" "\<And>i. i \<in> set is \<Longrightarrow> i < BRANCH ^ vec_levels v"
  shows "\<exists>root. for_fold (\<lambda>i v. write_page v i None) is v = Inr (v\<lparr>vec_root := root\<rparr>)
    \<and> tree_map (v\<lparr>vec_root := root\<rparr>) (\<lambda>i. if i \<in> set is then None else f i)"
  using assms
proof (induction "is" arbitrary: v f)
  case Nil
  then show ?case by (intro exI [of _ "vec_root v"]) simp
next
  case (Cons i "is")
  obtain root where r: "write_page v i None = Inr (v\<lparr>vec_root := root\<rparr>)" "tree_map (v\<lparr>vec_root := root\<rparr>) (f(i := None))"
    using write_page_map [OF Cons.prems(1)] Cons.prems(2) by (metis list.set_intros(1))
  obtain root' where "for_fold (\<lambda>i v. write_page v i None) is (v\<lparr>vec_root := root\<rparr>) = Inr (v\<lparr>vec_root := root'\<rparr>)"
    "tree_map (v\<lparr>vec_root := root'\<rparr>) (\<lambda>j. if j \<in> set is then None else (f(i := None)) j)"
    using Cons.IH [OF r(2)] Cons.prems(2) by auto
  then show ?case
    using r(1) by (auto intro!: exI [of _ root'] elim!: tree_map_cong)
qed

section \<open>Truncation\<close>

lemma seg_truncate:
  assumes "0 < n" "n < length xs"
  shows "j < (n - 1) div PAGE \<Longrightarrow> seg (take n xs) j = seg xs j"
    "n mod PAGE \<noteq> 0 \<Longrightarrow> seg (take n xs) ((n - 1) div PAGE) = take (n mod PAGE) (seg xs ((n - 1) div PAGE))"
    "n mod PAGE = 0 \<Longrightarrow> seg (take n xs) ((n - 1) div PAGE) = seg xs ((n - 1) div PAGE)"
    "(n - 1) div PAGE < j \<Longrightarrow> seg (take n xs) j = []"
proof -
  define k r where "k = (n - 1) div PAGE" and "r = (n - 1) mod PAGE"
  have n: "n = k * PAGE + (r + 1)" and r: "r + 1 \<le> PAGE"
    using assms(1) div_mult_mod_eq [of "n - 1" PAGE] mod_less_divisor [OF PAGE_pos, of "n - 1"]
    unfolding k_def r_def by linarith+
  have len: "length (seg xs j) \<le> PAGE" for j by (simp add: length_seg)
  have m: "n mod PAGE = (r + 1) mod PAGE" unfolding n by simp
  have nk: "n - k * PAGE = r + 1" using n by simp
  show "seg (take n xs) j = seg xs j" if "j < (n - 1) div PAGE"
  proof -
    have "Suc j * PAGE \<le> k * PAGE" using that unfolding k_def [symmetric] by (intro mult_le_mono1) simp
    then have "PAGE \<le> n - j * PAGE" using n by simp
    then show ?thesis using len [of j] by (simp add: seg_take)
  qed
  show "seg (take n xs) ((n - 1) div PAGE) = take (n mod PAGE) (seg xs ((n - 1) div PAGE))" if "n mod PAGE \<noteq> 0"
  proof -
    have "r + 1 < PAGE" using that r m by (metis le_neq_implies_less mod_self)
    then have "n mod PAGE = n - k * PAGE" using m nk by simp
    then show ?thesis unfolding k_def [symmetric] by (simp add: seg_take)
  qed
  show "seg (take n xs) ((n - 1) div PAGE) = seg xs ((n - 1) div PAGE)" if "n mod PAGE = 0"
  proof -
    have "r + 1 = PAGE" using that r m by (metis add_is_0 le_neq_implies_less mod_less one_neq_zero)
    then have "n - k * PAGE = PAGE" using nk by simp
    then show ?thesis unfolding k_def [symmetric] using len [of k] by (simp add: seg_take)
  qed
  show "seg (take n xs) j = []" if "(n - 1) div PAGE < j"
  proof -
    have "Suc k * PAGE \<le> j * PAGE" using that unfolding k_def [symmetric] by (intro mult_le_mono1) simp
    then have "n \<le> j * PAGE" using n r by simp
    then show ?thesis by (simp add: seg_take)
  qed
qed

lemma seg_beyond: "(length xs - 1) div PAGE < j \<Longrightarrow> seg xs j = []"
proof -
  assume "(length xs - 1) div PAGE < j"
  then have "Suc ((length xs - 1) div PAGE) * PAGE \<le> j * PAGE" by (intro mult_le_mono1) simp
  then have "length xs \<le> j * PAGE" using dividend_less_div_times [of PAGE "length xs - 1"] by simp
  then show ?thesis by (simp add: seg_def)
qed

lemma vec_truncate_rep:
  assumes "vec_rep v xs"
  shows "\<exists>v'. vec_truncate v n = Inr v' \<and> vec_rep v' (take n xs)"
proof -
  consider "length xs \<le> n" | "n = 0" "0 < length xs" | "0 < n" "n < length xs" by linarith
  then show ?thesis
  proof cases
    case 1
    then show ?thesis using assms by (simp add: vec_truncate_def vec_rep_len [OF assms])
  next
    case 2
    then show ?thesis
      using vec_rep_default by (simp add: vec_truncate_def vec_rep_len [OF assms] vec_rep_def vec_default_def)
  next
    case 3
    let ?v = "clear_cache v" and ?k = "(n - 1) div PAGE" and ?ys = "take n xs"
    note rep = vec_rep_clear [OF assms] and cut = seg_truncate [OF 3]
    have map: "tree_map ?v (list_page xs)" and size: "length xs \<le> BRANCH ^ vec_levels ?v * PAGE"
      using rep by (simp_all add: vec_rep_tree_map)
    have k: "?k < BRANCH ^ vec_levels ?v" "n - 1 < length xs"
      using 3 div_in_tree [OF rep, of "n - 1"] by simp_all
    define head where "head = (if n mod PAGE \<noteq> 0 then
        res_bind (expect_page ?v ?k) (\<lambda>p. write_page ?v ?k (Some (take (n mod PAGE) p))) else Inr ?v)"
    have "\<exists>root. head = Inr (?v\<lparr>vec_root := root\<rparr>) \<and> tree_map (?v\<lparr>vec_root := root\<rparr>)
        ((list_page xs)(?k := list_page ?ys ?k))"
    proof (cases "n mod PAGE = 0")
      case True
      then have "list_page ?ys ?k = list_page xs ?k" using cut(3) by (simp add: list_page_seg)
      with True map show ?thesis by (intro exI [of _ "vec_root ?v"]) (simp add: head_def fun_upd_idem)
    next
      case False
      then have "list_page ?ys ?k = Some (take (n mod PAGE) (seg xs ?k))"
        using cut(2) seg_offset(3) [OF k(2)] by (simp add: list_page_seg)
      with write_page_map [OF map k(1), of "list_page ?ys ?k"] False vec_at(2) [OF rep k(2)]
      show ?thesis by (auto simp: head_def)
    qed
    then obtain root where root: "head = Inr (?v\<lparr>vec_root := root\<rparr>)"
      "tree_map (?v\<lparr>vec_root := root\<rparr>) ((list_page xs)(?k := list_page ?ys ?k))" by blast
    let ?is = "[?k + 1..<(length xs - 1) div PAGE + 1]"
    have inside: "i < BRANCH ^ vec_levels (?v\<lparr>vec_root := root\<rparr>)" if "i \<in> set ?is" for i
      using that div_in_tree [OF rep, of "length xs - 1"] 3 by fastforce
    obtain root' where root':
      "for_fold (\<lambda>i v. write_page v i None) ?is (?v\<lparr>vec_root := root\<rparr>) = Inr (?v\<lparr>vec_root := root'\<rparr>)"
      "tree_map (?v\<lparr>vec_root := root'\<rparr>)
        (\<lambda>i. if i \<in> set ?is then None else ((list_page xs)(?k := list_page ?ys ?k)) i)"
      using erase_pages [of _ _ ?is, OF root(2) inside] by (auto simp del: upt_Suc set_upt)
    have "(if i \<in> set ?is then None else ((list_page xs)(?k := list_page ?ys ?k)) i) = list_page ?ys i" for i
    proof -
      consider "i < ?k" | "i = ?k" | "?k < i" "i \<le> (length xs - 1) div PAGE" | "?k < i" "(length xs - 1) div PAGE < i"
        by linarith
      then show ?thesis by cases (auto simp: list_page_seg cut(1,4) seg_beyond)
    qed
    then have "tree_map (?v\<lparr>vec_root := root'\<rparr>) (list_page ?ys)" using root'(2) by (simp only:)
    then have "vec_rep (?v\<lparr>vec_root := root', vec_len := n\<rparr>) ?ys"
      using 3 size vec_rep_bound [OF assms] by (auto simp: vec_rep_tree_map tree_map_def)
    moreover have "vec_truncate v n = Inr (?v\<lparr>vec_root := root', vec_len := n\<rparr>)"
      using 3 root(1) root'(1) unfolding vec_truncate_def Let_def head_def
      by (simp add: vec_rep_len [OF assms])
    ultimately show ?thesis by blast
  qed
qed

section \<open>Removal\<close>

lemma length_remove_at: "i < length xs \<Longrightarrow> length (remove_at i xs) = length xs - 1"
  by (simp add: remove_at_def)

lemma nth_remove_at:
  "i < length xs \<Longrightarrow> m < length xs - 1 \<Longrightarrow> remove_at i xs ! m = (if m < i then xs ! m else xs ! (m + 1))"
  by (simp add: remove_at_def nth_append)

lemma seg_remove:
  assumes "i < length xs"
  shows "j < i div PAGE \<Longrightarrow> seg (remove_at i xs) j = seg xs j"
    "i div PAGE \<le> j \<Longrightarrow> seg xs j \<noteq> [] \<Longrightarrow>
      seg (remove_at i xs) j = remove_at (if j = i div PAGE then i mod PAGE else 0) (seg xs j) @ take 1 (seg xs (j + 1))"
proof -
  define q r where "q = i div PAGE" and "r = i mod PAGE"
  have i: "i = q * PAGE + r" and r: "r < PAGE" by (simp_all add: q_def r_def)
  show "seg (remove_at i xs) j = seg xs j" if "j < i div PAGE"
  proof -
    have "Suc j * PAGE \<le> q * PAGE" using that unfolding q_def [symmetric] by (intro mult_le_mono1) simp
    then have le: "j * PAGE + PAGE \<le> i" using i by simp
    show ?thesis
    proof (rule seg_eqI)
      fix k assume "k < PAGE" "j * PAGE + k < length (remove_at i xs)"
      then show "remove_at i xs ! (j * PAGE + k) = seg xs j ! k"
        using le assms by (simp add: nth_remove_at length_remove_at nth_seg)
    qed (use le assms in \<open>simp add: length_seg length_remove_at\<close>)
  qed
  assume j: "i div PAGE \<le> j" "seg xs j \<noteq> []"
  let ?off = "if j = i div PAGE then i mod PAGE else 0"
  have jl: "j * PAGE < length xs" using j(2) by (simp add: seg_def)
  have pos: "j * PAGE + ?off < length xs" "j * PAGE + ?off \<ge> i" "j \<noteq> q \<Longrightarrow> i < j * PAGE" "?off < PAGE"
  proof -
    show "?off < PAGE" by simp
    have less: "i < j * PAGE" if "j \<noteq> q"
    proof -
      have "Suc q * PAGE \<le> j * PAGE" using that j(1) unfolding q_def [symmetric] by (intro mult_le_mono1) simp
      then show ?thesis using i r by simp
    qed
    then show "j \<noteq> q \<Longrightarrow> i < j * PAGE" .
    show "j * PAGE + ?off < length xs" using jl assms by simp
    show "j * PAGE + ?off \<ge> i" using less unfolding q_def by fastforce
  qed
  have offl: "?off < length (seg xs j)" using pos by (simp add: length_seg)
  have len1: "length (take 1 (seg xs (j + 1))) = (if Suc j * PAGE < length xs then 1 else 0)"
    by (simp add: length_seg) (simp add: PAGE_def)
  show "seg (remove_at i xs) j = remove_at ?off (seg xs j) @ take 1 (seg xs (j + 1))"
  proof (rule seg_eqI)
    show "length (remove_at ?off (seg xs j) @ take 1 (seg xs (j + 1))) = min PAGE (length (remove_at i xs) - j * PAGE)"
      using offl len1 jl unfolding length_append length_remove_at [OF offl] length_remove_at [OF assms] length_seg
      by auto
    fix k assume k: "k < PAGE" "j * PAGE + k < length (remove_at i xs)"
    then have kl: "j * PAGE + k + 1 < length xs" using length_remove_at [OF assms] by simp
    have lhs: "remove_at i xs ! (j * PAGE + k) = (if j * PAGE + k < i then xs ! (j * PAGE + k) else xs ! (j * PAGE + k + 1))"
      using kl assms by (simp add: nth_remove_at)
    have cond: "j * PAGE + k < i \<longleftrightarrow> k < ?off" using pos(3) i unfolding q_def [symmetric] r_def [symmetric] by (cases "j = q") simp_all
    show "remove_at i xs ! (j * PAGE + k) = (remove_at ?off (seg xs j) @ take 1 (seg xs (j + 1))) ! k"
    proof (cases "k + 1 < PAGE")
      case True
      then have "k < length (seg xs j) - 1" using kl by (simp add: length_seg)
      then show ?thesis
        using lhs cond True kl offl length_remove_at [OF offl]
        by (simp add: nth_append nth_remove_at nth_seg)
    next
      case False
      then have kP: "k = PAGE - 1" using k(1) by simp
      then have full: "length (seg xs j) = PAGE" "k = length (remove_at ?off (seg xs j))"
        using kl offl length_remove_at [OF offl] by (simp_all add: length_seg)
      have "\<not> k < ?off" using kP pos(4) by linarith
      moreover have stop: "j * PAGE + k + 1 = (j + 1) * PAGE" using kP PAGE_pos by simp
      ultimately have "remove_at i xs ! (j * PAGE + k) = xs ! ((j + 1) * PAGE)"
        unfolding stop [symmetric] using lhs cond by simp
      also have "\<dots> = seg xs (j + 1) ! 0"
        using kl stop nth_seg [of 0 "j + 1" xs] by simp
      also have "\<dots> = (remove_at ?off (seg xs j) @ take 1 (seg xs (j + 1))) ! k"
        unfolding nth_append full(2) by simp
      finally show ?thesis .
    qed
  qed
qed


lemma seg_within: "xs \<noteq> [] \<Longrightarrow> j \<le> (length xs - 1) div PAGE \<Longrightarrow> seg xs j \<noteq> []"
proof -
  assume xs: "xs \<noteq> []" and "j \<le> (length xs - 1) div PAGE"
  then have "j * PAGE \<le> (length xs - 1) div PAGE * PAGE" by (intro mult_le_mono1)
  also have "\<dots> \<le> length xs - 1" by (rule div_times_less_eq_dividend)
  finally show ?thesis using xs by (simp add: seg_def) (metis Suc_pred le_imp_less_Suc length_greater_0_conv not_le)
qed

lemma remove_step_map:
  assumes i: "i < length xs" and map: "tree_map v f" and m: "i div PAGE \<le> m" "m \<le> (length xs - 1) div PAGE"
    and cap: "(length xs - 1) div PAGE < BRANCH ^ vec_levels v"
    and f: "f m = list_page xs m" "f (m + 1) = list_page xs (m + 1)"
  shows "remove_step (i div PAGE) (i mod PAGE) ((length xs - 1) div PAGE) m v
    = write_page v m (list_page (remove_at i xs) m)"
proof -
  let ?L = "(length xs - 1) div PAGE" and ?off = "if m = i div PAGE then i mod PAGE else 0"
  have xs: "xs \<noteq> []" using i by auto
  have ne: "seg xs m \<noteq> []" by (rule seg_within [OF xs m(2)])
  have page: "expect_page v m = Inr (seg xs m)"
    using vec_page_map [OF map, of m] m(2) cap f(1) ne by (simp add: expect_page_def list_page_seg)
  have off: "\<not> ?off \<ge> length (seg xs m)" using seg_offset(1) [OF i] ne by auto
  have seg: "seg (remove_at i xs) m = remove_at ?off (seg xs m) @ take 1 (seg xs (m + 1))"
    by (rule seg_remove(2) [OF i m(1) ne])
  show ?thesis
  proof (cases "m < ?L")
    case True
    then have "seg xs (m + 1) \<noteq> []" by (intro seg_within [OF xs]) simp
    then obtain y ys where succ: "seg xs (m + 1) = y # ys" by (cases "seg xs (m + 1)") auto
    then have "vec_page v (m + 1) = Inr (Some (y # ys))"
      using vec_page_map [OF map, of "m + 1"] True cap f(2) by (simp add: list_page_seg)
    then show ?thesis
      using True page off seg succ by (simp add: remove_step_def list_page_seg Let_def)
  next
    case False
    then have "seg xs (m + 1) = []" using m(2) by (intro seg_beyond) simp
    then show ?thesis using False page off seg by (simp add: remove_step_def list_page_seg Let_def)
  qed
qed

lemma remove_loop_map:
  assumes i: "i < length xs" and cap: "(length xs - 1) div PAGE < BRANCH ^ vec_levels v"
  shows "tree_map v (\<lambda>j. if j < m then list_page (remove_at i xs) j else list_page xs j) \<Longrightarrow> i div PAGE \<le> m \<Longrightarrow>
    m \<le> (length xs - 1) div PAGE + 1 \<Longrightarrow>
    \<exists>root. for_fold (remove_step (i div PAGE) (i mod PAGE) ((length xs - 1) div PAGE)) [m..<(length xs - 1) div PAGE + 1] v
      = Inr (v\<lparr>vec_root := root\<rparr>) \<and> tree_map (v\<lparr>vec_root := root\<rparr>) (list_page (remove_at i xs))"
  using cap
proof (induction "(length xs - 1) div PAGE + 1 - m" arbitrary: m v)
  case 0
  let ?L = "(length xs - 1) div PAGE"
  have "list_page (remove_at i xs) j = list_page xs j" if "\<not> j < m" for j
  proof -
    have "(length (remove_at i xs) - 1) div PAGE \<le> ?L"
      unfolding length_remove_at [OF i] by (intro div_le_mono) simp
    moreover have "?L < j" using that 0 by simp
    ultimately show ?thesis by (simp add: list_page_seg seg_beyond)
  qed
  then have "tree_map v (list_page (remove_at i xs))"
    using 0(2) by (auto elim!: tree_map_cong)
  then show ?case using 0 by (intro exI [of _ "vec_root v"]) simp
next
  case (Suc k)
  let ?L = "(length xs - 1) div PAGE" and ?f = "\<lambda>j. if j < m then list_page (remove_at i xs) j else list_page xs j"
  have m: "m \<le> ?L" using Suc(2) by simp
  then have ivl: "[m..<?L + 1] = m # [m + 1..<?L + 1]" by (simp add: upt_conv_Cons)
  have step: "remove_step (i div PAGE) (i mod PAGE) ?L m v = write_page v m (list_page (remove_at i xs) m)"
    by (rule remove_step_map [OF i Suc.prems(1,2) m Suc.prems(4)]) simp_all
  obtain root where r: "write_page v m (list_page (remove_at i xs) m) = Inr (v\<lparr>vec_root := root\<rparr>)"
    "tree_map (v\<lparr>vec_root := root\<rparr>) (?f(m := list_page (remove_at i xs) m))"
    by (rule write_page_map [OF Suc.prems(1) le_less_trans [OF m Suc.prems(4)], of "list_page (remove_at i xs) m"])
  have "?f(m := list_page (remove_at i xs) m) = (\<lambda>j. if j < m + 1 then list_page (remove_at i xs) j else list_page xs j)"
    by auto
  with r(2) have "tree_map (v\<lparr>vec_root := root\<rparr>) (\<lambda>j. if j < m + 1 then list_page (remove_at i xs) j else list_page xs j)"
    by simp
  from Suc.hyps(1) [OF _ this] Suc.hyps(2) Suc.prems(2,4) m
  have "\<exists>root'. for_fold (remove_step (i div PAGE) (i mod PAGE) ?L) [m + 1..<?L + 1] (v\<lparr>vec_root := root\<rparr>)
      = Inr (v\<lparr>vec_root := root\<rparr>\<lparr>vec_root := root'\<rparr>)
      \<and> tree_map (v\<lparr>vec_root := root\<rparr>\<lparr>vec_root := root'\<rparr>) (list_page (remove_at i xs))"
    by (simp del: upt_Suc)
  then obtain root' where
    "for_fold (remove_step (i div PAGE) (i mod PAGE) ?L) [m + 1..<?L + 1] (v\<lparr>vec_root := root\<rparr>)
      = Inr (v\<lparr>vec_root := root'\<rparr>)" "tree_map (v\<lparr>vec_root := root'\<rparr>) (list_page (remove_at i xs))"
    by (auto simp del: upt_Suc)
  then show ?case unfolding ivl using step r(1) by (intro exI [of _ root']) simp
qed

lemma vec_remove_rep:
  assumes "vec_rep v xs"
  shows "if i < length xs then \<exists>v'. vec_remove v i = Inr (v', xs ! i) \<and> vec_rep v' (remove_at i xs)
    else vec_remove v i = Inl Panic"
proof (cases "i < length xs")
  case True
  let ?v = "clear_cache v"
  note rep = vec_rep_clear [OF assms]
  have map: "tree_map ?v (list_page xs)" using rep by (simp add: vec_rep_tree_map)
  have cap: "(length xs - 1) div PAGE < BRANCH ^ vec_levels ?v" using div_in_tree [OF rep] True by simp
  have le: "i div PAGE \<le> (length xs - 1) div PAGE" using True by (intro div_le_mono) simp
  have "(\<lambda>j. if j < i div PAGE then list_page (remove_at i xs) j else list_page xs j) = list_page xs"
    using seg_remove(1) [OF True] by (auto simp: list_page_seg)
  with map have "tree_map ?v (\<lambda>j. if j < i div PAGE then list_page (remove_at i xs) j else list_page xs j)" by simp
  from remove_loop_map [OF True cap this] le obtain root where
    r: "for_fold (remove_step (i div PAGE) (i mod PAGE) ((length xs - 1) div PAGE))
        [i div PAGE..<(length xs - 1) div PAGE + 1] ?v = Inr (?v\<lparr>vec_root := root\<rparr>)"
    "tree_map (?v\<lparr>vec_root := root\<rparr>) (list_page (remove_at i xs))" by auto
  have "vec_rep (?v\<lparr>vec_root := root, vec_len := length xs - 1\<rparr>) (remove_at i xs)"
    using r(2) vec_rep_bound [OF assms] vec_rep_capacity [OF rep] True
    by (auto simp: vec_rep_tree_map tree_map_def length_remove_at)
  moreover have "vec_remove v i = Inr (?v\<lparr>vec_root := root, vec_len := length xs - 1\<rparr>, xs ! i)"
    using True r(1) unfolding vec_remove_def Let_def
    by (simp add: vec_index_rep [OF rep] vec_rep_len [OF assms])
  ultimately show ?thesis using True by simp
next
  case False
  then show ?thesis by (simp add: vec_remove_def Let_def vec_rep_len [OF assms])
qed

end
