(* ===== verification/History.thy ===== *)
theory History
  imports Prelude
begin

text \<open>
  Histories of operations and their refinement. An operation takes a command and a state and returns
  an error or the next state with an observation; a history runs a list of commands and stops at the
  first error. An implementation that follows its specification at every single step follows it along
  every history.
\<close>

fun run_steps :: "('c \<Rightarrow> 's \<Rightarrow> ('e, 's \<times> 'o) result) \<Rightarrow> 'c list \<Rightarrow> 's \<Rightarrow> ('e, 's \<times> 'o list) result" where
  "run_steps step [] s = Inr (s, [])"
| "run_steps step (c # cs) s =
     res_bind (step c s) (\<lambda>(s', obs). res_bind (run_steps step cs s') (\<lambda>(s'', rest). Inr (s'', obs # rest)))"

text \<open>The side condition of each step, checked at the state the specification has reached.\<close>

fun fits_steps :: "('c \<Rightarrow> 's \<Rightarrow> ('e, 's \<times> 'o) result) \<Rightarrow> ('c \<Rightarrow> 's \<Rightarrow> bool) \<Rightarrow> 'c list \<Rightarrow> 's \<Rightarrow> bool" where
  "fits_steps spec fits [] s = True"
| "fits_steps spec fits (c # cs) s \<longleftrightarrow>
     fits c s \<and> (case spec c s of Inl _ \<Rightarrow> True | Inr (s', _) \<Rightarrow> fits_steps spec fits cs s')"

locale refined_steps =
  fixes rel :: "'v \<Rightarrow> 'm \<Rightarrow> bool"
    and step :: "'c \<Rightarrow> 'v \<Rightarrow> ('e, 'v \<times> 'o) result"
    and spec :: "'c \<Rightarrow> 'm \<Rightarrow> ('e, 'm \<times> 'o) result"
    and fits :: "'c \<Rightarrow> 'm \<Rightarrow> bool"
  assumes step_ok: "rel v m \<Longrightarrow> fits c m \<Longrightarrow> spec c m = Inr (m', obs) \<Longrightarrow> \<exists>v'. step c v = Inr (v', obs) \<and> rel v' m'"
    and step_error: "rel v m \<Longrightarrow> fits c m \<Longrightarrow> spec c m = Inl e \<Longrightarrow> step c v = Inl e"
begin

lemma history_ok:
  "rel v m \<Longrightarrow> fits_steps spec fits cs m \<Longrightarrow> run_steps spec cs m = Inr (m', os) \<Longrightarrow>
    \<exists>v'. run_steps step cs v = Inr (v', os) \<and> rel v' m'"
proof (induction cs arbitrary: v m os)
  case (Cons c cs)
  obtain m1 o1 os' where s: "spec c m = Inr (m1, o1)" "run_steps spec cs m1 = Inr (m', os')" "os = o1 # os'"
    using Cons.prems(3) by (auto simp: result_simps)
  obtain v1 where v1: "step c v = Inr (v1, o1)" "rel v1 m1"
    using step_ok [OF Cons.prems(1) _ s(1)] Cons.prems(2) by auto
  obtain v2 where "run_steps step cs v1 = Inr (v2, os')" "rel v2 m'"
    using Cons.IH [OF v1(2) _ s(2)] Cons.prems(2) s(1) by auto
  then show ?case using v1(1) s(3) by simp
qed simp

lemma history_error:
  "rel v m \<Longrightarrow> fits_steps spec fits cs m \<Longrightarrow> run_steps spec cs m = Inl e \<Longrightarrow> run_steps step cs v = Inl e"
proof (induction cs arbitrary: v m)
  case (Cons c cs)
  show ?case
  proof (cases "spec c m")
    case (Inl e')
    then show ?thesis using step_error [OF Cons.prems(1) _ Inl] Cons.prems(2,3) by simp
  next
    case (Inr r)
    obtain m1 o1 where r: "r = (m1, o1)" by fastforce
    obtain v1 where v1: "step c v = Inr (v1, o1)" "rel v1 m1"
      using step_ok [OF Cons.prems(1) _ Inr [unfolded r]] Cons.prems(2) by auto
    have "run_steps spec cs m1 = Inl e" using Cons.prems(3) Inr r by (auto simp: result_simps)
    then have "run_steps step cs v1 = Inl e" using Cons.IH [OF v1(2)] Cons.prems(2) Inr r by simp
    then show ?thesis using v1(1) by simp
  qed
qed simp

end

end
