(* ===== verification/Persistent_Vec_Correct.thy ===== *)
theory Persistent_Vec_Correct
  imports Persistent_Vec_Ops History
begin

text \<open>
  The remaining operations of \<open>PersistentVec\<close> (exchange, iteration, slices, mutable access, growth,
  difference of snapshots) and the correctness of the whole vector: it refines lists along every
  history, round trips, and its structural difference is exact.
\<close>

section \<open>Exchange\<close>

lemma vec_swap_rep:
  assumes "vec_rep v xs"
  shows "if i < length xs \<and> j < length xs
    then \<exists>v'. vec_swap v i j = Inr v' \<and> vec_rep v' (xs[i := xs ! j, j := xs ! i])
    else vec_swap v i j = Inl Panic"
proof (cases "i < length xs \<and> j < length xs \<and> i \<noteq> j")
  case True
  then have i: "i < length xs" and j: "j < length xs" and ij: "i \<noteq> j" by auto
  let ?v = "clear_cache v" and ?x = "xs[i := xs ! j]" and ?y = "xs[i := xs ! j, j := xs ! i]"
  note rep = vec_rep_clear [OF assms]
  have segs: "seg ?y k = (if k = j div PAGE then (seg ?x k)[j mod PAGE := xs ! i] else seg ?x k)"
    "seg ?x k = (if k = i div PAGE then (seg xs k)[i mod PAGE := xs ! j] else seg xs k)" for k
    using i j by (simp_all add: seg_update)
  have off: "i mod PAGE < length (seg xs (i div PAGE))" "j mod PAGE < length (seg xs (j div PAGE))"
    "seg xs (i div PAGE) ! (i mod PAGE) = xs ! i" "seg xs (j div PAGE) ! (j mod PAGE) = xs ! j"
    using seg_offset [OF i] seg_offset [OF j] by auto
  have ne: "seg ?y (j div PAGE) \<noteq> []" "seg ?x (i div PAGE) \<noteq> []"
    using seg_offset(3) [OF i] seg_offset(3) [OF j] by (simp_all add: segs)
  show ?thesis
  proof (cases "i div PAGE = j div PAGE")
    case same: True
    obtain root where "write_page ?v (j div PAGE) (Some (seg ?y (j div PAGE))) = Inr (?v\<lparr>vec_root := root\<rparr>)"
      "vec_rep (?v\<lparr>vec_root := root\<rparr>) ?y"
      by (rule write_seg_same [OF rep _ div_in_tree [OF rep j], of ?y]) (use ne in \<open>auto simp: segs same\<close>)
    moreover have "vec_swap v i j = write_page ?v (j div PAGE) (Some (seg ?y (j div PAGE)))"
      using i j ij same off vec_at(2) [OF rep j]
      by (simp add: vec_swap_def vec_rep_len [OF assms] Let_def segs)
    ultimately show ?thesis using i j by simp
  next
    case diff: False
    obtain r where r: "write_page ?v (i div PAGE) (Some (seg ?x (i div PAGE))) = Inr (?v\<lparr>vec_root := r\<rparr>)"
      "vec_rep (?v\<lparr>vec_root := r\<rparr>) ?x"
      by (rule write_seg_same [OF rep _ div_in_tree [OF rep i], of ?x]) (use ne in \<open>auto simp: segs\<close>)
    obtain root where "write_page (?v\<lparr>vec_root := r\<rparr>) (j div PAGE) (Some (seg ?y (j div PAGE))) = Inr (?v\<lparr>vec_root := root\<rparr>)"
      "vec_rep (?v\<lparr>vec_root := root\<rparr>) ?y"
      by (rule write_seg_same [OF r(2) _ div_in_tree [OF r(2)], of j ?y])
        (use ne j in \<open>auto simp: segs(1)\<close>)
    moreover have "vec_swap v i j = res_bind (write_page ?v (i div PAGE) (Some (seg ?x (i div PAGE))))
        (\<lambda>v1. write_page v1 (j div PAGE) (Some (seg ?y (j div PAGE))))"
      using i j ij diff off vec_at(2) [OF rep j] vec_at(2) [OF rep i]
      by (simp add: vec_swap_def vec_rep_len [OF assms] Let_def segs)
    ultimately show ?thesis using i j r(1) by simp
  qed
next
  case False
  then show ?thesis using assms by (auto simp: vec_swap_def vec_rep_len [OF assms])
qed

lemma seg_butlast_other:
  assumes "i < length xs - 1" "i div PAGE = (length xs - 1) div PAGE" "j \<noteq> i div PAGE"
  shows "seg ((butlast xs)[i := y]) j = seg xs j"
proof -
  have "seg (butlast xs @ [last xs]) j = seg (butlast xs) j"
    using assms by (subst seg_append) (simp_all add: PAGE_def Suc_leI)
  then have "seg xs j = seg (butlast xs) j" using assms(1) by (cases "xs = []") simp_all
  then show ?thesis using assms by (simp add: seg_update)
qed

lemma seg_butlast_same:
  assumes "i < length xs - 1" "i div PAGE = (length xs - 1) div PAGE"
  shows "seg xs (i div PAGE) = seg (butlast xs) (i div PAGE) @ [last xs]"
    "seg ((butlast xs)[i := y]) (i div PAGE) = (seg (butlast xs) (i div PAGE))[i mod PAGE := y]"
proof -
  have "seg (butlast xs @ [last xs]) (i div PAGE) = seg (butlast xs) (i div PAGE) @ [last xs]"
    using assms by (subst seg_append) (simp_all add: PAGE_def Suc_leI)
  then show "seg xs (i div PAGE) = seg (butlast xs) (i div PAGE) @ [last xs]"
    using assms(1) by (cases "xs = []") simp_all
qed (use assms in \<open>simp add: seg_update\<close>)

lemma vec_swap_remove_rep:
  assumes "vec_rep v xs"
  shows "if i < length xs
    then \<exists>v'. vec_swap_remove v i = Inr (v', xs ! i)
      \<and> vec_rep v' (if i = length xs - 1 then butlast xs else (butlast xs)[i := last xs])
    else vec_swap_remove v i = Inl Panic"
proof -
  let ?v = "clear_cache v" and ?ys = "(butlast xs)[i := last xs]"
  note rep = vec_rep_clear [OF assms] and len = vec_rep_len [OF assms]
  consider "\<not> i < length xs" | "i < length xs" "i = length xs - 1"
    | "i < length xs - 1" "i div PAGE = (length xs - 1) div PAGE"
    | "i < length xs - 1" "i div PAGE \<noteq> (length xs - 1) div PAGE" by linarith
  then show ?thesis
  proof cases
    case 1
    then show ?thesis by (simp add: vec_swap_remove_def Let_def len)
  next
    case 2
    then have "xs \<noteq> []" by auto
    with vec_pop_last_rep [OF rep this] 2 show ?thesis
      by (auto simp: vec_swap_remove_def Let_def len last_conv_nth)
  next
    case 3
    note same = seg_butlast_same [OF 3]
    have i: "i < length (butlast xs)" "i < length xs" "i \<noteq> length xs - 1" using 3 by simp_all
    have off: "i mod PAGE < length (seg (butlast xs) (i div PAGE))" by (rule seg_offset(1) [OF i(1)])
    obtain root where w: "write_page ?v (i div PAGE) (Some (seg ?ys (i div PAGE))) = Inr (?v\<lparr>vec_root := root\<rparr>)"
      "vec_rep (?v\<lparr>vec_root := root, vec_len := length ?ys\<rparr>) ?ys"
    proof (rule write_seg_rep [OF rep _ div_in_tree [OF rep i(2)], of ?ys])
      show "seg ?ys j = seg xs j" if "j \<noteq> i div PAGE" for j using seg_butlast_other [OF 3 that] .
      show "Some (seg ?ys (i div PAGE)) = (if seg ?ys (i div PAGE) = [] then None else Some (seg ?ys (i div PAGE)))"
        using off same(2) by auto
    qed (use vec_rep_capacity [OF rep] vec_rep_bound [OF assms] in auto)
    have "vec_swap_remove v i = res_bind (write_page ?v (i div PAGE) (Some (seg ?ys (i div PAGE))))
        (\<lambda>v1. Inr (v1\<lparr>vec_len := vec_len v1 - 1\<rparr>, xs ! i))"
      using i 3(2) [symmetric] off vec_at(2) [OF rep i(2)]
      by (simp add: vec_swap_remove_def Let_def len vec_index_rep [OF rep] same)
    then show ?thesis using w i by (simp add: len)
  next
    case 4
    then have i: "i < length xs" "i \<noteq> length xs - 1" "xs \<noteq> []" by auto
    obtain v1 where v1: "vec_set ?v i (last xs) = Inr v1" "vec_rep v1 (xs[i := last xs])"
      using vec_set_rep [OF rep, of i "last xs"] i by auto
    obtain v2 where v2: "vec_pop_last v1 = Inr (v2, last (xs[i := last xs]))" "vec_rep v2 (butlast (xs[i := last xs]))"
      using vec_pop_last_rep [OF v1(2)] i by auto
    have "vec_swap_remove v i = Inr (v2, xs ! i)"
      using i 4(2) v1(1) v2(1) by (simp add: vec_swap_remove_def Let_def len vec_index_rep [OF rep] last_conv_nth)
    moreover have "butlast (xs[i := last xs]) = ?ys" using i 4(1) by (simp add: butlast_list_update)
    ultimately show ?thesis using v2(2) i by simp
  qed
qed

section \<open>Iteration, slices and equality\<close>

lemma vec_iter_from_rep: "vec_rep v xs \<Longrightarrow> vec_iter_from v i = Inr (drop i xs)"
proof (induction v i rule: vec_iter_from.induct)
  case (1 v i)
  then have rep: "vec_rep v xs" by simp
  note get = vec_get_rep [OF rep, of i]
  show ?case
  proof (cases "i < length xs")
    case True
    then have "vec_iter_from v (i + 1) = Inr (drop (i + 1) xs)"
      using 1 get by (auto simp: get_vec_def)
    then show ?thesis
      using True get by (subst vec_iter_from.simps) (simp add: get_vec_def Cons_nth_drop_Suc)
  next
    case False
    then show ?thesis using get by (subst vec_iter_from.simps) (simp add: get_vec_def)
  qed
qed

lemma as_slice_rep: "vec_rep v xs \<Longrightarrow> \<exists>v'. as_slice v = Inr (v', xs) \<and> vec_rep v' xs \<and> contiguous_cache v' = Some xs"
  by (auto simp: as_slice_def vec_iter_from_rep vec_rep_def split: option.splits)

lemma vec_clone_rep: "vec_rep v xs \<Longrightarrow> vec_rep (vec_clone v) xs"
  by (simp add: vec_clone_def vec_rep_def)

lemma vec_eq_rep: "vec_rep v xs \<Longrightarrow> vec_rep w ys \<Longrightarrow> vec_eq v w = Inr (xs = ys)"
  by (auto simp: vec_eq_def vec_iter_from_rep vec_rep_len)


section \<open>Mutable access\<close>

lemma value_mut_pages:
  "node_ok (Suc n) node \<Longrightarrow> n < max_levels \<Longrightarrow> i < BRANCH ^ Suc n \<Longrightarrow> pages (Suc n) node i = Some p \<Longrightarrow> off < length p \<Longrightarrow>
    \<exists>node'. value_mut node (Suc n) i off f = Inr (Some node') \<and> node_ok (Suc n) node'
      \<and> (\<forall>j < BRANCH ^ Suc n. pages (Suc n) node' j = (if j = i then Some (p[off := f (p ! off)]) else pages (Suc n) node j))"
proof (induction n arbitrary: node i)
  case 0
  obtain cs where cs: "node = Branch cs" "length cs = BRANCH" using node_ok_Suc [OF 0(1)] by auto
  have i: "i < BRANCH" using 0(3) by simp
  obtain c where c: "cs ! i = Some c" "pages 0 c 0 = Some p"
    using 0(4) cs(1) by (auto split: option.splits)
  have "Some c \<in> set cs" using c(1) i cs(2) by (metis nth_mem)
  then have "node_ok 0 c" using 0(1) cs(1) by simp
  then have leaf: "c = Leaf p" using c(2) node_ok_0 [of c] by auto
  let ?c = "Leaf (p[off := f (p ! off)])"
  have "value_mut node (Suc 0) i off f = Inr (Some (Branch (cs[i := Some ?c])))"
    using cs c leaf i 0(5) by (subst value_mut.simps) (simp add: page_capacity_def Let_def get_vec_def)
  moreover have "node_ok (Suc 0) (Branch (cs[i := Some ?c]))"
    using 0(1) cs(1) by (intro node_ok_update) auto
  ultimately show ?case using cs i by (auto simp: nth_list_update)
next
  case (Suc n)
  obtain cs where cs: "node = Branch cs" "length cs = BRANCH" "\<And>k d. k < BRANCH \<Longrightarrow> cs ! k = Some d \<Longrightarrow> node_ok (Suc n) d"
    using node_ok_Suc [OF Suc.prems(1)] by auto
  let ?k = "i div BRANCH ^ Suc n" and ?m = "i mod BRANCH ^ Suc n"
  have k: "?k < BRANCH" by (rule child_index_less [OF Suc.prems(3)])
  have m: "?m < BRANCH ^ Suc n" by simp
  obtain c where c: "cs ! ?k = Some c" "pages (Suc n) c ?m = Some p"
    using Suc.prems(4) cs(1) by (auto split: option.splits simp del: power_Suc)
  have "node_ok (Suc n) c" by (rule cs(3) [OF k c(1)])
  from Suc.IH [OF this _ m c(2) Suc.prems(5)] Suc.prems(2) obtain c' where c':
    "value_mut c (Suc n) ?m off f = Inr (Some c')" "node_ok (Suc n) c'"
    "\<And>j. j < BRANCH ^ Suc n \<Longrightarrow> pages (Suc n) c' j = (if j = ?m then Some (p[off := f (p ! off)]) else pages (Suc n) c j)"
    by (auto simp del: power_Suc)
  have cap: "page_capacity (Suc n) = BRANCH ^ Suc n" using Suc.prems(2) by (intro page_capacity_pow) simp
  have "value_mut node (Suc (Suc n)) i off f = Inr (Some (Branch (cs[?k := Some c'])))"
    using cs(1,2) c(1) k c'(1) by (subst value_mut.simps) (simp add: cap Let_def get_vec_def del: power_Suc)
  moreover have "node_ok (Suc (Suc n)) (Branch (cs[?k := Some c']))"
    using Suc.prems(1) cs(1) c'(2) by (intro node_ok_update) auto
  moreover have "pages (Suc (Suc n)) (Branch (cs[?k := Some c'])) j
      = (if j = i then Some (p[off := f (p ! off)]) else pages (Suc (Suc n)) node j)" if "j < BRANCH ^ Suc (Suc n)" for j
  proof -
    have j: "j div BRANCH ^ Suc n < BRANCH" "j mod BRANCH ^ Suc n < BRANCH ^ Suc n"
      using child_index_less [OF that] by simp_all
    have eq: "j = i \<longleftrightarrow> j div BRANCH ^ Suc n = ?k \<and> j mod BRANCH ^ Suc n = ?m" by (metis div_mult_mod_eq)
    show ?thesis
      using cs(1,2) c(1) j eq c'(3) [OF j(2)]
      by (cases "j div BRANCH ^ Suc n = ?k") (auto simp: nth_list_update simp del: power_Suc)
  qed
  ultimately show ?case by blast
qed

lemma vec_get_mut_rep:
  assumes "vec_rep v xs"
  shows "if i < length xs then \<exists>v'. vec_get_mut v i f = Inr (Some v') \<and> vec_rep v' (xs[i := f (xs ! i)])
    else vec_get_mut v i f = Inr None"
proof (cases "i < length xs")
  case True
  let ?v = "clear_cache v" and ?ys = "xs[i := f (xs ! i)]" and ?i = "i div PAGE"
  obtain n where n: "vec_levels v = Suc n" "tree_rep n (vec_root v) xs" by (rule vec_repE [OF assms])
  have ok: "node_ok (Suc n) (vec_root v)" "n < max_levels" using n(2) by (simp_all add: tree_rep_def)
  have i: "?i < BRANCH ^ Suc n" using div_in_tree [OF assms True] n(1) by simp
  have page: "pages (Suc n) (vec_root v) j = list_page xs j" if "j < BRANCH ^ Suc n" for j
    using n(2) that by (simp add: tree_rep_def)
  have at: "pages (Suc n) (vec_root v) ?i = Some (seg xs ?i)"
    unfolding page [OF i] using seg_offset(3) [OF True] by (simp add: list_page_seg)
  obtain root where r: "value_mut (vec_root v) (Suc n) ?i (i mod PAGE) f = Inr (Some root)" "node_ok (Suc n) root"
    "\<And>j. j < BRANCH ^ Suc n \<Longrightarrow> pages (Suc n) root j
      = (if j = ?i then Some ((seg xs ?i)[i mod PAGE := f (seg xs ?i ! (i mod PAGE))]) else pages (Suc n) (vec_root v) j)"
    using value_mut_pages [OF ok i at seg_offset(1) [OF True], of f] by blast
  have "pages (Suc n) root j = list_page ?ys j" if "j < BRANCH ^ Suc n" for j
    using r(3) [OF that] page [OF that] seg_offset [OF True] by (auto simp: list_page_seg seg_update [OF True])
  then have "vec_rep (?v\<lparr>vec_root := root\<rparr>) ?ys"
    using r(2) ok n vec_rep_bound [OF assms] vec_rep_len [OF assms]
    by (auto simp: vec_rep_def tree_rep_def simp del: power_Suc)
  then show ?thesis using True r(1) n(1) vec_rep_len [OF assms] by (simp add: vec_get_mut_def)
qed (simp add: vec_get_mut_def vec_rep_len [OF assms])

section \<open>Growing\<close>

lemma generate_add:
  "generate f (m + n) s = (fst (generate f m s) @ fst (generate f n (snd (generate f m s))), snd (generate f n (snd (generate f m s))))"
  by (induction m arbitrary: s) (auto split: prod.splits)

lemma resize_loop_rep:
  assumes "vec_rep v xs" "length xs \<le> n" "length xs mod PAGE = 0 \<or> length xs = n" "n \<le> usize_max"
  shows "\<exists>v'. resize_loop f n v s = Inr (v', snd (generate f (n - length xs) s))
    \<and> vec_rep v' (xs @ fst (generate f (n - length xs) s))"
  using assms
proof (induction "n - length xs" arbitrary: v xs s rule: less_induct)
  case less
  show ?case
  proof (cases "length xs = n")
    case True
    then show ?thesis using less.prems by (subst resize_loop.simps) (simp add: vec_rep_len)
  next
    case False
    let ?a = "min PAGE (n - length xs)"
    obtain pg s1 where g: "generate f ?a s = (pg, s1)" by fastforce
    then have len: "length pg = ?a" using generate_length [of f ?a s] by simp
    then have pg: "pg \<noteq> []" "length pg \<le> PAGE" "length xs + length pg \<le> usize_max"
      using False less.prems by (auto simp flip: length_greater_0_conv)
    obtain v1 where v1: "append_page v pg = Inr v1" "vec_rep v1 (xs @ pg)"
      using append_page_rep [OF less.prems(1) _ pg] less.prems(3) False by auto
    have cond: "length (xs @ pg) mod PAGE = 0 \<or> length (xs @ pg) = n" "length (xs @ pg) \<le> n"
      "n - length (xs @ pg) < n - length xs"
      using less.prems False len pg(1) PAGE_pos by (auto simp: min_def mod_simps simp del: PAGE_pos split: if_splits)
    from less.hyps [OF cond(3) v1(2) cond(2,1) less.prems(4), of s1] obtain v2 where v2:
      "resize_loop f n v1 s1 = Inr (v2, snd (generate f (n - length (xs @ pg)) s1))"
      "vec_rep v2 ((xs @ pg) @ fst (generate f (n - length (xs @ pg)) s1))" by blast
    have "n - length xs = ?a + (n - length (xs @ pg))" using len by simp
    then have "generate f (n - length xs) s = (pg @ fst (generate f (n - length (xs @ pg)) s1),
        snd (generate f (n - length (xs @ pg)) s1))"
      using generate_add [of f ?a "n - length (xs @ pg)" s] g by simp
    moreover have "resize_loop f n v s = resize_loop f n v1 s1"
      using False less.prems(1,2) g v1(1) by (subst resize_loop.simps) (simp add: vec_rep_len Let_def)
    ultimately show ?thesis using v2 by (intro exI [of _ v2]) simp
  qed
qed

lemma vec_resize_with_rep:
  assumes "vec_rep v xs" "n \<le> usize_max"
  shows "\<exists>v'. vec_resize_with f v n s = Inr (v', snd (generate f (n - length xs) s))
    \<and> vec_rep v' (take n xs @ fst (generate f (n - length xs) s))"
proof -
  let ?v = "clear_cache v" and ?i = "length xs div PAGE" and ?r = "length xs mod PAGE"
  note rep = vec_rep_clear [OF assms(1)] and len = vec_rep_len [OF assms(1)]
  consider "n \<le> length xs" | "length xs < n" "?r = 0" | "length xs < n" "?r \<noteq> 0" by linarith
  then show ?thesis
  proof cases
    case 1
    then show ?thesis using vec_truncate_rep [OF assms(1), of n] by (auto simp: vec_resize_with_def len)
  next
    case 2
    then show ?thesis
      using resize_loop_rep [OF rep _ _ assms(2), of f s] by (simp add: vec_resize_with_def Let_def len)
  next
    case 3
    have "length xs \<noteq> 0" using 3(2) by (metis mod_0)
    then have last: "length xs - 1 < length xs" by simp
    have page: "(length xs - 1) div PAGE = ?i" using 3(2) by (metis Suc_pred' div_Suc gr0I mod_0)
    have split: "length xs = ?i * PAGE + ?r" "?r < PAGE" by simp_all
    have seg: "length (seg xs ?i) = ?r" 
      by (simp add: length_seg minus_div_mult_eq_mod min_absorb2 less_imp_le_nat)
    let ?a = "min (PAGE - ?r) (n - length xs)"
    obtain new s1 where g: "generate f ?a s = (new, s1)" by fastforce
    then have ln: "length new = ?a" using generate_length [of f ?a s] by simp
    have segs: "seg (xs @ new) j = (if j = ?i then seg xs j @ new else seg xs j)" for j
      using ln by (intro seg_append) simp
    have i: "?i < BRANCH ^ vec_levels ?v" using div_in_tree [OF rep last] page by simp
    have cap: "length (xs @ new) \<le> BRANCH ^ vec_levels ?v * PAGE"
    proof -
      have "length (xs @ new) \<le> ?i * PAGE + PAGE" unfolding length_append ln using split by linarith
      also have "\<dots> = Suc ?i * PAGE" by simp
      also have "\<dots> \<le> BRANCH ^ vec_levels ?v * PAGE" using i by (intro mult_le_mono1) simp
      finally show ?thesis .
    qed
    obtain root where w: "write_page ?v ?i (Some (seg xs ?i @ new)) = Inr (?v\<lparr>vec_root := root\<rparr>)"
      "vec_rep (?v\<lparr>vec_root := root, vec_len := length (xs @ new)\<rparr>) (xs @ new)"
      by (rule write_seg_rep [OF rep _ i cap, of "Some (seg xs ?i @ new)"])
        (use 3 ln assms(2) seg in \<open>auto simp: segs\<close>)
    let ?v1 = "?v\<lparr>vec_root := root, vec_len := length (xs @ new)\<rparr>"
    have le: "length (xs @ new) \<le> n" unfolding length_append ln using 3(1) by linarith
    have "length (xs @ new) mod PAGE = 0 \<or> length (xs @ new) = n"
    proof (cases "PAGE - ?r \<le> n - length xs")
      case True
      then have "length (xs @ new) = ?i * PAGE + PAGE" unfolding length_append ln using split by linarith
      then show ?thesis by simp
    qed (use 3 ln in simp)
    from resize_loop_rep [OF w(2) le this assms(2), of f s1] obtain v2 where v2:
      "resize_loop f n ?v1 s1 = Inr (v2, snd (generate f (n - length (xs @ new)) s1))"
      "vec_rep v2 ((xs @ new) @ fst (generate f (n - length (xs @ new)) s1))" by blast
    have "n - length xs = ?a + (n - length (xs @ new))" unfolding length_append ln using 3(1) by linarith
    then have "generate f (n - length xs) s = (new @ fst (generate f (n - length (xs @ new)) s1),
        snd (generate f (n - length (xs @ new)) s1))"
      using generate_add [of f ?a "n - length (xs @ new)" s] g by simp
    moreover have "vec_resize_with f v n s = resize_loop f n ?v1 s1"
      using 3 g w(1) vec_at(2) [OF rep last] page seg ln
      by (simp add: vec_resize_with_def Let_def len)
    ultimately show ?thesis using v2 3 by (intro exI [of _ v2]) simp
  qed
qed

lemma vec_resize_rep:
  assumes "vec_rep v xs" "n \<le> usize_max"
  shows "\<exists>v'. vec_resize v n x = Inr v' \<and> vec_rep v' (take n xs @ replicate (n - length xs) x)"
proof -
  have "fst (generate (\<lambda>u. (x, u)) k u) = replicate k x" for k and u :: unit
    by (induction k) (auto split: prod.splits)
  then show ?thesis
    using vec_resize_with_rep [OF assms, of "\<lambda>u. (x, u)" "()"] by (auto simp: vec_resize_def)
qed

section \<open>Difference of two snapshots\<close>

definition differ :: "'a list \<Rightarrow> 'a list \<Rightarrow> nat \<Rightarrow> nat \<Rightarrow> nat list" where
  "differ xs ys a b = filter (\<lambda>i. xs ! i \<noteq> ys ! i) [a..<min b (min (length xs) (length ys))]"

lemma differ_append: "a \<le> b \<Longrightarrow> b \<le> c \<Longrightarrow> differ xs ys a b @ differ xs ys b c = differ xs ys a c"
proof (cases "b \<le> min (length xs) (length ys)")
  case True
  moreover assume "a \<le> b" "b \<le> c"
  ultimately have "[a..<b] @ [b..<min c (min (length xs) (length ys))] = [a..<min c (min (length xs) (length ys))]"
    by (metis (no_types) le_Suc_ex min.boundedI upt_add_eq_append)
  then show ?thesis using True by (simp add: differ_def min_absorb1 flip: filter_append)
next
  case False
  moreover assume "a \<le> b" "b \<le> c"
  ultimately have bounds: "min b (min (length xs) (length ys)) = min (length xs) (length ys)"
    "min c (min (length xs) (length ys)) = min (length xs) (length ys)" "min (length xs) (length ys) \<le> b" by linarith+
  show ?thesis unfolding differ_def bounds(1,2) using bounds(3) by simp
qed

lemma differ_beyond: "min (length xs) (length ys) \<le> a \<Longrightarrow> differ xs ys a b = []"
  by (simp add: differ_def)

lemma differ_same:
  "(\<And>i. a \<le> i \<Longrightarrow> i < b \<Longrightarrow> i < length xs \<Longrightarrow> i < length ys \<Longrightarrow> xs ! i = ys ! i) \<Longrightarrow> differ xs ys a b = []"
  by (auto simp: differ_def filter_empty_conv)

text \<open>The pages of a subtree are those of the list from page \<open>base\<close> on.\<close>

definition subtree :: "nat \<Rightarrow> 'a vec_node \<Rightarrow> 'a list \<Rightarrow> nat \<Rightarrow> bool" where
  "subtree n node xs base \<longleftrightarrow> node_ok n node \<and> (\<forall>j < BRANCH ^ n. pages n node j = list_page xs (base + j))"

lemma subtree_child:
  assumes "subtree (Suc n) (Branch cs) xs base" "k < BRANCH" "(base + k * BRANCH ^ n) * PAGE < length xs"
  obtains c where "cs ! k = Some c" "subtree n c xs (base + k * BRANCH ^ n)"
proof -
  have ok: "node_ok (Suc n) (Branch cs)" using assms(1) by (simp add: subtree_def)
  have pages: "pages (Suc n) (Branch cs) (k * BRANCH ^ n + j) = list_page xs (base + k * BRANCH ^ n + j)"
    if "j < BRANCH ^ n" for j
  proof -
    have "k * BRANCH ^ n + j < Suc k * BRANCH ^ n" using that by simp
    also have "\<dots> \<le> BRANCH * BRANCH ^ n" using assms(2) by (intro mult_le_mono1) simp
    finally have "k * BRANCH ^ n + j < BRANCH ^ Suc n" by simp
    then show ?thesis using assms(1) unfolding subtree_def add.assoc by blast
  qed
  have pos: "0 < BRANCH ^ n" by simp
  from pages [OF pos] obtain c where c: "cs ! k = Some c"
    using assms(3) by (auto simp: list_page_def split: option.splits)
  have "node_ok n c" using node_ok_Suc [OF ok] c assms(2) by auto
  moreover have "pages n c j = list_page xs (base + k * BRANCH ^ n + j)" if "j < BRANCH ^ n" for j
    using pages [OF that] that c by simp
  ultimately show thesis using c by (intro that) (auto simp: subtree_def)
qed

lemma subtree_eq:
  assumes "subtree n node xs base" "subtree n node ys base"
  shows "differ xs ys (base * PAGE) ((base + BRANCH ^ n) * PAGE) = []"
proof (rule differ_same)
  fix i assume i: "base * PAGE \<le> i" "i < (base + BRANCH ^ n) * PAGE" "i < length xs" "i < length ys"
  let ?j = "i div PAGE - base"
  have "base \<le> i div PAGE" using i(1) by (metis PAGE_pos less_eq_div_iff_mult_less_eq)
  moreover have "i div PAGE < base + BRANCH ^ n" using i(2) by (rule less_mult_imp_div_less)
  ultimately have j: "?j < BRANCH ^ n" "base + ?j = i div PAGE" by auto
  then have "list_page xs (i div PAGE) = list_page ys (i div PAGE)"
    using assms by (metis subtree_def)
  then have "seg xs (i div PAGE) = seg ys (i div PAGE)"
    using seg_offset(3) [OF i(3)] seg_offset(3) [OF i(4)] by (simp add: list_page_seg)
  then show "xs ! i = ys ! i" using seg_offset(2) [OF i(3)] seg_offset(2) [OF i(4)] by simp
qed

lemma leaf_differ:
  assumes "subtree 0 (Leaf p) xs base" "subtree 0 (Leaf q) ys base" "base * PAGE < min (length xs) (length ys)"
  shows "map (\<lambda>offset. base * PAGE + offset) (filter (\<lambda>offset. p ! offset \<noteq> q ! offset)
      [0..<min (min (length p) (length q)) (min (length xs) (length ys) - base * PAGE)])
    = differ xs ys (base * PAGE) ((base + 1) * PAGE)"
proof -
  have p: "p = seg xs base" "q = seg ys base"
    using assms by (auto simp: subtree_def list_page_seg seg_def split: if_splits)
  let ?n = "min PAGE (min (length xs) (length ys) - base * PAGE)"
  have len: "min (min (length p) (length q)) (min (length xs) (length ys) - base * PAGE) = ?n"
    unfolding p length_seg by linarith
  have "filter (\<lambda>k. p ! k \<noteq> q ! k) [0..<?n] = filter (\<lambda>k. xs ! (base * PAGE + k) \<noteq> ys ! (base * PAGE + k)) [0..<?n]"
    unfolding p by (intro filter_cong) (auto simp: nth_seg)
  moreover have "[base * PAGE..<min ((base + 1) * PAGE) (min (length xs) (length ys))] = map (\<lambda>k. base * PAGE + k) [0..<?n]"
  proof -
    have "min ((base + 1) * PAGE) (min (length xs) (length ys)) = ?n + base * PAGE"
      using assms(3) unfolding distrib_right by linarith
    then show ?thesis using map_add_upt [of "base * PAGE" ?n] by (simp add: add.commute)
  qed
  ultimately show ?thesis unfolding differ_def len by (simp add: filter_map o_def)
qed


lemma takeWhile_snoc: "\<not> P y \<Longrightarrow> takeWhile P (xs @ [y]) = takeWhile P xs"
  by (induction xs) auto

lemma differ_loop:
  assumes "mono B" "\<And>k s. k < m \<Longrightarrow> B k < min (length xs) (length ys) \<Longrightarrow> f k s = Inr (s @ differ xs ys (B k) (B (k + 1)))"
  shows "for_fold f (takeWhile (\<lambda>k. \<not> B k \<ge> min (length xs) (length ys)) [0..<m]) s = Inr (s @ differ xs ys (B 0) (B m))"
  using assms(2)
proof (induction m)
  case 0
  then show ?case by (simp add: differ_def)
next
  case (Suc m)
  let ?C = "min (length xs) (length ys)"
  have IH: "for_fold f (takeWhile (\<lambda>k. \<not> B k \<ge> ?C) [0..<m]) s = Inr (s @ differ xs ys (B 0) (B m))"
    by (rule Suc.IH) (simp add: Suc.prems)
  have B: "B 0 \<le> B m" "B m \<le> B (Suc m)" using assms(1) by (simp_all add: monoD)
  show ?case
  proof (cases "B m < ?C")
    case True
    then have "\<not> B k \<ge> ?C" if "k < m" for k using monoD [OF assms(1), of k m] that by linarith
    then have all: "takeWhile (\<lambda>k. \<not> B k \<ge> ?C) [0..<m] = [0..<m]"
      "takeWhile (\<lambda>k. \<not> B k \<ge> ?C) [0..<Suc m] = [0..<m] @ [m]"
      using True by (auto simp: takeWhile_eq_all_conv takeWhile_append)
    show ?thesis
      using IH Suc.prems [OF _ True] differ_append [OF B, of xs ys] unfolding all by (simp add: for_fold_append del: upt_Suc)
  next
    case False
    then have "\<not> \<not> B m \<ge> ?C" by linarith
    then have "takeWhile (\<lambda>k. \<not> B k \<ge> ?C) [0..<Suc m] = takeWhile (\<lambda>k. \<not> B k \<ge> ?C) [0..<m]"
      unfolding upt_Suc using takeWhile_snoc [of "\<lambda>k. \<not> B k \<ge> ?C" m "[0..<m]"] by simp
    moreover have "differ xs ys (B m) (B (Suc m)) = []" using False by (intro differ_beyond) linarith
    ultimately show ?thesis using IH differ_append [OF B, of xs ys] by (simp del: upt_Suc)
  qed
qed

text \<open>The body of the loop for a pair of existing children.\<close>

definition collect_child :: "('a vec_node \<Rightarrow> 'a vec_node \<Rightarrow> bool) \<Rightarrow> nat \<Rightarrow> nat \<Rightarrow> nat \<Rightarrow> 'a vec_node \<Rightarrow> 'a vec_node
    \<Rightarrow> nat list \<Rightarrow> (panic, nat list) result" where
  "collect_child ptr_eq levels child_base_page common_len left_child right_child changed =
     (if levels = 1 then
        (case (left_child, right_child) of
           (Leaf left_page, Leaf right_page) \<Rightarrow>
             (let page_len = min (min (length left_page) (length right_page)) (common_len - child_base_page * PAGE)
              in Inr (changed @ map (\<lambda>offset. child_base_page * PAGE + offset)
                   (filter (\<lambda>offset. left_page ! offset \<noteq> right_page ! offset) [0..<page_len])))
         | _ \<Rightarrow> Inr changed)
      else if levels = 0 then Inl Panic
      else collect_changed_indices ptr_eq (levels - 1) left_child right_child child_base_page common_len changed)"

lemma collect_node:
  assumes ptr: "\<forall>l r. ptr_eq l r \<longrightarrow> l = r"
    and tree: "subtree (Suc n) l xs base" "subtree (Suc n) r ys base" "n < max_levels"
    and child: "\<And>k c d s. subtree n c xs (base + k * BRANCH ^ n) \<Longrightarrow> subtree n d ys (base + k * BRANCH ^ n) \<Longrightarrow>
      (base + k * BRANCH ^ n) * PAGE < min (length xs) (length ys) \<Longrightarrow>
      collect_child ptr_eq (Suc n) (base + k * BRANCH ^ n) (min (length xs) (length ys)) c d s
        = Inr (s @ differ xs ys ((base + k * BRANCH ^ n) * PAGE) ((base + k * BRANCH ^ n + BRANCH ^ n) * PAGE))"
  shows "collect_changed_indices ptr_eq (Suc n) l r base (min (length xs) (length ys)) changed
    = Inr (changed @ differ xs ys (base * PAGE) ((base + BRANCH ^ Suc n) * PAGE))"
proof (cases "ptr_eq l r")
  case True
  then have "l = r" using ptr by blast
  then show ?thesis
    using True subtree_eq [OF tree(1)] tree(2) by (subst collect_changed_indices.simps) simp
next
  case False
  obtain cs ds where b: "l = Branch cs" "length cs = BRANCH" "r = Branch ds" "length ds = BRANCH"
    using node_ok_Suc [of n l] node_ok_Suc [of n r] tree(1,2) by (auto simp: subtree_def)
  have cap: "page_capacity n = BRANCH ^ n" using tree(3) by (intro page_capacity_pow) simp
  let ?B = "\<lambda>k. (base + k * BRANCH ^ n) * PAGE"
  have mono: "mono ?B" by (intro monoI mult_le_mono1 add_left_mono)
  have bounds: "?B 0 = base * PAGE" "?B BRANCH = (base + BRANCH ^ Suc n) * PAGE" by simp_all
  show ?thesis
    unfolding bounds [symmetric]
    apply (subst collect_changed_indices.simps)
    unfolding b prod.case vec_node.case Let_def diff_Suc_1 cap if_not_P [OF False [unfolded b]]
  proof (rule differ_loop [OF mono], goal_cases)
    case (1 k s)
    note k = 1
    obtain c where c: "cs ! k = Some c" "subtree n c xs (base + k * BRANCH ^ n)"
      using subtree_child [OF tree(1) [unfolded b] k(1)] k(2) by auto
    obtain d where d: "ds ! k = Some d" "subtree n d ys (base + k * BRANCH ^ n)"
      using subtree_child [OF tree(2) [unfolded b] k(1)] k(2) by auto
    have succ: "?B (k + 1) = (base + k * BRANCH ^ n + BRANCH ^ n) * PAGE" by (simp add: algebra_simps)
    have "differ xs ys (?B k) (?B (k + 1)) = []" if "ptr_eq c d"
      using ptr [rule_format, OF that] subtree_eq [OF c(2)] d(2) unfolding succ by simp
    then show ?case
      using child [OF c(2) d(2) k(2), of s] k(1) c(1) d(1) b(2,4) unfolding succ collect_child_def Let_def
      by (cases n) simp_all
  qed
qed

lemma collect_changed_indices_rep:
  assumes ptr: "\<forall>l r. ptr_eq l r \<longrightarrow> l = r"
  shows "subtree (Suc n) l xs base \<Longrightarrow> subtree (Suc n) r ys base \<Longrightarrow> n < max_levels \<Longrightarrow>
    collect_changed_indices ptr_eq (Suc n) l r base (min (length xs) (length ys)) changed
      = Inr (changed @ differ xs ys (base * PAGE) ((base + BRANCH ^ Suc n) * PAGE))"
proof (induction n arbitrary: l r base changed)
  case (0 l r base changed)
  show ?case
  proof (rule collect_node [OF ptr 0(1,2,3)])
    fix k c d s
    assume "subtree 0 c xs (base + k * BRANCH ^ 0)" "subtree 0 d ys (base + k * BRANCH ^ 0)"
      and less: "(base + k * BRANCH ^ 0) * PAGE < min (length xs) (length ys)"
    moreover from this obtain p q where "c = Leaf p" "d = Leaf q"
      using node_ok_0 [of c] node_ok_0 [of d] by (auto simp: subtree_def)
    ultimately show "collect_child ptr_eq (Suc 0) (base + k * BRANCH ^ 0) (min (length xs) (length ys)) c d s
      = Inr (s @ differ xs ys ((base + k * BRANCH ^ 0) * PAGE) ((base + k * BRANCH ^ 0 + BRANCH ^ 0) * PAGE))"
      using leaf_differ [of p xs "base + k" q ys] by (simp add: collect_child_def Let_def)
  qed
next
  case (Suc n)
  show ?case
  proof (rule collect_node [OF ptr Suc.prems])
    fix k c d s
    assume "subtree (Suc n) c xs (base + k * BRANCH ^ Suc n)" "subtree (Suc n) d ys (base + k * BRANCH ^ Suc n)"
    from Suc.IH [OF this] Suc.prems(3)
    show "collect_child ptr_eq (Suc (Suc n)) (base + k * BRANCH ^ Suc n) (min (length xs) (length ys)) c d s
      = Inr (s @ differ xs ys ((base + k * BRANCH ^ Suc n) * PAGE) ((base + k * BRANCH ^ Suc n + BRANCH ^ Suc n) * PAGE))"
      by (simp add: collect_child_def del: power_Suc)
  qed
qed

lemma zero_subtree_rep:
  "subtree (Suc m) root xs 0 \<Longrightarrow> xs \<noteq> [] \<Longrightarrow> n \<le> m \<Longrightarrow>
    \<exists>node. zero_subtree root (Suc m) (Suc n) = Some node \<and> subtree (Suc n) node xs 0"
proof (induction "m - n" arbitrary: m root)
  case 0
  then show ?case by (subst zero_subtree.simps) simp
next
  case (Suc d)
  obtain m' where m: "m = Suc m'" "n \<le> m'" "d = m' - n" using Suc.hyps(2) by (cases m) auto
  obtain cs where cs: "root = Branch cs" "length cs = BRANCH"
    using node_ok_Suc [of m root] Suc.prems(1) by (auto simp: subtree_def)
  obtain c where c: "cs ! 0 = Some c" "subtree (Suc m') c xs 0"
    using subtree_child [of m cs xs 0 0] Suc.prems(1,2) cs(1) m(1) by auto
  obtain ds where "cs = Some c # ds" using c(1) cs(2) BRANCH_pos by (cases cs) (auto simp del: BRANCH_pos)
  then have "zero_subtree root (Suc m) (Suc n) = zero_subtree c (Suc m') (Suc n)"
    using cs(1) m by (subst zero_subtree.simps) simp
  then show ?case using Suc.hyps(1) [OF m(3) c(2) Suc.prems(2) m(2)] by simp
qed

lemma vec_rep_subtree:
  assumes "vec_rep v xs"
  obtains n where "vec_levels v = Suc n" "n < max_levels" "subtree (Suc n) (vec_root v) xs 0"
    "length xs \<le> BRANCH ^ Suc n * PAGE"
  using assms by (rule vec_repE) (auto simp: tree_rep_def subtree_def simp del: power_Suc)

lemma changed_indices_rep:
  assumes ptr: "\<forall>l r. ptr_eq l r \<longrightarrow> l = r" and rep: "vec_rep v xs" "vec_rep w ys"
  shows "changed_indices ptr_eq v w = Inr (filter (\<lambda>i. xs ! i \<noteq> ys ! i) [0..<min (length xs) (length ys)]
    @ [min (length xs) (length ys)..<max (length xs) (length ys)])"
proof -
  let ?C = "min (length xs) (length ys)"
  obtain m where m: "vec_levels v = Suc m" "m < max_levels" "subtree (Suc m) (vec_root v) xs 0"
    "length xs \<le> BRANCH ^ Suc m * PAGE" by (rule vec_rep_subtree [OF rep(1)])
  obtain n where n: "vec_levels w = Suc n" "n < max_levels" "subtree (Suc n) (vec_root w) ys 0"
    "length ys \<le> BRANCH ^ Suc n * PAGE" by (rule vec_rep_subtree [OF rep(2)])
  have full: "differ xs ys 0 b = filter (\<lambda>i. xs ! i \<noteq> ys ! i) [0..<?C]" if "?C \<le> b" for b
    using that by (simp add: differ_def min_absorb2)
  note collect = collect_changed_indices_rep [where ptr_eq = ptr_eq and base = 0 and changed = "[]", OF ptr]
  have scan: "for_fold (\<lambda>index changed. res_bind (vec_index v index) (\<lambda>x. res_bind (vec_index w index) (\<lambda>y.
      Inr (if x \<noteq> y then changed @ [index] else changed)))) [0..<k] [] = Inr (filter (\<lambda>i. xs ! i \<noteq> ys ! i) [0..<k])"
    if "k \<le> ?C" for k
    using that by (induction k) (simp_all add: for_fold_append vec_index_rep [OF rep(1)] vec_index_rep [OF rep(2)])
  consider "?C = 0" | "m = n" | "xs \<noteq> []" "ys \<noteq> []" "m < n" | "xs \<noteq> []" "ys \<noteq> []" "n < m" by fastforce
  then show ?thesis
  proof cases
    case 1
    have "collect_changed_indices ptr_eq l a b c 0 [] = Inr []" for l a b c
      by (subst collect_changed_indices.simps) (auto simp: upt_rec split: vec_node.splits)
    with 1 scan [of 0] show ?thesis
      by (simp add: changed_indices_def Let_def vec_rep_len [OF rep(1)] vec_rep_len [OF rep(2)] split: option.splits)
  next
    case 2
    then show ?thesis
      using collect [OF m(3), of "vec_root w" ys] n m full [of "BRANCH ^ Suc m * PAGE"]
      by (simp add: changed_indices_def Let_def vec_rep_len [OF rep(1)] vec_rep_len [OF rep(2)] del: power_Suc)
  next
    case 3
    obtain node where "zero_subtree (vec_root w) (Suc n) (Suc m) = Some node" "subtree (Suc m) node ys 0"
      using 3 zero_subtree_rep [OF n(3), of m] by fastforce
    then show ?thesis
      using 3 collect [OF m(3), of node ys] n m full [of "BRANCH ^ Suc m * PAGE"]
      by (simp add: changed_indices_def Let_def vec_rep_len [OF rep(1)] vec_rep_len [OF rep(2)] del: power_Suc)
  next
    case 4
    obtain node where "zero_subtree (vec_root v) (Suc m) (Suc n) = Some node" "subtree (Suc n) node xs 0"
      using 4 zero_subtree_rep [OF m(3), of n] by fastforce
    then show ?thesis
      using 4 collect [of n node xs "vec_root w" ys] n m full [of "BRANCH ^ Suc n * PAGE"]
      by (simp add: changed_indices_def Let_def vec_rep_len [OF rep(1)] vec_rep_len [OF rep(2)] del: power_Suc)
  qed
qed

section \<open>Histories\<close>

text \<open>The commands of a vector, on the vector and on the list it stands for.\<close>

datatype 'a vec_cmd =
    Push 'a | Pop | Put nat 'a | Modify nat "'a \<Rightarrow> 'a" | Remove nat | Swap_Remove nat | Swap nat nat
  | Truncate nat | Resize nat 'a | Clone | Slice

fun vec_step :: "'a vec_cmd \<Rightarrow> 'a persistent_vec \<Rightarrow> (panic, 'a persistent_vec \<times> 'a list) result" where
  "vec_step (Push x) v = res_bind (vec_push v x) (\<lambda>v'. Inr (v', []))"
| "vec_step Pop v = res_bind (vec_pop v) (\<lambda>(v', x). Inr (v', case x of None \<Rightarrow> [] | Some x \<Rightarrow> [x]))"
| "vec_step (Put i x) v = res_bind (vec_set v i x) (\<lambda>v'. Inr (v', []))"
| "vec_step (Modify i f) v = res_bind (vec_get_mut v i f) (\<lambda>v'. Inr (case v' of None \<Rightarrow> v | Some v' \<Rightarrow> v', []))"
| "vec_step (Remove i) v = res_bind (vec_remove v i) (\<lambda>(v', x). Inr (v', [x]))"
| "vec_step (Swap_Remove i) v = res_bind (vec_swap_remove v i) (\<lambda>(v', x). Inr (v', [x]))"
| "vec_step (Swap i j) v = res_bind (vec_swap v i j) (\<lambda>v'. Inr (v', []))"
| "vec_step (Truncate n) v = res_bind (vec_truncate v n) (\<lambda>v'. Inr (v', []))"
| "vec_step (Resize n x) v = res_bind (vec_resize v n x) (\<lambda>v'. Inr (v', []))"
| "vec_step Clone v = Inr (vec_clone v, [])"
| "vec_step Slice v = as_slice v"

fun list_step :: "'a vec_cmd \<Rightarrow> 'a list \<Rightarrow> (panic, 'a list \<times> 'a list) result" where
  "list_step (Push x) xs = Inr (xs @ [x], [])"
| "list_step Pop xs = Inr (butlast xs, if xs = [] then [] else [last xs])"
| "list_step (Put i x) xs = (if i < length xs then Inr (xs[i := x], []) else Inl Panic)"
| "list_step (Modify i f) xs = Inr (if i < length xs then xs[i := f (xs ! i)] else xs, [])"
| "list_step (Remove i) xs = (if i < length xs then Inr (take i xs @ drop (i + 1) xs, [xs ! i]) else Inl Panic)"
| "list_step (Swap_Remove i) xs =
     (if i < length xs
      then Inr (if i = length xs - 1 then butlast xs else (butlast xs)[i := last xs], [xs ! i]) else Inl Panic)"
| "list_step (Swap i j) xs =
     (if i < length xs \<and> j < length xs then Inr (xs[i := xs ! j, j := xs ! i], []) else Inl Panic)"
| "list_step (Truncate n) xs = Inr (take n xs, [])"
| "list_step (Resize n x) xs = Inr (resize n x xs, [])"
| "list_step Clone xs = Inr (xs, [])"
| "list_step Slice xs = Inr (xs, xs)"

text \<open>A vector never holds more elements than a \<open>usize\<close> can count.\<close>

fun vec_fits :: "'a vec_cmd \<Rightarrow> 'a list \<Rightarrow> bool" where
  "vec_fits (Push x) xs \<longleftrightarrow> length xs < usize_max"
| "vec_fits (Resize n x) xs \<longleftrightarrow> n \<le> usize_max"
| "vec_fits _ xs = True"

lemma vec_step_ok:
  "vec_rep v xs \<Longrightarrow> vec_fits c xs \<Longrightarrow> list_step c xs = Inr (ys, obs) \<Longrightarrow>
    \<exists>v'. vec_step c v = Inr (v', obs) \<and> vec_rep v' ys"
proof (cases c)
  case (Push x)
  moreover assume "vec_rep v xs" "vec_fits c xs" "list_step c xs = Inr (ys, obs)"
  ultimately show ?thesis using vec_push_rep [of v xs x] by auto
next
  case Pop
  moreover assume "vec_rep v xs" "list_step c xs = Inr (ys, obs)"
  ultimately show ?thesis using vec_pop_rep [of v xs] by (auto split: if_splits)
next
  case (Put i x)
  moreover assume "vec_rep v xs" "list_step c xs = Inr (ys, obs)"
  ultimately show ?thesis using vec_set_rep [of v xs i x] by (auto split: if_splits)
next
  case (Modify i f)
  moreover assume "vec_rep v xs" "list_step c xs = Inr (ys, obs)"
  ultimately show ?thesis using vec_get_mut_rep [of v xs i f] by (auto split: if_splits)
next
  case (Remove i)
  moreover assume "vec_rep v xs" "list_step c xs = Inr (ys, obs)"
  ultimately show ?thesis using vec_remove_rep [of v xs i] by (auto simp: remove_at_def split: if_splits)
next
  case (Swap_Remove i)
  moreover assume "vec_rep v xs" "list_step c xs = Inr (ys, obs)"
  ultimately show ?thesis using vec_swap_remove_rep [of v xs i] by (auto split: if_splits)
next
  case (Swap i j)
  moreover assume "vec_rep v xs" "list_step c xs = Inr (ys, obs)"
  ultimately show ?thesis using vec_swap_rep [of v xs i j] by (auto split: if_splits)
next
  case (Truncate n)
  moreover assume "vec_rep v xs" "list_step c xs = Inr (ys, obs)"
  ultimately show ?thesis using vec_truncate_rep [of v xs n] by auto
next
  case (Resize n x)
  moreover assume "vec_rep v xs" "vec_fits c xs" "list_step c xs = Inr (ys, obs)"
  ultimately show ?thesis using vec_resize_rep [of v xs n x] by (auto simp: resize_def)
next
  case Clone
  moreover assume "vec_rep v xs" "list_step c xs = Inr (ys, obs)"
  ultimately show ?thesis using vec_clone_rep [of v xs] by auto
next
  case Slice
  moreover assume "vec_rep v xs" "list_step c xs = Inr (ys, obs)"
  ultimately show ?thesis using as_slice_rep [of v xs] by auto
qed

lemma vec_step_error: "vec_rep v xs \<Longrightarrow> list_step c xs = Inl e \<Longrightarrow> vec_step c v = Inl e"
  using vec_set_rep [of v xs] vec_remove_rep [of v xs] vec_swap_remove_rep [of v xs] vec_swap_rep [of v xs]
  by (cases c) (auto split: if_splits)

interpretation pvec: refined_steps vec_rep vec_step list_step vec_fits
  by unfold_locales (simp_all add: vec_step_ok vec_step_error)

lemmas vec_observe = vec_get_rep vec_index_rep vec_iter_from_rep vec_rep_len

section \<open>Properties\<close>

text \<open>
  C2: along every history of pushes, pops, writes, mutable accesses, removals, exchanges, truncations,
  resizes, clones and slice views that stays within the \<open>usize\<close> range, the paged vector behaves as the
  list of that history: it panics exactly where an index is out of range, returns the same elements
  (a slice view is never stale), and the resulting vector answers \<open>len\<close>, \<open>get\<close> and iteration as the list.
\<close>
theorem persistent_vec_history:
  assumes "fits_steps list_step vec_fits cs []"
  shows "case run_steps list_step cs [] of
      Inl e \<Rightarrow> run_steps vec_step cs vec_default = Inl e
    | Inr (xs, obs) \<Rightarrow> \<exists>v. run_steps vec_step cs vec_default = Inr (v, obs) \<and> vec_rep v xs \<and> vec_len v = length xs
        \<and> (\<forall>i. vec_get v i = Inr (get_vec xs i)) \<and> vec_iter_from v 0 = Inr xs"
proof (cases "run_steps list_step cs []")
  case (Inl e)
  then show ?thesis using pvec.history_error [OF vec_rep_default assms] by simp
next
  case (Inr r)
  obtain xs obs where r: "r = (xs, obs)" by fastforce
  obtain v where v: "run_steps vec_step cs vec_default = Inr (v, obs)" "vec_rep v xs"
    using pvec.history_ok [OF vec_rep_default assms Inr [unfolded r]] by blast
  then show ?thesis using Inr r vec_observe [OF v(2)] by simp
qed

theorem persistent_vec_history_witness:
  "fits_steps list_step vec_fits [Push 3, Push (4::nat), Resize 300 7, Swap 0 299, Remove 1, Slice, Swap_Remove 298] []
   \<and> (case run_steps list_step [Push 3, Push (4::nat), Resize 300 7, Swap 0 299, Remove 1, Slice, Swap_Remove 298] [] of
      Inl e \<Rightarrow> run_steps vec_step [Push 3, Push (4::nat), Resize 300 7, Swap 0 299, Remove 1, Slice, Swap_Remove 298] vec_default = Inl e
    | Inr (xs, obs) \<Rightarrow> \<exists>v. run_steps vec_step [Push 3, Push (4::nat), Resize 300 7, Swap 0 299, Remove 1, Slice, Swap_Remove 298]
          vec_default = Inr (v, obs) \<and> vec_rep v xs \<and> vec_len v = length xs
        \<and> (\<forall>i. vec_get v i = Inr (get_vec xs i)) \<and> vec_iter_from v 0 = Inr xs)"
proof -
  have fits: "fits_steps list_step vec_fits [Push 3, Push (4::nat), Resize 300 7, Swap 0 299, Remove 1, Slice, Swap_Remove 298] []"
    by (simp add: usize_max_def split: sum.splits)
  show ?thesis using persistent_vec_history [OF fits] fits by blast
qed

text \<open>
  C32: converting a list to a paged vector and reading it back gives the list: by iteration, as a slice,
  by index, and two vectors built this way are equal exactly when the lists are.
\<close>
theorem from_vec_round_trip:
  assumes "length xs \<le> usize_max" "length ys \<le> usize_max"
  shows "\<exists>v w. from_vec xs = Inr v \<and> from_vec ys = Inr w \<and> vec_iter_from v 0 = Inr xs
    \<and> (\<exists>v'. as_slice v = Inr (v', xs)) \<and> (\<forall>i < length xs. vec_index v i = Inr (xs ! i))
    \<and> vec_eq v w = Inr (xs = ys)"
proof -
  obtain v w where v: "from_vec xs = Inr v" "vec_rep v xs" and w: "from_vec ys = Inr w" "vec_rep w ys"
    using from_vec_rep assms by blast
  obtain v' where "as_slice v = Inr (v', xs)" using as_slice_rep [OF v(2)] by blast
  then have "from_vec xs = Inr v \<and> from_vec ys = Inr w \<and> vec_iter_from v 0 = Inr xs
    \<and> (\<exists>v'. as_slice v = Inr (v', xs)) \<and> (\<forall>i < length xs. vec_index v i = Inr (xs ! i)) \<and> vec_eq v w = Inr (xs = ys)"
    using v w vec_observe [OF v(2)] vec_eq_rep [OF v(2) w(2)] by simp
  then show ?thesis by blast
qed

theorem from_vec_round_trip_witness:
  "\<exists>v w. from_vec [1::nat, 2, 3] = Inr v \<and> from_vec [1::nat, 5, 3] = Inr w \<and> vec_iter_from v 0 = Inr [1, 2, 3]
    \<and> (\<exists>v'. as_slice v = Inr (v', [1, 2, 3])) \<and> vec_eq v w = Inr False"
proof -
  have "length [1::nat, 2, 3] \<le> usize_max" "length [1::nat, 5, 3] \<le> usize_max" by (simp_all add: usize_max_def)
  from from_vec_round_trip [OF this] show ?thesis by auto
qed

text \<open>
  C6: the structural difference of two snapshots is exact. Skipping shared subtrees by pointer identity
  and aligning trees of different depth loses nothing: the result lists, in order, the common indices whose
  elements differ and then every index only the longer vector has. All that is assumed of
  \<open>Arc::ptr_eq\<close> is that nodes at the same address are equal.
\<close>
theorem changed_indices_exact:
  assumes "\<forall>l r. ptr_eq l r \<longrightarrow> l = r" "vec_rep v xs" "vec_rep w ys"
  shows "changed_indices ptr_eq v w = Inr (filter (\<lambda>i. xs ! i \<noteq> ys ! i) [0..<min (length xs) (length ys)]
    @ [min (length xs) (length ys)..<max (length xs) (length ys)])"
  by (rule changed_indices_rep [OF assms])

theorem changed_indices_exact_witness:
  "\<exists>v w. from_vec [1::nat, 2, 3] = Inr v \<and> from_vec [1::nat, 5, 3, 4] = Inr w
    \<and> vec_rep v [1, 2, 3] \<and> vec_rep w [1, 5, 3, 4] \<and> changed_indices (=) v w = Inr [1, 3]"
proof -
  obtain v w where v: "from_vec [1::nat, 2, 3] = Inr v" "vec_rep v [1, 2, 3]"
    and w: "from_vec [1::nat, 5, 3, 4] = Inr w" "vec_rep w [1, 5, 3, 4]"
    using from_vec_rep [of "[1::nat, 2, 3]"] from_vec_rep [of "[1::nat, 5, 3, 4]"] by (auto simp: usize_max_def)
  have "changed_indices (=) v w = Inr [1, 3]"
    using changed_indices_exact [OF _ v(2) w(2), of "(=)"] by (simp add: upt_rec)
  then show ?thesis using v w by blast
qed

text \<open>
  C33: the loop that deepens the tree terminates for every page number a 64-bit length can address, after
  at most twelve levels, and leaves the represented list and the cached slice unchanged.
\<close>
theorem ensure_page_capacity_terminates:
  assumes "vec_rep v xs" "i \<le> usize_max div PAGE"
  shows "\<exists>v'. ensure_page_capacity v i = Inr v' \<and> i < page_capacity (vec_levels v') \<and> vec_levels v' \<le> 12
    \<and> vec_rep v' xs \<and> contiguous_cache v' = contiguous_cache v"
proof -
  obtain n where n: "vec_levels v = Suc n" "tree_rep n (vec_root v) xs" by (rule vec_repE [OF assms(1)])
  have "i < BRANCH ^ max_levels" using assms(2) by (simp add: usize_max_def PAGE_def BRANCH_def max_levels_def)
  then obtain root' n' where g: "grow i (vec_root v) (Suc n) = Some (root', Suc n')" "tree_rep n' root' xs"
    "i < BRANCH ^ Suc n'"
    using grow_ok [OF n(2)] by blast
  have n': "Suc n' \<le> max_levels" using g(2) by (simp add: tree_rep_def)
  then have "i < page_capacity (Suc n')" using g(3) page_capacity_pow by simp
  then show ?thesis
    using g n n' assms(1)
    by (intro exI [of _ "v\<lparr>vec_root := root', vec_levels := Suc n'\<rparr>"])
      (auto simp: ensure_page_capacity_def vec_rep_def max_levels_def)
qed

theorem ensure_page_capacity_terminates_witness:
  "vec_rep (vec_default :: nat persistent_vec) [] \<and> 1000000 \<le> usize_max div PAGE
   \<and> (\<exists>v'. ensure_page_capacity (vec_default :: nat persistent_vec) 1000000 = Inr v' \<and> 1000000 < page_capacity (vec_levels v')
       \<and> vec_levels v' \<le> 12 \<and> vec_rep v' [] \<and> contiguous_cache v' = contiguous_cache (vec_default :: nat persistent_vec))"
proof -
  have "1000000 \<le> usize_max div PAGE" by (simp add: usize_max_def PAGE_def)
  then show ?thesis
    using ensure_page_capacity_terminates [OF vec_rep_default, of 1000000] vec_rep_default by blast
qed

end
