(* ===== verification/Grounded_Program.thy ===== *)
theory Grounded_Program
  imports Std_Collections
begin

text \<open>
  \<open>kernel-grounded-closure\<close>, \<open>lib.rs\<close> and \<open>index.rs\<close>: grounded programs (a finite universe of atoms, seed
  atoms, and rules that derive a head from a body), the certificates that record which atoms are live, and
  the indices the solver and the maintenance use.

  Atom and rule identifiers wrap a \<open>usize\<close> and stand for it. A \<open>PersistentVec\<close> is the list it represents;
  \<open>Persistent_Vec_Correct\<close> proves that representation exact. Indexing past the end of a vector is the
  failure \<open>Abort\<close>, a reported error is \<open>Raise\<close>.
\<close>

section \<open>Errors and indexing\<close>

type_synonym grounded_atom_id = nat
type_synonym grounded_rule_id = nat

datatype grounded_closure_error =
    AtomOutsideUniverse grounded_atom_id
  | RuleOutsideProgram grounded_rule_id
  | CertificateShapeMismatch
  | LiveAtomMissingRank grounded_atom_id
  | LiveAtomMissingWitness grounded_atom_id
  | DeadAtomHasProofState grounded_atom_id
  | SeedWitnessForNonSeed grounded_atom_id
  | SeedHasNonZeroRank grounded_atom_id
  | WitnessRuleDisabled grounded_rule_id
  | WitnessRuleHeadMismatch grounded_atom_id grounded_rule_id
  | WitnessPremiseDead grounded_atom_id grounded_atom_id
  | WitnessRankNotStrictlySmaller grounded_atom_id grounded_atom_id
  | MissingSeed grounded_atom_id
  | NotClosedUnderRule grounded_rule_id
  | StructuralUniverseShrank nat nat
  | StructuralUniverseOverflow

datatype fault = Raise grounded_closure_error | Abort

definition idx :: "'a list \<Rightarrow> nat \<Rightarrow> (fault, 'a) result" where
  "idx xs i = ok_or (get_vec xs i) Abort"

definition put :: "'a list \<Rightarrow> nat \<Rightarrow> 'a \<Rightarrow> (fault, 'a list) result" where
  "put xs i x = (if i < length xs then Inr (xs[i := x]) else Inl Abort)"

text \<open>\<open>xs[i].push(x)\<close> and other changes of one element in place.\<close>

definition modify :: "'a list \<Rightarrow> nat \<Rightarrow> ('a \<Rightarrow> 'a) \<Rightarrow> (fault, 'a list) result" where
  "modify xs i f = res_bind (idx xs i) (\<lambda>x. put xs i (f x))"

lemma idx_ok [simp]: "i < length xs \<Longrightarrow> idx xs i = Inr (xs ! i)"
  by (simp add: idx_def)

lemma put_ok [simp]: "i < length xs \<Longrightarrow> put xs i x = Inr (xs[i := x])"
  by (simp add: put_def)

lemma modify_ok [simp]: "i < length xs \<Longrightarrow> modify xs i f = Inr (xs[i := f (xs ! i)])"
  by (simp add: modify_def)

section \<open>Rules\<close>

record grounded_rule =
  body :: "grounded_atom_id list"
  head :: grounded_atom_id
  enabled :: bool

definition rule_new :: "grounded_atom_id list \<Rightarrow> grounded_atom_id \<Rightarrow> grounded_rule" where
  "rule_new b h = \<lparr>body = remdups_adj (sort b), head = h, enabled = True\<rparr>"

definition rule_disabled :: "grounded_atom_id list \<Rightarrow> grounded_atom_id \<Rightarrow> grounded_rule" where
  "rule_disabled b h = (rule_new b h)\<lparr>enabled := False\<rparr>"

section \<open>Seed sets\<close>

record grounded_seed_set =
  members :: "bool list"
  seed_count :: nat

definition seeds_contains :: "grounded_seed_set \<Rightarrow> grounded_atom_id \<Rightarrow> bool" where
  "seeds_contains s atom = (case get_vec (members s) atom of None \<Rightarrow> False | Some b \<Rightarrow> b)"

definition seeds_insert :: "grounded_seed_set \<Rightarrow> grounded_atom_id \<Rightarrow> (fault, grounded_seed_set \<times> bool) result" where
  "seeds_insert s atom =
     (let m = (if atom \<ge> length (members s) then resize (atom + 1) False (members s) else members s) in
      res_bind (idx m atom) (\<lambda>present.
        if present then Inr (s\<lparr>members := m\<rparr>, False)
        else res_bind (put m atom True) (\<lambda>m'. Inr (s\<lparr>members := m', seed_count := seed_count s + 1\<rparr>, True))))"

definition seeds_remove :: "grounded_seed_set \<Rightarrow> grounded_atom_id \<Rightarrow> (fault, grounded_seed_set \<times> bool) result" where
  "seeds_remove s atom =
     (if \<not> seeds_contains s atom then Inr (s, False)
      else res_bind (put (members s) atom False) (\<lambda>m'.
        if seed_count s = 0 then Inl Abort
        else Inr (s\<lparr>members := m', seed_count := seed_count s - 1\<rparr>, True)))"

text \<open>The assertion of \<open>resize_atoms\<close> is a debug assertion, a panic in checked builds.\<close>

definition seeds_resize_atoms :: "grounded_seed_set \<Rightarrow> nat \<Rightarrow> (fault, grounded_seed_set) result" where
  "seeds_resize_atoms s n =
     (if n \<ge> length (members s) then Inr (s\<lparr>members := resize n False (members s)\<rparr>) else Inl Abort)"

definition seeds_iter :: "grounded_seed_set \<Rightarrow> grounded_atom_id list" where
  "seeds_iter s = filter (\<lambda>i. members s ! i) [0..<length (members s)]"

definition seeds_difference :: "grounded_seed_set \<Rightarrow> grounded_seed_set \<Rightarrow> grounded_atom_id list" where
  "seeds_difference s other = filter (\<lambda>atom. \<not> seeds_contains other atom) (seeds_iter s)"

definition from_atoms :: "nat \<Rightarrow> grounded_atom_id list \<Rightarrow> (fault, grounded_seed_set) result" where
  "from_atoms n atoms =
     for_fold (\<lambda>atom s. if atom \<ge> n then Inl (Raise (AtomOutsideUniverse atom))
                        else res_bind (seeds_insert s atom) (\<lambda>(s', _). Inr s'))
       atoms \<lparr>members = replicate n False, seed_count = 0\<rparr>"

section \<open>Programs\<close>

record grounded_program =
  atom_count :: nat
  seeds :: grounded_seed_set
  rules :: "grounded_rule list"

definition validate_atom :: "grounded_program \<Rightarrow> grounded_atom_id \<Rightarrow> (fault, unit) result" where
  "validate_atom P atom = ensure (atom < atom_count P) (Raise (AtomOutsideUniverse atom))"

definition validate_rule :: "grounded_program \<Rightarrow> grounded_rule_id \<Rightarrow> (fault, unit) result" where
  "validate_rule P r = ensure (r < length (rules P)) (Raise (RuleOutsideProgram r))"

definition validate :: "grounded_program \<Rightarrow> (fault, unit) result" where
  "validate P =
     res_bind (for_each (validate_atom P) (seeds_iter (seeds P))) (\<lambda>_.
       for_each (\<lambda>rule. res_bind (validate_atom P (head rule)) (\<lambda>_. for_each (validate_atom P) (body rule))) (rules P))"

definition program_new :: "nat \<Rightarrow> grounded_atom_id list \<Rightarrow> grounded_rule list \<Rightarrow> (fault, grounded_program) result" where
  "program_new n ss rs =
     res_bind (from_atoms n ss) (\<lambda>s.
       let P = \<lparr>atom_count = n, seeds = s, rules = rs\<rparr> in res_bind (validate P) (\<lambda>_. Inr P))"

section \<open>Certificates\<close>

datatype grounded_witness = Seed | Rule grounded_rule_id

record grounded_certificate =
  live :: "bool list"
  rank :: "nat option list"
  witness :: "grounded_witness option list"

definition is_live :: "grounded_certificate \<Rightarrow> grounded_atom_id \<Rightarrow> bool" where
  "is_live c atom = (case get_vec (live c) atom of None \<Rightarrow> False | Some b \<Rightarrow> b)"

definition rank_at :: "grounded_certificate \<Rightarrow> grounded_atom_id \<Rightarrow> nat option" where
  "rank_at c atom = (case get_vec (rank c) atom of None \<Rightarrow> None | Some r \<Rightarrow> r)"

definition witness_at :: "grounded_certificate \<Rightarrow> grounded_atom_id \<Rightarrow> grounded_witness option" where
  "witness_at c atom = (case get_vec (witness c) atom of None \<Rightarrow> None | Some w \<Rightarrow> w)"

definition live_atoms :: "grounded_certificate \<Rightarrow> grounded_atom_id list" where
  "live_atoms c = filter (\<lambda>i. live c ! i) [0..<length (live c)]"

record grounded_work_stats =
  incidence_updates :: nat
  dependency_walks :: nat
  rule_fires :: nat
  affected_atoms :: nat

definition stats_default :: grounded_work_stats where
  "stats_default = \<lparr>incidence_updates = 0, dependency_walks = 0, rule_fires = 0, affected_atoms = 0\<rparr>"

text \<open>The counters saturate.\<close>

definition count_update :: "grounded_work_stats \<Rightarrow> grounded_work_stats" where
  "count_update s = s\<lparr>incidence_updates := saturating_add (incidence_updates s) 1\<rparr>"

definition count_walk :: "grounded_work_stats \<Rightarrow> grounded_work_stats" where
  "count_walk s = s\<lparr>dependency_walks := saturating_add (dependency_walks s) 1\<rparr>"

definition count_fire :: "grounded_work_stats \<Rightarrow> grounded_work_stats" where
  "count_fire s = s\<lparr>rule_fires := saturating_add (rule_fires s) 1\<rparr>"

section \<open>Indices\<close>

record grounded_incidence_index =
  dependents :: "grounded_rule_id list list"
  by_head :: "grounded_rule_id list list"

definition append_rule :: "grounded_incidence_index \<Rightarrow> grounded_rule_id \<Rightarrow> grounded_rule \<Rightarrow> (fault, grounded_incidence_index) result" where
  "append_rule ix rule_id rule =
     res_bind (modify (by_head ix) (head rule) (\<lambda>rs. rs @ [rule_id])) (\<lambda>bh.
     res_bind (for_fold (\<lambda>atom ds. modify ds atom (\<lambda>rs. rs @ [rule_id])) (body rule) (dependents ix)) (\<lambda>ds.
       Inr \<lparr>dependents = ds, by_head = bh\<rparr>))"

text \<open>\<open>compile\<close> adds every rule in order to indices that start empty.\<close>

definition incidence_compile :: "grounded_program \<Rightarrow> (fault, grounded_incidence_index) result" where
  "incidence_compile P =
     for_fold (\<lambda>(rule_id, rule) ix. append_rule ix rule_id rule) (enumerate 0 (rules P))
       \<lparr>dependents = replicate (atom_count P) [], by_head = replicate (atom_count P) []\<rparr>"

definition incidence_resize_atoms :: "grounded_incidence_index \<Rightarrow> nat \<Rightarrow> grounded_incidence_index" where
  "incidence_resize_atoms ix n = \<lparr>dependents = resize n [] (dependents ix), by_head = resize n [] (by_head ix)\<rparr>"

record grounded_witness_index =
  children :: "grounded_atom_id btree_set list"

definition install_from_certificate :: "grounded_witness_index \<Rightarrow> grounded_program \<Rightarrow> grounded_certificate
    \<Rightarrow> grounded_atom_id \<Rightarrow> (fault, grounded_witness_index) result" where
  "install_from_certificate wx P c atom =
     (case witness_at c atom of
        Some (Rule rule_id) \<Rightarrow>
          res_bind (idx (rules P) rule_id) (\<lambda>rule.
          res_bind (for_fold (\<lambda>premise cs. modify cs premise (bs_insert atom)) (body rule) (children wx)) (\<lambda>cs.
            Inr \<lparr>children = cs\<rparr>))
      | _ \<Rightarrow> Inr wx)"

definition remove_from_certificate :: "grounded_witness_index \<Rightarrow> grounded_program \<Rightarrow> grounded_certificate
    \<Rightarrow> grounded_atom_id \<Rightarrow> (fault, grounded_witness_index) result" where
  "remove_from_certificate wx P c atom =
     (case witness_at c atom of
        Some (Rule rule_id) \<Rightarrow>
          res_bind (idx (rules P) rule_id) (\<lambda>rule.
          res_bind (for_fold (\<lambda>premise cs. modify cs premise (bs_remove atom)) (body rule) (children wx)) (\<lambda>cs.
            Inr \<lparr>children = cs\<rparr>))
      | _ \<Rightarrow> Inr wx)"

definition witness_compile :: "grounded_program \<Rightarrow> grounded_certificate \<Rightarrow> (fault, grounded_witness_index) result" where
  "witness_compile P c =
     for_fold (\<lambda>atom wx. install_from_certificate wx P c atom) (live_atoms c)
       \<lparr>children = replicate (atom_count P) []\<rparr>"

definition witness_resize_atoms :: "grounded_witness_index \<Rightarrow> nat \<Rightarrow> grounded_witness_index" where
  "witness_resize_atoms wx n = \<lparr>children = resize n [] (children wx)\<rparr>"

end
