(* ===== verification/Grounded_Solver.thy ===== *)
theory Grounded_Solver
  imports Grounded_Program
begin

text \<open>
  \<open>kernel-grounded-closure\<close>, \<open>solver.rs\<close>: the worklist solver, which counts down the premises each rule
  still waits for, and the checker of certificates. The worklist loop is partial; \<open>Grounded_Solver_Correct\<close>
  proves that it returns.
\<close>

section \<open>The solver\<close>

record solver_state =
  s_live :: "bool list"
  s_rank :: "nat option list"
  s_witness :: "grounded_witness option list"
  s_fired :: "bool list"
  s_queue :: "grounded_atom_id list"
  s_stats :: grounded_work_stats

definition iter_max :: "nat list \<Rightarrow> nat option" where
  "iter_max xs = (case xs of [] \<Rightarrow> None | x # xs \<Rightarrow> Some (fold max xs x))"

text \<open>\<open>max_rank.map_or(0, |value| value.saturating_add(1))\<close>.\<close>

definition next_rank :: "nat option list \<Rightarrow> nat" where
  "next_rank rs = (case iter_max (List.map_filter id rs) of None \<Rightarrow> 0 | Some m \<Rightarrow> saturating_add m 1)"

definition fire_rule :: "grounded_program \<Rightarrow> grounded_rule_id \<Rightarrow> solver_state \<Rightarrow> (fault, solver_state) result" where
  "fire_rule P rule_id s =
     res_bind (idx (s_fired s) rule_id) (\<lambda>already.
     if already then Inr s
     else
       res_bind (put (s_fired s) rule_id True) (\<lambda>f.
       let s = s\<lparr>s_fired := f, s_stats := count_fire (s_stats s)\<rparr> in
       res_bind (idx (rules P) rule_id) (\<lambda>rule.
       res_bind (idx (s_live s) (head rule)) (\<lambda>l.
       if l then Inr s
       else
         res_bind (for_map (idx (s_rank s)) (body rule)) (\<lambda>rs.
         res_bind (put (s_live s) (head rule) True) (\<lambda>lv.
         res_bind (put (s_rank s) (head rule) (Some (next_rank rs))) (\<lambda>rk.
         res_bind (put (s_witness s) (head rule) (Some (Rule rule_id))) (\<lambda>w.
           Inr (s\<lparr>s_live := lv, s_rank := rk, s_witness := w, s_queue := s_queue s @ [head rule]\<rparr>)))))))))"

definition solve_seed :: "grounded_atom_id \<Rightarrow> solver_state \<Rightarrow> (fault, solver_state) result" where
  "solve_seed seed s =
     res_bind (idx (s_live s) seed) (\<lambda>l.
     if l then Inr s
     else
       res_bind (put (s_live s) seed True) (\<lambda>lv.
       res_bind (put (s_rank s) seed (Some 0)) (\<lambda>rk.
       res_bind (put (s_witness s) seed (Some Seed)) (\<lambda>w.
         Inr (s\<lparr>s_live := lv, s_rank := rk, s_witness := w, s_queue := s_queue s @ [seed]\<rparr>)))))"

text \<open>The visit of one rule that waits for the atom taken from the queue.\<close>

definition solve_visit :: "grounded_program \<Rightarrow> grounded_rule_id \<Rightarrow> solver_state \<times> nat list
    \<Rightarrow> (fault, solver_state \<times> nat list) result" where
  "solve_visit P rule_id = (\<lambda>(s, remaining).
     res_bind (idx (s_fired s) rule_id) (\<lambda>already.
     res_bind (idx remaining rule_id) (\<lambda>left.
     if already \<or> left = 0 then Inr (s, remaining)
     else
       let s = s\<lparr>s_stats := count_update (s_stats s)\<rparr> in
       res_bind (put remaining rule_id (left - 1)) (\<lambda>remaining.
       if left - 1 = 0 then res_bind (fire_rule P rule_id s) (\<lambda>s. Inr (s, remaining))
       else Inr (s, remaining)))))"

partial_function (option) solve_loop :: "grounded_program \<Rightarrow> grounded_incidence_index \<Rightarrow> solver_state \<Rightarrow> nat list
    \<Rightarrow> (fault, solver_state) result option" where
  "solve_loop P ix s remaining =
     (case s_queue s of
        [] \<Rightarrow> Some (Inr s)
      | atom # q \<Rightarrow>
          (case res_bind (idx (dependents ix) atom)
                  (\<lambda>ds. for_fold (solve_visit P) ds (s\<lparr>s_queue := q\<rparr>, remaining)) of
             Inl e \<Rightarrow> Some (Inl e)
           | Inr (s', remaining') \<Rightarrow> solve_loop P ix s' remaining'))"

text \<open>A loop that does not return has no result to report, and is counted as a failure.\<close>

definition returned :: "(fault, 'a) result option \<Rightarrow> (fault, 'a) result" where
  "returned r = (case r of None \<Rightarrow> Inl Abort | Some r \<Rightarrow> r)"

definition solve_indexed :: "grounded_program \<Rightarrow> grounded_incidence_index
    \<Rightarrow> (fault, grounded_certificate \<times> grounded_work_stats) result" where
  "solve_indexed P ix =
     (let n = atom_count P;
          s0 = \<lparr>s_live = replicate n False, s_rank = replicate n None, s_witness = replicate n None,
                s_fired = replicate (length (rules P)) False, s_queue = [], s_stats = stats_default\<rparr>;
          remaining = map (\<lambda>rule. if enabled rule then length (body rule) else 0) (rules P)
      in res_bind (for_fold solve_seed (seeds_iter (seeds P)) s0) (\<lambda>s1.
         res_bind (for_fold (\<lambda>(i, left) s. res_bind (idx (rules P) i) (\<lambda>rule.
             if enabled rule \<and> left = 0 then fire_rule P i s else Inr s)) (enumerate 0 remaining) s1) (\<lambda>s2.
         res_bind (returned (solve_loop P ix s2 remaining)) (\<lambda>s3.
           Inr (\<lparr>live = s_live s3, rank = s_rank s3, witness = s_witness s3\<rparr>, s_stats s3)))))"

definition solve :: "grounded_program \<Rightarrow> (fault, grounded_certificate \<times> grounded_work_stats) result" where
  "solve P = res_bind (incidence_compile P) (solve_indexed P)"

section \<open>The checker\<close>

definition check_premise :: "grounded_certificate \<Rightarrow> grounded_atom_id \<Rightarrow> nat \<Rightarrow> grounded_atom_id \<Rightarrow> (fault, unit) result" where
  "check_premise c atom r premise =
     res_bind (idx (live c) premise) (\<lambda>l.
     res_bind (ensure l (Raise (WitnessPremiseDead atom premise))) (\<lambda>_.
     res_bind (idx (rank c) premise) (\<lambda>pr.
     res_bind (ok_or pr (Raise (LiveAtomMissingRank premise))) (\<lambda>premise_rank.
       ensure (\<not> premise_rank \<ge> r) (Raise (WitnessRankNotStrictlySmaller atom premise))))))"

definition check_atom :: "grounded_program \<Rightarrow> grounded_certificate \<Rightarrow> grounded_atom_id \<Rightarrow> (fault, unit) result" where
  "check_atom P c atom =
     res_bind (idx (live c) atom) (\<lambda>l.
     res_bind (idx (rank c) atom) (\<lambda>ro.
     res_bind (idx (witness c) atom) (\<lambda>wo.
     if \<not> l then
       (if ro \<noteq> None \<or> wo \<noteq> None then Inl (Raise (DeadAtomHasProofState atom)) else Inr ())
     else
       res_bind (ok_or ro (Raise (LiveAtomMissingRank atom))) (\<lambda>r.
       res_bind (ok_or wo (Raise (LiveAtomMissingWitness atom))) (\<lambda>w.
       case w of
         Seed \<Rightarrow>
           (if \<not> seeds_contains (seeds P) atom then Inl (Raise (SeedWitnessForNonSeed atom))
            else if r \<noteq> 0 then Inl (Raise (SeedHasNonZeroRank atom)) else Inr ())
       | Rule rule_id \<Rightarrow>
           res_bind (ok_or (get_vec (rules P) rule_id) (Raise (RuleOutsideProgram rule_id))) (\<lambda>rule.
           if \<not> enabled rule then Inl (Raise (WitnessRuleDisabled rule_id))
           else if head rule \<noteq> atom then Inl (Raise (WitnessRuleHeadMismatch atom rule_id))
           else for_each (check_premise c atom r) (body rule)))))))"

definition check_closed :: "grounded_certificate \<Rightarrow> grounded_rule_id \<times> grounded_rule \<Rightarrow> (fault, unit) result" where
  "check_closed c = (\<lambda>(i, rule).
     if \<not> enabled rule then Inr ()
     else res_bind (for_fold (\<lambda>atom ok. if ok then idx (live c) atom else Inr False) (body rule) True) (\<lambda>all_live.
       if \<not> all_live then Inr ()
       else res_bind (idx (live c) (head rule)) (\<lambda>l. ensure l (Raise (NotClosedUnderRule i)))))"

definition check :: "grounded_program \<Rightarrow> grounded_certificate \<Rightarrow> (fault, unit) result" where
  "check P c =
     res_bind (ensure (length (live c) = atom_count P \<and> length (rank c) = atom_count P \<and> length (witness c) = atom_count P)
       (Raise CertificateShapeMismatch)) (\<lambda>_.
     res_bind (for_each (check_atom P c) [0..<atom_count P]) (\<lambda>_.
     res_bind (for_each (\<lambda>seed. res_bind (idx (live c) seed) (\<lambda>l. ensure l (Raise (MissingSeed seed)))) (seeds_iter (seeds P))) (\<lambda>_.
       for_each (check_closed c) (enumerate 0 (rules P)))))"

end
