(* ===== verification/Grounded_Model.thy ===== *)
theory Grounded_Model
  imports Grounded_Solver
begin

text \<open>
  The meaning of grounded programs and certificates: the least model \<open>derivable\<close>, sound and closed
  certificates and what they decide, the characterisation of the checker, tight ranks (which never
  saturate), and the derivation steps by which every algorithm of the crate extends a certificate.
\<close>

section \<open>Loop rules\<close>

lemma for_fold_rule:
  assumes "I [] s" "\<And>pre x post s. xs = pre @ x # post \<Longrightarrow> I pre s \<Longrightarrow> \<exists>s'. f x s = Inr s' \<and> I (pre @ [x]) s'"
  shows "\<exists>s'. for_fold f xs s = Inr s' \<and> I xs s'"
proof -
  have "\<exists>s'. for_fold f post s = Inr s' \<and> I xs s'" if "xs = pre @ post" "I pre s" for pre post s
    using that
  proof (induction post arbitrary: pre s)
    case (Cons x post)
    obtain s' where "f x s = Inr s'" "I (pre @ [x]) s'" using assms(2) [OF Cons.prems] by blast
    then show ?case using Cons.IH [of "pre @ [x]" s'] Cons.prems(1) by simp
  qed auto
  then show ?thesis using assms(1) by blast
qed

lemma for_fold_upt_rule:
  assumes "I 0 s" "\<And>k s. k < n \<Longrightarrow> I k s \<Longrightarrow> \<exists>s'. f k s = Inr s' \<and> I (Suc k) s'"
  shows "\<exists>s'. for_fold f [0..<n] s = Inr s' \<and> I n s'"
  using assms
proof (induction n)
  case (Suc n)
  then obtain s' where "for_fold f [0..<n] s = Inr s'" "I n s'" by (metis less_SucI)
  moreover obtain s'' where "f n s' = Inr s''" "I (Suc n) s''" using Suc.prems(2) [OF _ calculation(2)] by auto
  ultimately show ?case by (simp add: for_fold_append)
qed auto

lemma for_fold_enumerate: "for_fold (\<lambda>(i, x). f i x) (enumerate 0 xs) s = for_fold (\<lambda>i. f i (xs ! i)) [0..<length xs] s"
proof -
  have "enumerate 0 xs = map (\<lambda>i. (i, xs ! i)) [0..<length xs]" 
    by (intro nth_equalityI) (simp_all add: nth_enumerate_eq)
  then show ?thesis by (simp add: for_fold_map)
qed

section \<open>Well-formed programs\<close>

definition wf_rule :: "nat \<Rightarrow> grounded_rule \<Rightarrow> bool" where
  "wf_rule n r \<longleftrightarrow> head r < n \<and> (\<forall>p \<in> set (body r). p < n) \<and> distinct (body r)"

definition wf_seeds :: "grounded_seed_set \<Rightarrow> bool" where
  "wf_seeds s \<longleftrightarrow> seed_count s = length (filter id (members s))"

definition wf_program :: "grounded_program \<Rightarrow> bool" where
  "wf_program P \<longleftrightarrow> atom_count P \<le> usize_max \<and> length (members (seeds P)) = atom_count P \<and> wf_seeds (seeds P)
     \<and> (\<forall>r \<in> set (rules P). wf_rule (atom_count P) r)"

lemma wf_program_rule:
  assumes "wf_program P" "i < length (rules P)"
  shows "head (rules P ! i) < atom_count P" "p \<in> set (body (rules P ! i)) \<Longrightarrow> p < atom_count P" "distinct (body (rules P ! i))"
  using assms by (auto simp: wf_program_def wf_rule_def)

lemma set_seeds_iter: "set (seeds_iter s) = {i. i < length (members s) \<and> members s ! i}"
  by (auto simp: seeds_iter_def)

lemma seeds_contains_iff: "seeds_contains s a \<longleftrightarrow> a \<in> set (seeds_iter s)"
  by (simp add: seeds_contains_def set_seeds_iter get_vec_def)

lemma seeds_range: "wf_program P \<Longrightarrow> a \<in> set (seeds_iter (seeds P)) \<Longrightarrow> a < atom_count P"
  by (simp add: set_seeds_iter wf_program_def)

lemma count_true_set:
  "i < length xs \<Longrightarrow> \<not> xs ! i \<Longrightarrow> length (filter id (xs[i := True])) = Suc (length (filter id xs))"
  by (induction xs arbitrary: i) (auto simp: nth_Cons split: nat.splits)

lemma count_true_clear:
  "i < length xs \<Longrightarrow> xs ! i \<Longrightarrow> Suc (length (filter id (xs[i := False]))) = length (filter id xs)"
  by (induction xs arbitrary: i) (auto simp: nth_Cons split: nat.splits)

lemma sorted_distinct_remdups_adj: "sorted xs \<Longrightarrow> distinct (remdups_adj xs)"
  by (induction xs rule: remdups_adj.induct) auto

lemma count_dead_set:
  "i < length xs \<Longrightarrow> \<not> xs ! i \<Longrightarrow> Suc (length (filter Not (xs[i := True]))) = length (filter Not xs)"
  by (induction xs arbitrary: i) (auto simp: nth_Cons split: nat.splits)

lemma rule_new_distinct: "distinct (body (rule_new b h))" "set (body (rule_new b h)) = set b"
  by (simp_all add: rule_new_def sorted_distinct_remdups_adj)

section \<open>The incidence index\<close>

definition index_of :: "grounded_program \<Rightarrow> grounded_incidence_index \<Rightarrow> bool" where
  "index_of P ix \<longleftrightarrow> length (dependents ix) = atom_count P \<and> length (by_head ix) = atom_count P
     \<and> (\<forall>a < atom_count P. dependents ix ! a = filter (\<lambda>i. a \<in> set (body (rules P ! i))) [0..<length (rules P)]
          \<and> by_head ix ! a = filter (\<lambda>i. head (rules P ! i) = a) [0..<length (rules P)])"

lemma push_all_ok:
  "distinct as \<Longrightarrow> (\<forall>a \<in> set as. a < length ds) \<Longrightarrow>
    for_fold (\<lambda>a ds. modify ds a (\<lambda>rs. rs @ [r])) as ds
      = Inr (map (\<lambda>a. if a \<in> set as then ds ! a @ [r] else ds ! a) [0..<length ds])"
proof (induction as arbitrary: ds)
  case Nil
  then show ?case by (simp add: map_nth)
next
  case (Cons a as)
  let ?ds = "ds[a := ds ! a @ [r]]"
  have "for_fold (\<lambda>a ds. modify ds a (\<lambda>rs. rs @ [r])) (a # as) ds
      = Inr (map (\<lambda>b. if b \<in> set as then ?ds ! b @ [r] else ?ds ! b) [0..<length ds])"
    using Cons by simp
  also have "map (\<lambda>b. if b \<in> set as then ?ds ! b @ [r] else ?ds ! b) [0..<length ds]
      = map (\<lambda>b. if b \<in> set (a # as) then ds ! b @ [r] else ds ! b) [0..<length ds]"
    using Cons.prems by (auto simp: nth_list_update)
  finally show ?case .
qed

lemma append_rule_ok:
  assumes "wf_rule n rule" "length (dependents ix) = n" "length (by_head ix) = n"
  shows "\<exists>ix'. append_rule ix r rule = Inr ix' \<and> length (dependents ix') = n \<and> length (by_head ix') = n
    \<and> (\<forall>a < n. dependents ix' ! a = dependents ix ! a @ (if a \<in> set (body rule) then [r] else [])
        \<and> by_head ix' ! a = by_head ix ! a @ (if head rule = a then [r] else []))"
  using assms push_all_ok [of "body rule" "dependents ix" r]
  by (auto simp: append_rule_def wf_rule_def nth_list_update)

lemma incidence_compile_ok:
  assumes "wf_program P"
  shows "\<exists>ix. incidence_compile P = Inr ix \<and> index_of P ix"
proof -
  let ?n = "atom_count P"
  define I where "I k ix \<longleftrightarrow> length (dependents ix) = ?n \<and> length (by_head ix) = ?n
     \<and> (\<forall>a < ?n. dependents ix ! a = filter (\<lambda>i. a \<in> set (body (rules P ! i))) [0..<k]
          \<and> by_head ix ! a = filter (\<lambda>i. head (rules P ! i) = a) [0..<k])" for k and ix :: grounded_incidence_index
  have "\<exists>ix. for_fold (\<lambda>i ix. append_rule ix i (rules P ! i)) [0..<length (rules P)]
      \<lparr>dependents = replicate ?n [], by_head = replicate ?n []\<rparr> = Inr ix \<and> I (length (rules P)) ix"
  proof (rule for_fold_upt_rule)
    show "I 0 \<lparr>dependents = replicate ?n [], by_head = replicate ?n []\<rparr>" by (simp add: I_def)
    fix k ix assume k: "k < length (rules P)" and I: "I k ix"
    have "wf_rule ?n (rules P ! k)" using assms k by (simp add: wf_program_def)
    from append_rule_ok [OF this, of ix k] I
    show "\<exists>ix'. append_rule ix k (rules P ! k) = Inr ix' \<and> I (Suc k) ix'" by (auto simp: I_def)
  qed
  then show ?thesis by (auto simp: incidence_compile_def for_fold_enumerate index_of_def I_def)
qed

section \<open>Derivable atoms\<close>

text \<open>The meaning of a program: the least set with the seeds that is closed under the enabled rules.\<close>

inductive_set derivable :: "grounded_program \<Rightarrow> grounded_atom_id set" for P where
  derivable_seed: "a \<in> set (seeds_iter (seeds P)) \<Longrightarrow> a \<in> derivable P"
| derivable_rule: "i < length (rules P) \<Longrightarrow> enabled (rules P ! i) \<Longrightarrow>
    \<forall>p \<in> set (body (rules P ! i)). p \<in> derivable P \<Longrightarrow> head (rules P ! i) \<in> derivable P"

section \<open>Certificates\<close>

definition shaped :: "grounded_program \<Rightarrow> grounded_certificate \<Rightarrow> bool" where
  "shaped P c \<longleftrightarrow> length (live c) = atom_count P \<and> length (rank c) = atom_count P \<and> length (witness c) = atom_count P"

text \<open>The atom has a valid proof: it is a seed, or the head of an enabled rule with live premises of smaller rank.\<close>

definition proved :: "grounded_program \<Rightarrow> grounded_certificate \<Rightarrow> grounded_atom_id \<Rightarrow> bool" where
  "proved P c a \<longleftrightarrow> (case (rank c ! a, witness c ! a) of
      (Some r, Some Seed) \<Rightarrow> a \<in> set (seeds_iter (seeds P)) \<and> r = 0
    | (Some r, Some (Rule i)) \<Rightarrow> i < length (rules P) \<and> enabled (rules P ! i) \<and> head (rules P ! i) = a
        \<and> (\<forall>p \<in> set (body (rules P ! i)). live c ! p \<and> (\<exists>q. rank c ! p = Some q \<and> q < r))
    | _ \<Rightarrow> False)"

definition sound_cert :: "grounded_program \<Rightarrow> grounded_certificate \<Rightarrow> bool" where
  "sound_cert P c \<longleftrightarrow> shaped P c \<and> (\<forall>a < atom_count P. if live c ! a then proved P c a
     else rank c ! a = None \<and> witness c ! a = None)"

definition closed_cert :: "grounded_program \<Rightarrow> grounded_certificate \<Rightarrow> bool" where
  "closed_cert P c \<longleftrightarrow> (\<forall>a \<in> set (seeds_iter (seeds P)). live c ! a)
     \<and> (\<forall>i < length (rules P). enabled (rules P ! i) \<longrightarrow> (\<forall>p \<in> set (body (rules P ! i)). live c ! p) \<longrightarrow> live c ! head (rules P ! i))"

lemma sound_cert_derivable:
  assumes "wf_program P" "sound_cert P c" "a < atom_count P" "live c ! a"
  shows "a \<in> derivable P"
proof -
  have "proved P c a" using assms by (auto simp: sound_cert_def)
  then obtain r where "rank c ! a = Some r" by (auto simp: proved_def split: option.splits)
  then show ?thesis using assms(3,4)
  proof (induction r arbitrary: a rule: less_induct)
    case (less r)
    have "proved P c a" using assms(2) less.prems by (auto simp: sound_cert_def)
    then consider "a \<in> set (seeds_iter (seeds P))"
      | i where "i < length (rules P)" "enabled (rules P ! i)" "head (rules P ! i) = a"
        "\<forall>p \<in> set (body (rules P ! i)). live c ! p \<and> (\<exists>q. rank c ! p = Some q \<and> q < r)"
      using less.prems(1) by (auto simp: proved_def split: option.splits grounded_witness.splits)
    then show ?case
    proof cases
      case 1
      then show ?thesis by (rule derivable_seed)
    next
      case 2
      then have "\<forall>p \<in> set (body (rules P ! i)). p \<in> derivable P"
        using less.IH wf_program_rule(2) [OF assms(1) 2(1)] by blast
      then show ?thesis using derivable_rule [OF 2(1,2)] 2(3) by simp
    qed
  qed
qed

lemma closed_cert_derivable: "a \<in> derivable P \<Longrightarrow> closed_cert P c \<Longrightarrow> live c ! a"
  by (induction rule: derivable.induct) (auto simp: closed_cert_def)

lemma derivable_range: "a \<in> derivable P \<Longrightarrow> wf_program P \<Longrightarrow> a < atom_count P"
  by (induction rule: derivable.induct) (auto simp: seeds_range wf_program_rule)

lemma is_live_iff: "shaped P c \<Longrightarrow> is_live c a \<longleftrightarrow> a < atom_count P \<and> live c ! a"
  by (simp add: is_live_def shaped_def get_vec_def)

lemma exact_cert:
  assumes "wf_program P" "sound_cert P c" "closed_cert P c"
  shows "is_live c a \<longleftrightarrow> a \<in> derivable P"
  using assms sound_cert_derivable closed_cert_derivable derivable_range is_live_iff [of P c a]
  by (metis sound_cert_def)

section \<open>What the checker accepts\<close>

lemma check_premise_iff:
  assumes "shaped P c" "p < atom_count P"
  shows "check_premise c a r p = Inr () \<longleftrightarrow> live c ! p \<and> (\<exists>q. rank c ! p = Some q \<and> q < r)"
  using assms by (cases "rank c ! p") (simp_all add: check_premise_def shaped_def ensure_def)

lemma check_atom_iff:
  assumes "wf_program P" "shaped P c" "a < atom_count P"
  shows "check_atom P c a = Inr () \<longleftrightarrow> (if live c ! a then proved P c a else rank c ! a = None \<and> witness c ! a = None)"
proof -
  have ix: "idx (live c) a = Inr (live c ! a)" "idx (rank c) a = Inr (rank c ! a)" "idx (witness c) a = Inr (witness c ! a)"
    using assms by (simp_all add: shaped_def)
  have prem: "for_each (check_premise c a r) (body (rules P ! i)) = Inr ()
      \<longleftrightarrow> (\<forall>p \<in> set (body (rules P ! i)). live c ! p \<and> (\<exists>q. rank c ! p = Some q \<and> q < r))"
    if "i < length (rules P)" for i r
    using wf_program_rule(2) [OF assms(1) that] check_premise_iff [OF assms(2)] by (auto simp: for_each_Inr_iff)
  show ?thesis
  proof (cases "live c ! a")
    case False
    then show ?thesis by (simp add: check_atom_def ix)
  next
    case True
    show ?thesis
    proof (cases "rank c ! a")
      case None
      then show ?thesis using True by (simp add: check_atom_def ix proved_def)
    next
      case (Some r)
      consider "witness c ! a = None" | "witness c ! a = Some Seed" | i where "witness c ! a = Some (Rule i)"
        by (metis grounded_witness.exhaust option.exhaust)
      then show ?thesis
      proof cases
        case 3
        then show ?thesis using True Some prem [of i r]
          by (cases "i < length (rules P)") (simp_all add: check_atom_def ix proved_def get_vec_def)
      qed (use True Some in \<open>simp_all add: check_atom_def ix proved_def seeds_contains_iff\<close>)
    qed
  qed
qed

lemma check_closed_iff:
  assumes "shaped P c" "wf_rule (atom_count P) rule"
  shows "check_closed c (i, rule) = Inr () \<longleftrightarrow>
    (enabled rule \<longrightarrow> (\<forall>p \<in> set (body rule). live c ! p) \<longrightarrow> live c ! head rule)"
proof -
  have "for_fold (\<lambda>a ok. if ok then idx (live c) a else Inr False) ps b = Inr (b \<and> (\<forall>p \<in> set ps. live c ! p))"
    if "\<forall>p \<in> set ps. p < atom_count P" for ps b
    using that assms(1) by (induction ps arbitrary: b) (auto simp: shaped_def)
  from this [of "body rule" True] assms show ?thesis
    by (auto simp: check_closed_def wf_rule_def shaped_def result_simps ensure_def)
qed

lemma check_iff:
  assumes "wf_program P"
  shows "check P c = Inr () \<longleftrightarrow> sound_cert P c \<and> closed_cert P c"
proof (cases "shaped P c")
  case True
  have atoms: "for_each (check_atom P c) [0..<atom_count P] = Inr () \<longleftrightarrow>
      (\<forall>a < atom_count P. if live c ! a then proved P c a else rank c ! a = None \<and> witness c ! a = None)"
    using check_atom_iff [OF assms True] by (auto simp: for_each_Inr_iff)
  have seeds: "for_each (\<lambda>seed. res_bind (idx (live c) seed) (\<lambda>l. ensure l (Raise (MissingSeed seed)))) (seeds_iter (seeds P)) = Inr ()
      \<longleftrightarrow> (\<forall>a \<in> set (seeds_iter (seeds P)). live c ! a)"
    using seeds_range [OF assms] True by (auto simp: for_each_Inr_iff shaped_def ensure_def)
  have rules: "for_each (check_closed c) (enumerate 0 (rules P)) = Inr () \<longleftrightarrow>
      (\<forall>i < length (rules P). enabled (rules P ! i) \<longrightarrow> (\<forall>p \<in> set (body (rules P ! i)). live c ! p) \<longrightarrow> live c ! head (rules P ! i))"
  proof -
    have "for_each (check_closed c) (enumerate 0 (rules P)) = Inr () \<longleftrightarrow>
        (\<forall>i < length (rules P). check_closed c (i, rules P ! i) = Inr ())"
      by (auto simp: for_each_Inr_iff in_set_enumerate_eq)
    then show ?thesis using check_closed_iff [OF True] assms by (simp add: wf_program_def)
  qed
  show ?thesis
    using True atoms seeds rules
    by (auto simp: check_def shaped_def sound_cert_def closed_cert_def result_simps)
next
  case False
  then show ?thesis by (auto simp: check_def shaped_def sound_cert_def result_simps)
qed

section \<open>Ranks\<close>

text \<open>In a tight certificate the rank of a derived atom is one more than the largest rank of its premises.\<close>

definition premise_ranks :: "grounded_program \<Rightarrow> grounded_certificate \<Rightarrow> grounded_rule_id \<Rightarrow> nat option list" where
  "premise_ranks P c i = map (\<lambda>p. rank c ! p) (body (rules P ! i))"

definition tight :: "grounded_program \<Rightarrow> grounded_certificate \<Rightarrow> bool" where
  "tight P c \<longleftrightarrow> sound_cert P c \<and> (\<forall>a < atom_count P. \<forall>i. witness c ! a = Some (Rule i) \<longrightarrow>
     rank c ! a = Some (next_rank (premise_ranks P c i)))"

lemma iter_max_mem: "iter_max xs = Some m \<Longrightarrow> m \<in> set xs \<and> (\<forall>x \<in> set xs. x \<le> m)"
proof -
  assume "iter_max xs = Some m"
  then obtain y ys where "xs = y # ys" "m = fold max ys y" by (auto simp: iter_max_def split: list.splits)
  moreover have "fold max ys y = Max (set (y # ys))" by (rule Max.set_eq_fold [symmetric])
  ultimately show ?thesis by (metis List.finite_set Max_ge Max_in set_empty list.distinct(1))
qed

lemma iter_max_None: "iter_max xs = None \<longleftrightarrow> xs = []"
  by (cases xs) (simp_all add: iter_max_def)

lemma next_rank_cases:
  assumes "\<forall>p \<in> set (body (rules P ! i)). \<exists>q. rank c ! p = Some q"
  shows "body (rules P ! i) = [] \<and> next_rank (premise_ranks P c i) = 0 \<or>
    (\<exists>p m. p \<in> set (body (rules P ! i)) \<and> rank c ! p = Some m \<and> next_rank (premise_ranks P c i) = saturating_add m 1
      \<and> (\<forall>p \<in> set (body (rules P ! i)). the (rank c ! p) \<le> m))"
proof -
  let ?ms = "List.map_filter id (premise_ranks P c i)"
  have ms: "?ms = map (\<lambda>p. the (rank c ! p)) (body (rules P ! i))"
  proof -
    have "List.map_filter id (map (\<lambda>p. rank c ! p) ps) = map (\<lambda>p. the (rank c ! p)) ps"
      if "\<forall>p \<in> set ps. \<exists>q. rank c ! p = Some q" for ps
      using that by (induction ps) (auto simp: map_filter_simps)
    then show ?thesis using assms by (simp add: premise_ranks_def)
  qed
  show ?thesis
  proof (cases "iter_max ?ms")
    case None
    then have "body (rules P ! i) = []" by (simp add: iter_max_None ms)
    then show ?thesis using None by (simp add: next_rank_def)
  next
    case (Some m)
    note mem = iter_max_mem [OF Some]
    then obtain p where p: "p \<in> set (body (rules P ! i))" "m = the (rank c ! p)" unfolding ms by auto
    then have "rank c ! p = Some m" using assms by auto
    moreover have "\<forall>p \<in> set (body (rules P ! i)). the (rank c ! p) \<le> m" using mem unfolding ms by auto
    moreover have "next_rank (premise_ranks P c i) = saturating_add m 1" using Some by (simp add: next_rank_def)
    ultimately show ?thesis using p(1) by blast
  qed
qed

lemma tight_chain:
  assumes "wf_program P" "tight P c"
  shows "a < atom_count P \<Longrightarrow> rank c ! a = Some r \<Longrightarrow> k \<le> r \<Longrightarrow> \<exists>b < atom_count P. rank c ! b = Some k"
proof (induction r arbitrary: a)
  case (Suc r)
  show ?case
  proof (cases "k = Suc r")
    case False
    have "live c ! a" using assms(2) Suc.prems by (auto simp: tight_def sound_cert_def split: if_splits)
    then have pr: "proved P c a" using assms(2) Suc.prems by (auto simp: tight_def sound_cert_def)
    then obtain i where i: "witness c ! a = Some (Rule i)" "i < length (rules P)"
      "\<forall>p \<in> set (body (rules P ! i)). live c ! p \<and> (\<exists>q. rank c ! p = Some q \<and> q < Suc r)"
      using Suc.prems(2) by (auto simp: proved_def split: option.splits grounded_witness.splits)
    have "Suc r = next_rank (premise_ranks P c i)" using assms(2) Suc.prems i(1) by (auto simp: tight_def)
    moreover have "\<forall>p \<in> set (body (rules P ! i)). \<exists>q. rank c ! p = Some q" using i(3) by blast
    ultimately obtain p m where p: "p \<in> set (body (rules P ! i))" "rank c ! p = Some m" "Suc r = saturating_add m 1"
      using next_rank_cases [of P i c] by auto
    moreover have "m < Suc r" using i(3) p by auto
    ultimately have "m = r" by (auto simp: saturating_add_def min_def split: if_splits)
    then show ?thesis
      using Suc.IH [of p] p wf_program_rule(2) [OF assms(1) i(2)] Suc.prems(3) False by auto
  qed (use Suc.prems in auto)
qed auto

lemma tight_rank_bound:
  assumes "wf_program P" "tight P c" "a < atom_count P" "rank c ! a = Some r"
  shows "r < atom_count P"
proof -
  have "\<forall>k \<in> {0..r}. \<exists>b. b < atom_count P \<and> rank c ! b = Some k"
    using tight_chain [OF assms] by auto
  then obtain f where f: "\<forall>k \<in> {0..r}. f k < atom_count P \<and> rank c ! f k = Some k" by metis
  then have "inj_on f {0..r}" by (metis inj_onI option.inject)
  moreover have "f ` {0..r} \<subseteq> {0..<atom_count P}" using f by auto
  ultimately have "card {0..r} \<le> card {0..<atom_count P}" by (meson card_inj_on_le finite_atLeastLessThan)
  then show ?thesis by simp
qed

section \<open>Derivation steps\<close>

text \<open>One step makes the head of an enabled rule live whose premises are live.\<close>

definition derive :: "grounded_program \<Rightarrow> grounded_certificate \<Rightarrow> grounded_rule_id \<Rightarrow> grounded_certificate" where
  "derive P c i =
     c\<lparr>live := (live c)[head (rules P ! i) := True],
       rank := (rank c)[head (rules P ! i) := Some (next_rank (premise_ranks P c i))],
       witness := (witness c)[head (rules P ! i) := Some (Rule i)]\<rparr>"

inductive derives :: "grounded_program \<Rightarrow> grounded_certificate \<Rightarrow> grounded_certificate \<Rightarrow> bool" for P c where
  derives_refl: "derives P c c"
| derives_step: "derives P c d \<Longrightarrow> i < length (rules P) \<Longrightarrow> enabled (rules P ! i) \<Longrightarrow> \<not> live d ! head (rules P ! i) \<Longrightarrow>
    \<forall>p \<in> set (body (rules P ! i)). live d ! p \<Longrightarrow> derives P c (derive P d i)"

lemma derives_trans: "derives P d e \<Longrightarrow> derives P c d \<Longrightarrow> derives P c e"
  by (induction rule: derives.induct) (auto intro: derives_step)

lemma derive_shaped [simp]: "shaped P (derive P c i) \<longleftrightarrow> shaped P c"
  by (simp add: derive_def shaped_def)

lemma derives_shaped: "derives P c d \<Longrightarrow> shaped P c \<Longrightarrow> shaped P d"
  by (induction rule: derives.induct) simp_all

lemma derive_live:
  "shaped P c \<Longrightarrow> wf_program P \<Longrightarrow> i < length (rules P) \<Longrightarrow>
    live (derive P c i) ! a = (a = head (rules P ! i) \<or> live c ! a)"
  using wf_program_rule(1) [of P i] by (auto simp: derive_def shaped_def nth_list_update)

lemma derives_mono:
  "derives P c d \<Longrightarrow> shaped P c \<Longrightarrow> wf_program P \<Longrightarrow> live c ! a \<Longrightarrow> live d ! a"
  by (induction rule: derives.induct) (auto simp: derive_live dest: derives_shaped)

lemma tight_derive:
  assumes wf: "wf_program P" and t: "tight P c" and i: "i < length (rules P)" "enabled (rules P ! i)"
    and dead: "\<not> live c ! head (rules P ! i)" and prem: "\<forall>p \<in> set (body (rules P ! i)). live c ! p"
  shows "tight P (derive P c i)"
proof -
  let ?h = "head (rules P ! i)" and ?d = "derive P c i" and ?n = "atom_count P" and ?r = "next_rank (premise_ranks P c i)"
  have h: "?h < ?n" by (rule wf_program_rule(1) [OF wf i(1)])
  have sound: "sound_cert P c" and sh: "shaped P c" using t by (auto simp: tight_def sound_cert_def)
  have len: "length (live c) = ?n" "length (rank c) = ?n" "length (witness c) = ?n" using sh by (auto simp: shaped_def)
  have upd: "live ?d ! a = (a = ?h \<or> live c ! a)" "rank ?d ! a = (if a = ?h then Some ?r else rank c ! a)"
    "witness ?d ! a = (if a = ?h then Some (Rule i) else witness c ! a)" if "a < ?n" for a
    using that h len by (auto simp: derive_def nth_list_update)
  have hp: "?h \<notin> set (body (rules P ! j))" if "\<forall>p \<in> set (body (rules P ! j)). live c ! p" for j
    using that dead by auto
  have prem_rank: "\<exists>q. rank c ! p = Some q \<and> q < ?n" if "p \<in> set (body (rules P ! i))" for p
  proof -
    have "p < ?n" using wf_program_rule(2) [OF wf i(1) that] .
    moreover have "proved P c p" using sound prem that calculation by (auto simp: sound_cert_def)
    then obtain q where "rank c ! p = Some q" by (auto simp: proved_def split: option.splits)
    ultimately show ?thesis using tight_rank_bound [OF wf t] by blast
  qed
  have usize: "?n \<le> usize_max" using wf by (simp add: wf_program_def)
  have above: "q < ?r" if "p \<in> set (body (rules P ! i))" "rank c ! p = Some q" for p q
  proof -
    have "\<forall>p \<in> set (body (rules P ! i)). \<exists>q. rank c ! p = Some q" using prem_rank by blast
    from next_rank_cases [OF this] that obtain p' m where m: "p' \<in> set (body (rules P ! i))" "rank c ! p' = Some m"
      "?r = saturating_add m 1" "\<forall>p \<in> set (body (rules P ! i)). the (rank c ! p) \<le> m" by auto
    then have "m < ?n" "q \<le> m" using prem_rank [OF m(1)] that by fastforce+
    then show ?thesis using m(3) usize by (simp add: saturating_add_def)
  qed
  have keep: "premise_ranks P ?d j = premise_ranks P c j"
    if "j < length (rules P)" "\<forall>p \<in> set (body (rules P ! j)). live c ! p" for j
    unfolding premise_ranks_def using hp [OF that(2)] wf_program_rule(2) [OF wf that(1)] upd(2) by (intro map_cong) auto
  have below: "\<exists>q. rank c ! p = Some q \<and> q < ?r" if "p \<in> set (body (rules P ! i))" for p
    using prem_rank [OF that] above [OF that] by blast
  have proved_h: "proved P ?d ?h"
    using i h prem below hp [OF prem] wf_program_rule(2) [OF wf i(1)] upd by (auto simp: proved_def)
  have proved_o: "proved P ?d a" if "a < ?n" "a \<noteq> ?h" "proved P c a" for a
    using that upd hp wf_program_rule(2) [OF wf]
    by (auto simp: proved_def split: option.splits grounded_witness.splits)
  have "if live ?d ! a then proved P ?d a else rank ?d ! a = None \<and> witness ?d ! a = None" if "a < ?n" for a
    using that sound proved_h proved_o [OF that] upd [OF that] by (cases "a = ?h") (auto simp: sound_cert_def)
  then have "sound_cert P ?d" using sh by (simp add: sound_cert_def)
  moreover have "rank ?d ! a = Some (next_rank (premise_ranks P ?d j))"
    if a: "a < ?n" "witness ?d ! a = Some (Rule j)" for a j
  proof (cases "a = ?h")
    case True
    then show ?thesis using a upd keep [OF i(1) prem] by simp
  next
    case False
    then have w: "witness c ! a = Some (Rule j)" using a upd by simp
    then have "live c ! a" using sound a by (auto simp: sound_cert_def split: if_splits)
    then have "proved P c a" using sound a by (auto simp: sound_cert_def)
    then have "j < length (rules P)" "\<forall>p \<in> set (body (rules P ! j)). live c ! p"
      using w by (auto simp: proved_def split: option.splits)
    moreover have "rank c ! a = Some (next_rank (premise_ranks P c j))" using t a(1) w by (simp add: tight_def)
    ultimately show ?thesis using keep False a(1) upd by simp
  qed
  ultimately show ?thesis by (simp add: tight_def)
qed

lemma derives_tight: "derives P c d \<Longrightarrow> wf_program P \<Longrightarrow> tight P c \<Longrightarrow> tight P d"
  by (induction rule: derives.induct) (simp_all add: tight_derive)

end
