(* ===== verification/Grounded_Solver_Correct.thy ===== *)
theory Grounded_Solver_Correct
  imports Grounded_Model
begin

text \<open>
  The worklist solver returns on every well-formed program and computes its least model, the checker
  accepts exactly the exact certificates, and the construction of programs validates its input.
\<close>

section \<open>The solver computes the least model\<close>

definition cert_of :: "solver_state \<Rightarrow> grounded_certificate" where
  "cert_of s = \<lparr>live = s_live s, rank = s_rank s, witness = s_witness s\<rparr>"

lemma cert_of_simps [simp]:
  "live (cert_of s) = s_live s" "rank (cert_of s) = s_rank s" "witness (cert_of s) = s_witness s"
  by (simp_all add: cert_of_def)

text \<open>The premises a rule still waits for: dead, queued, or the atom being processed for the rules \<open>U\<close>.\<close>

definition waiting :: "grounded_program \<Rightarrow> solver_state \<Rightarrow> grounded_atom_id \<Rightarrow> grounded_rule_id set \<Rightarrow> grounded_rule_id \<Rightarrow> grounded_atom_id list" where
  "waiting P s a U i = filter (\<lambda>p. \<not> s_live s ! p \<or> p \<in> set (s_queue s) \<or> (p = a \<and> i \<in> U)) (body (rules P ! i))"

definition rule_inv :: "grounded_program \<Rightarrow> bool \<Rightarrow> grounded_atom_id \<Rightarrow> grounded_rule_id set \<Rightarrow> solver_state \<Rightarrow> nat list
    \<Rightarrow> grounded_rule_id \<Rightarrow> bool" where
  "rule_inv P pos a U s remaining i \<longleftrightarrow>
     (s_fired s ! i \<longrightarrow> enabled (rules P ! i) \<and> s_live s ! head (rules P ! i))
     \<and> (\<not> s_fired s ! i \<longrightarrow> enabled (rules P ! i) \<longrightarrow>
          remaining ! i = length (waiting P s a U i) \<and> (pos \<longrightarrow> 0 < remaining ! i))
     \<and> (\<not> s_fired s ! i \<longrightarrow> \<not> enabled (rules P ! i) \<longrightarrow> remaining ! i = 0)"

definition solver_inv :: "grounded_program \<Rightarrow> grounded_certificate \<Rightarrow> nat \<Rightarrow> grounded_atom_id \<Rightarrow> grounded_rule_id set
    \<Rightarrow> solver_state \<Rightarrow> nat list \<Rightarrow> bool" where
  "solver_inv P c k a U s remaining \<longleftrightarrow> shaped P (cert_of s) \<and> derives P c (cert_of s)
     \<and> length (s_fired s) = length (rules P) \<and> length remaining = length (rules P)
     \<and> distinct (s_queue s) \<and> (\<forall>p \<in> set (s_queue s). p < atom_count P \<and> s_live s ! p)
     \<and> (\<forall>i < length (rules P). rule_inv P (i < k) a U s remaining i)"

lemma rule_inv_weaken: "rule_inv P pos a U s remaining i \<Longrightarrow> (pos' \<Longrightarrow> pos) \<Longrightarrow> rule_inv P pos' a U s remaining i"
  by (auto simp: rule_inv_def)

lemma rule_inv_cong:
  "rule_inv P pos a U s remaining i \<Longrightarrow> s_fired s' ! i = s_fired s ! i \<Longrightarrow>
    s_live s' ! head (rules P ! i) = s_live s ! head (rules P ! i) \<Longrightarrow> waiting P s' a' U' i = waiting P s a U i \<Longrightarrow>
    rule_inv P pos a' U' s' remaining i"
  by (auto simp: rule_inv_def)

lemma solver_inv_fire:
  assumes wf: "wf_program P" and inv: "solver_inv P c k a U s remaining"
    and i: "i < length (rules P)" "enabled (rules P ! i)" "\<not> s_fired s ! i" "waiting P s a U i = []"
  shows "\<exists>s'. fire_rule P i s = Inr s' \<and> solver_inv P c k a U s' remaining \<and> s_fired s' ! i
    \<and> (\<forall>j. j \<noteq> i \<longrightarrow> s_fired s' ! j = s_fired s ! j)
    \<and> length (s_queue s') + length (filter Not (s_live s')) = length (s_queue s) + length (filter Not (s_live s))
    \<and> (\<exists>hs. s_queue s' = s_queue s @ hs \<and> (\<forall>h \<in> set hs. \<not> s_live s ! h)) \<and> (\<forall>p. s_live s ! p \<longrightarrow> s_live s' ! p)"
proof -
  let ?r = "rules P ! i" and ?n = "atom_count P"
  let ?h = "head ?r"
  have h: "?h < ?n" and b: "\<And>p. p \<in> set (body ?r) \<Longrightarrow> p < ?n"
    using wf_program_rule [OF wf i(1)] by auto
  have len: "length (s_live s) = ?n" "length (s_rank s) = ?n" "length (s_witness s) = ?n"
    "length (s_fired s) = length (rules P)" "length remaining = length (rules P)"
    using inv by (auto simp: solver_inv_def shaped_def)
  have prem: "\<forall>p \<in> set (body ?r). s_live s ! p" using i(4) by (auto simp: waiting_def filter_empty_conv)
  have ranks: "for_map (idx (s_rank s)) (body ?r) = Inr (premise_ranks P (cert_of s) i)"
    unfolding premise_ranks_def cert_of_simps by (rule for_map_ok) (use b len in simp)
  show ?thesis
  proof (cases "s_live s ! ?h")
    case True
    let ?s = "s\<lparr>s_fired := (s_fired s)[i := True], s_stats := count_fire (s_stats s)\<rparr>"
    have "fire_rule P i s = Inr ?s" using i h len True by (simp add: fire_rule_def)
    moreover have "solver_inv P c k a U ?s remaining"
      using inv i True len by (auto simp: solver_inv_def rule_inv_def nth_list_update cert_of_def waiting_def)
    ultimately show ?thesis using len i by (auto simp: nth_list_update)
  next
    case False
    let ?s = "s\<lparr>s_fired := (s_fired s)[i := True], s_stats := count_fire (s_stats s), s_live := (s_live s)[?h := True],
      s_rank := (s_rank s)[?h := Some (next_rank (premise_ranks P (cert_of s) i))],
      s_witness := (s_witness s)[?h := Some (Rule i)], s_queue := s_queue s @ [?h]\<rparr>"
    have eq: "cert_of ?s = derive P (cert_of s) i" by (simp add: cert_of_def derive_def)
    have "derives P c (cert_of ?s)"
      unfolding eq using inv i prem False by (intro derives_step) (auto simp: solver_inv_def)
    moreover have "shaped P (cert_of ?s)" unfolding eq using inv by (simp add: solver_inv_def)
    moreover have "waiting P ?s a U j = waiting P s a U j" if "j < length (rules P)" for j
      unfolding waiting_def using False len h by (intro filter_cong) (auto simp: nth_list_update)
    moreover have "?h \<notin> set (s_queue s)" using inv False by (auto simp: solver_inv_def)
    ultimately have "solver_inv P c k a U ?s remaining"
      using inv i len h by (auto simp: solver_inv_def rule_inv_def nth_list_update)
    moreover have "fire_rule P i s = Inr ?s" using i h len False ranks by (simp add: fire_rule_def)
    moreover have "Suc (length (filter Not ((s_live s)[?h := True]))) = length (filter Not (s_live s))"
      using count_dead_set [of ?h "s_live s"] h len False by simp
    ultimately show ?thesis using len i False h by (auto simp: nth_list_update)
  qed
qed

lemma waiting_processed:
  assumes "wf_program P" "i < length (rules P)" "a \<in> set (body (rules P ! i))" "s_live s ! a" "a \<notin> set (s_queue s)" "i \<in> U"
  shows "length (waiting P s a U i) = Suc (length (waiting P s a (U - {i}) i))"
proof -
  have "distinct (body (rules P ! i))" using wf_program_rule(3) [OF assms(1,2)] .
  moreover have "set (waiting P s a U i) = insert a (set (waiting P s a (U - {i}) i))" "a \<notin> set (waiting P s a (U - {i}) i)"
    using assms by (auto simp: waiting_def)
  ultimately show ?thesis by (simp add: waiting_def flip: distinct_card)
qed

lemma waiting_other: "j \<noteq> i \<Longrightarrow> waiting P s a (U - {i}) j = waiting P s a U j"
  by (simp add: waiting_def)

definition work_left :: "solver_state \<Rightarrow> nat" where
  "work_left s = length (s_queue s) + length (filter Not (s_live s))"

lemma solve_visit_ok:
  assumes wf: "wf_program P" and inv: "solver_inv P c (length (rules P)) a U s remaining"
    and i: "i < length (rules P)" "a \<in> set (body (rules P ! i))" "i \<in> U" and a: "s_live s ! a" "a \<notin> set (s_queue s)"
  shows "\<exists>s' rem'. solve_visit P i (s, remaining) = Inr (s', rem') \<and> solver_inv P c (length (rules P)) a (U - {i}) s' rem'
    \<and> work_left s' = work_left s \<and> s_live s' ! a \<and> a \<notin> set (s_queue s')"
proof -
  let ?N = "length (rules P)"
  have len: "length (s_fired s) = ?N" "length remaining = ?N" using inv by (auto simp: solver_inv_def)
  have rule: "rule_inv P (j < ?N) a U s remaining j" if "j < ?N" for j using inv that by (simp add: solver_inv_def)
  show ?thesis
  proof (cases "s_fired s ! i \<or> remaining ! i = 0")
    case True
    then have skip: "s_fired s ! i \<or> \<not> enabled (rules P ! i)"
      using rule [OF i(1)] i(1) by (auto simp: rule_inv_def split: if_splits)
    have "rule_inv P (j < ?N) a (U - {i}) s remaining j" if "j < ?N" for j
      using rule [OF that] skip by (cases "j = i") (auto simp: rule_inv_def waiting_other)
    then have "solver_inv P c ?N a (U - {i}) s remaining" using inv by (simp add: solver_inv_def)
    then show ?thesis using True i len a by (auto simp: solve_visit_def)
  next
    case False
    then have en: "enabled (rules P ! i)" "remaining ! i = length (waiting P s a U i)"
      using rule [OF i(1)] by (auto simp: rule_inv_def split: if_splits)
    note proc = waiting_processed [where s = s, OF wf i(1,2) a i(3)]
    let ?s = "s\<lparr>s_stats := count_update (s_stats s)\<rparr>" and ?rem = "remaining[i := remaining ! i - 1]"
    have w: "waiting P ?s a V j = waiting P s a V j" for V j by (simp add: waiting_def)
    have dec: "rule_inv P (j \<noteq> i \<or> remaining ! i - 1 \<noteq> 0) a (U - {i}) ?s ?rem j" if "j < ?N" for j
    proof (cases "j = i")
      case True
      then have "?rem ! j = length (waiting P s a (U - {i}) j)" using en(2) proc len i(1) by simp
      then show ?thesis using True False en(1) len i(1) by (simp add: rule_inv_def w)
    next
      case other: False
      then have "?rem ! j = remaining ! j" by simp
      then show ?thesis using rule [OF that] other that unfolding rule_inv_def w by (auto simp: waiting_other)
    qed
    have inv': "solver_inv P c k a (U - {i}) ?s ?rem" if "\<And>j. j < ?N \<Longrightarrow> rule_inv P (j < k) a (U - {i}) ?s ?rem j" for k
      using inv that len by (auto simp: solver_inv_def cert_of_def)
    show ?thesis
    proof (cases "remaining ! i - 1 = 0")
      case last: True
      have "rule_inv P (j < 0) a (U - {i}) ?s ?rem j" if "j < ?N" for j
        by (intro rule_inv_weaken [OF dec [OF that]]) simp
      note inv0 = inv' [of 0, OF this]
      have none: "waiting P ?s a (U - {i}) i = []" using proc en(2) last by (simp add: w)
      obtain s' where s': "fire_rule P i ?s = Inr s'" "solver_inv P c 0 a (U - {i}) s' ?rem" "s_fired s' ! i"
        "\<forall>j. j \<noteq> i \<longrightarrow> s_fired s' ! j = s_fired ?s ! j" "work_left s' = work_left ?s"
        "\<exists>hs. s_queue s' = s_queue ?s @ hs \<and> (\<forall>h \<in> set hs. \<not> s_live ?s ! h)" "\<forall>p. s_live ?s ! p \<longrightarrow> s_live s' ! p"
        using solver_inv_fire [OF wf inv0 i(1) en(1) _ none] False unfolding work_left_def by auto
      have "rule_inv P (j < ?N) a (U - {i}) s' ?rem j" if "j < ?N" for j
      proof (cases "j = i")
        case True
        then show ?thesis using s'(2,3) that by (simp add: solver_inv_def rule_inv_def)
      next
        case False
        then show ?thesis
          using dec [OF that] s'(2,4) that by (auto simp: solver_inv_def rule_inv_def split: if_splits)
      qed
      then have "solver_inv P c ?N a (U - {i}) s' ?rem" using s'(2) by (simp add: solver_inv_def)
      then show ?thesis
        using s' a False last i len by (auto simp: solve_visit_def work_left_def Let_def)
    next
      case more: False
      have "rule_inv P (j < ?N) a (U - {i}) ?s ?rem j" if "j < ?N" for j
        using more by (intro rule_inv_weaken [OF dec [OF that]]) simp
      from inv' [OF this] show ?thesis using a False more i len by (auto simp: solve_visit_def work_left_def Let_def)
    qed
  qed
qed


lemma solve_visits_ok:
  assumes wf: "wf_program P" and ix: "index_of P ix" and inv: "solver_inv P c (length (rules P)) b {} s remaining"
    and q: "s_queue s = a # q"
  shows "\<exists>s' rem'. res_bind (idx (dependents ix) a) (\<lambda>ds. for_fold (solve_visit P) ds (s\<lparr>s_queue := q\<rparr>, remaining)) = Inr (s', rem')
    \<and> solver_inv P c (length (rules P)) b {} s' rem' \<and> work_left s' < work_left s"
proof -
  let ?N = "length (rules P)" and ?s = "s\<lparr>s_queue := q\<rparr>"
  let ?ds = "filter (\<lambda>i. a \<in> set (body (rules P ! i))) [0..<?N]"
  have a: "a < atom_count P" "s_live s ! a" "a \<notin> set q" using inv q by (auto simp: solver_inv_def)
  have ds: "idx (dependents ix) a = Inr ?ds" using ix a(1) by (simp add: index_of_def)
  have inv0: "solver_inv P c ?N a (set ?ds) ?s remaining"
  proof -
    have "waiting P ?s a (set ?ds) i = waiting P s b {} i" if "i < ?N" for i
      unfolding waiting_def using q that by (intro filter_cong) auto
    note w = this
    have "rule_inv P (i < ?N) a (set ?ds) ?s remaining i" if i: "i < ?N" for i
      by (rule rule_inv_cong [OF _ _ _ w [OF i]]) (use inv i in \<open>simp_all add: solver_inv_def\<close>)
    then show ?thesis using inv q by (simp add: solver_inv_def cert_of_def)
  qed
  define I where "I pre r = (case r of (s', rem') \<Rightarrow> solver_inv P c ?N a (set ?ds - set pre) s' rem'
    \<and> work_left s' = work_left ?s \<and> s_live s' ! a \<and> a \<notin> set (s_queue s'))" for pre r
  have "\<exists>r. for_fold (solve_visit P) ?ds (?s, remaining) = Inr r \<and> I ?ds r"
  proof (rule for_fold_rule)
    show "I [] (?s, remaining)" using inv0 a q by (simp add: I_def)
    fix pre i post r
    assume split: "?ds = pre @ i # post" and Ipre: "I pre r"
    obtain s' rem' where r: "r = (s', rem')" by fastforce
    have "i \<in> set ?ds" unfolding split by simp
    then have i: "i < ?N" "a \<in> set (body (rules P ! i))" by auto
    have "distinct ?ds" by simp
    then have "i \<in> set ?ds - set pre" using \<open>i \<in> set ?ds\<close> unfolding split by simp
    from solve_visit_ok [OF wf _ i this, of c s' rem'] Ipre obtain s2 rem2 where
      "solve_visit P i (s', rem') = Inr (s2, rem2)" "solver_inv P c ?N a (set ?ds - set pre - {i}) s2 rem2"
      "work_left s2 = work_left ?s" "s_live s2 ! a" "a \<notin> set (s_queue s2)"
      unfolding r I_def prod.case by auto
    moreover have "set ?ds - set pre - {i} = set ?ds - set (pre @ [i])" by auto
    ultimately show "\<exists>r'. solve_visit P i r = Inr r' \<and> I (pre @ [i]) r'"
      unfolding r I_def by auto
  qed
  then obtain s' rem' where r: "for_fold (solve_visit P) ?ds (?s, remaining) = Inr (s', rem')"
    "solver_inv P c ?N a {} s' rem'" "work_left s' = work_left ?s" by (auto simp: I_def)
  have w: "waiting P s' b {} i = waiting P s' a {} i" for i by (simp add: waiting_def)
  have "rule_inv P (i < ?N) b {} s' rem' i" if "i < ?N" for i
    by (rule rule_inv_cong [OF _ _ _ w]) (use r(2) that in \<open>simp_all add: solver_inv_def\<close>)
  then have "solver_inv P c ?N b {} s' rem'" using r(2) by (simp add: solver_inv_def)
  then show ?thesis using r ds q by (simp add: work_left_def)
qed

lemma solve_loop_ok:
  assumes wf: "wf_program P" and ix: "index_of P ix"
  shows "solver_inv P c (length (rules P)) b {} s remaining \<Longrightarrow>
    \<exists>s' rem'. solve_loop P ix s remaining = Some (Inr s') \<and> solver_inv P c (length (rules P)) b {} s' rem' \<and> s_queue s' = []"
proof (induction "work_left s" arbitrary: s remaining rule: less_induct)
  case less
  show ?case
  proof (cases "s_queue s")
    case Nil
    then show ?thesis using less.prems by (subst solve_loop.simps) auto
  next
    case (Cons a q)
    obtain s1 rem1 where s1: "res_bind (idx (dependents ix) a) (\<lambda>ds. for_fold (solve_visit P) ds (s\<lparr>s_queue := q\<rparr>, remaining)) = Inr (s1, rem1)"
      "solver_inv P c (length (rules P)) b {} s1 rem1" "work_left s1 < work_left s"
      using solve_visits_ok [OF wf ix less.prems Cons] by blast
    have "solve_loop P ix s remaining = solve_loop P ix s1 rem1"
      using Cons s1(1) by (subst solve_loop.simps) simp
    then show ?thesis using less.hyps [OF s1(3,2)] by simp
  qed
qed

lemma solver_inv_closed:
  assumes "solver_inv P c (length (rules P)) b {} s remaining" "s_queue s = []" "i < length (rules P)" "enabled (rules P ! i)"
    "\<forall>p \<in> set (body (rules P ! i)). s_live s ! p"
  shows "s_live s ! head (rules P ! i)"
proof -
  have "rule_inv P (i < length (rules P)) b {} s remaining i" using assms(1,3) by (simp add: solver_inv_def)
  moreover have "waiting P s b {} i = []" using assms(2,5) by (simp add: waiting_def filter_empty_conv)
  ultimately show ?thesis using assms(3,4) by (auto simp: rule_inv_def)
qed

text \<open>The certificate in which exactly the seeds are live.\<close>

definition seed_cert :: "grounded_program \<Rightarrow> grounded_atom_id set \<Rightarrow> grounded_certificate" where
  "seed_cert P S = \<lparr>live = map (\<lambda>a. a \<in> S) [0..<atom_count P],
     rank = map (\<lambda>a. if a \<in> S then Some 0 else None) [0..<atom_count P],
     witness = map (\<lambda>a. if a \<in> S then Some Seed else None) [0..<atom_count P]\<rparr>"

lemma seed_cert_tight: "tight P (seed_cert P (set (seeds_iter (seeds P))))"
  by (auto simp: tight_def sound_cert_def shaped_def seed_cert_def proved_def)

lemma map_upt_update: "a < n \<Longrightarrow> (map f [0..<n])[a := x] = map (f(a := x)) [0..<n]"
  by (rule nth_equalityI) (auto simp: nth_list_update)

lemma seed_cert_update:
  assumes "a < atom_count P"
  shows "(live (seed_cert P S))[a := True] = live (seed_cert P (insert a S))"
    "(rank (seed_cert P S))[a := Some 0] = rank (seed_cert P (insert a S))"
    "(witness (seed_cert P S))[a := Some Seed] = witness (seed_cert P (insert a S))"
  using assms by (auto simp: seed_cert_def map_upt_update)

lemma solve_seeds_ok:
  assumes "distinct as" "\<forall>a \<in> set as. a < atom_count P" "\<forall>a \<in> set as. a \<notin> S"
    "cert_of s = seed_cert P S"
  shows "\<exists>s'. for_fold solve_seed as s = Inr s' \<and> cert_of s' = seed_cert P (S \<union> set as)
    \<and> s_queue s' = s_queue s @ as \<and> s_fired s' = s_fired s"
  using assms
proof (induction as arbitrary: s S)
  case (Cons a as)
  let ?s = "s\<lparr>s_live := (s_live s)[a := True], s_rank := (s_rank s)[a := Some 0], s_witness := (s_witness s)[a := Some Seed],
    s_queue := s_queue s @ [a]\<rparr>"
  have len: "length (s_live s) = atom_count P" "length (s_rank s) = atom_count P" "length (s_witness s) = atom_count P"
    "\<not> s_live s ! a" and parts: "s_live s = live (seed_cert P S)" "s_rank s = rank (seed_cert P S)" "s_witness s = witness (seed_cert P S)"
    using Cons.prems by (auto simp: cert_of_def seed_cert_def)
  have step: "solve_seed a s = Inr ?s" using Cons.prems(2) len by (simp add: solve_seed_def)
  have "cert_of ?s = seed_cert P (insert a S)"
    using Cons.prems(2) seed_cert_update [of a P S] by (simp add: cert_of_def parts)
  from Cons.IH [OF _ _ _ this] Cons.prems obtain s' where
    "for_fold solve_seed as ?s = Inr s'" "cert_of s' = seed_cert P (insert a S \<union> set as)"
    "s_queue s' = s_queue ?s @ as" "s_fired s' = s_fired ?s" by auto
  then show ?case using step by simp
qed simp

lemma seeds_iter_distinct [simp]: "distinct (seeds_iter s)"
  by (simp add: seeds_iter_def)

lemma solve_indexed_ok:
  assumes wf: "wf_program P" and ix: "index_of P ix"
  shows "\<exists>c stats. solve_indexed P ix = Inr (c, stats) \<and> tight P c \<and> closed_cert P c"
proof -
  let ?n = "atom_count P" and ?N = "length (rules P)" and ?S = "set (seeds_iter (seeds P))"
  let ?rem = "map (\<lambda>rule. if enabled rule then length (body rule) else 0) (rules P)"
  let ?s0 = "\<lparr>s_live = replicate ?n False, s_rank = replicate ?n None, s_witness = replicate ?n None,
    s_fired = replicate ?N False, s_queue = [], s_stats = stats_default\<rparr>"
  let ?c = "seed_cert P ?S"
  have "cert_of ?s0 = seed_cert P {}" by (auto simp: cert_of_def seed_cert_def map_replicate_const)
  from solve_seeds_ok [OF _ _ _ this, of "seeds_iter (seeds P)"] seeds_range [OF wf] obtain s1 where
    s1: "for_fold solve_seed (seeds_iter (seeds P)) ?s0 = Inr s1" "cert_of s1 = ?c"
    "s_queue s1 = seeds_iter (seeds P)" "s_fired s1 = replicate ?N False" by auto
  have live1: "s_live s1 ! a \<longleftrightarrow> a \<in> ?S" if "a < ?n" for a
    using s1(2) that by (auto simp: cert_of_def seed_cert_def)
  have inv1: "solver_inv P ?c 0 0 {} s1 ?rem"
  proof -
    have "waiting P s1 0 {} i = body (rules P ! i)" if "i < ?N" for i
      using live1 wf_program_rule(2) [OF wf that] s1(3) unfolding waiting_def by (intro filter_True) auto
    then have "rule_inv P (i < 0) 0 {} s1 ?rem i" if "i < ?N" for i using that s1(4) by (simp add: rule_inv_def)
    moreover have "shaped P (cert_of s1)" using seed_cert_tight [of P] s1(2) by (simp add: tight_def sound_cert_def)
    moreover have "derives P ?c (cert_of s1)" using s1(2) derives_refl by simp
    ultimately show ?thesis
      using s1(3,4) live1 seeds_range [OF wf] by (simp add: solver_inv_def)
  qed
  have "\<exists>s2. for_fold (\<lambda>i s. res_bind (idx (rules P) i) (\<lambda>rule.
      if enabled rule \<and> ?rem ! i = 0 then fire_rule P i s else Inr s)) [0..<?N] s1 = Inr s2
      \<and> (solver_inv P ?c ?N 0 {} s2 ?rem \<and> (\<forall>i < ?N. ?N \<le> i \<longrightarrow> \<not> s_fired s2 ! i))"
  proof (rule for_fold_upt_rule [where I = "\<lambda>k s. solver_inv P ?c k 0 {} s ?rem \<and> (\<forall>i < ?N. k \<le> i \<longrightarrow> \<not> s_fired s ! i)"])
    show "solver_inv P ?c 0 0 {} s1 ?rem \<and> (\<forall>i < ?N. 0 \<le> i \<longrightarrow> \<not> s_fired s1 ! i)" using inv1 s1(4) by simp
    fix k s assume k: "k < ?N" and inv: "solver_inv P ?c k 0 {} s ?rem \<and> (\<forall>i < ?N. k \<le> i \<longrightarrow> \<not> s_fired s ! i)"
    then have rule: "rule_inv P (i < k) 0 {} s ?rem i" if "i < ?N" for i using that by (simp add: solver_inv_def)
    show "\<exists>s'. res_bind (idx (rules P) k) (\<lambda>rule. if enabled rule \<and> ?rem ! k = 0 then fire_rule P k s else Inr s) = Inr s'
      \<and> (solver_inv P ?c (Suc k) 0 {} s' ?rem \<and> (\<forall>i < ?N. Suc k \<le> i \<longrightarrow> \<not> s_fired s' ! i))"
    proof (cases "enabled (rules P ! k) \<and> ?rem ! k = 0")
      case True
      have "waiting P s 0 {} k = []" using rule [OF k] inv k True by (auto simp: rule_inv_def)
      from solver_inv_fire [OF wf _ k _ _ this] inv True obtain s' where
        s': "fire_rule P k s = Inr s'" "solver_inv P ?c k 0 {} s' ?rem" "s_fired s' ! k"
        "\<forall>j. j \<noteq> k \<longrightarrow> s_fired s' ! j = s_fired s ! j" using k by blast
      have "rule_inv P (i < Suc k) 0 {} s' ?rem i" if "i < ?N" for i
        using s'(2,3) that by (cases "i = k") (auto simp: solver_inv_def rule_inv_def less_Suc_eq)
      then have "solver_inv P ?c (Suc k) 0 {} s' ?rem" using s'(2) by (simp add: solver_inv_def)
      moreover have "\<forall>i < ?N. Suc k \<le> i \<longrightarrow> \<not> s_fired s' ! i" using s'(4) inv by simp
      ultimately show ?thesis using s'(1) k True by auto
    next
      case False
      have "rule_inv P (i < Suc k) 0 {} s ?rem i" if "i < ?N" for i
        using rule [OF that] False inv k by (cases "i = k") (auto simp: rule_inv_def less_Suc_eq)
      then have "solver_inv P ?c (Suc k) 0 {} s ?rem" using inv by (simp add: solver_inv_def)
      then show ?thesis using k False inv by auto
    qed
  qed
  then obtain s2 where s2: "for_fold (\<lambda>i s. res_bind (idx (rules P) i) (\<lambda>rule.
      if enabled rule \<and> ?rem ! i = 0 then fire_rule P i s else Inr s)) [0..<?N] s1 = Inr s2" "solver_inv P ?c ?N 0 {} s2 ?rem"
    by blast
  obtain s3 rem3 where s3: "solve_loop P ix s2 ?rem = Some (Inr s3)" "solver_inv P ?c ?N 0 {} s3 rem3" "s_queue s3 = []"
    using solve_loop_ok [OF wf ix s2(2)] by blast
  have der: "derives P ?c (cert_of s3)" using s3(2) by (simp add: solver_inv_def)
  have "tight P (cert_of s3)" by (rule derives_tight [OF der wf seed_cert_tight])
  moreover have "closed_cert P (cert_of s3)"
  proof -
    have "s_live s3 ! a" if "a \<in> ?S" for a
    proof -
      have "live ?c ! a" using that seeds_range [OF wf that] by (simp add: seed_cert_def)
      moreover have "shaped P ?c" using seed_cert_tight [of P] by (simp add: tight_def sound_cert_def)
      ultimately show ?thesis using derives_mono [OF der _ wf] by simp
    qed
    then show ?thesis using solver_inv_closed [OF s3(2,3)] by (simp add: closed_cert_def)
  qed
  moreover have "solve_indexed P ix = Inr (cert_of s3, s_stats s3)"
    using s1(1) s2(1) s3(1) for_fold_enumerate [of "\<lambda>i left s. res_bind (idx (rules P) i) (\<lambda>rule.
        if enabled rule \<and> left = 0 then fire_rule P i s else Inr s)" ?rem s1]
    by (simp add: solve_indexed_def Let_def returned_def cert_of_def)
  ultimately show ?thesis by blast
qed

lemma solve_ok:
  assumes "wf_program P"
  shows "\<exists>c stats. solve P = Inr (c, stats) \<and> tight P c \<and> closed_cert P c"
  using incidence_compile_ok [OF assms] solve_indexed_ok [OF assms] by (auto simp: solve_def)

section \<open>Construction of programs\<close>

lemma seeds_insert_ok:
  assumes "wf_seeds s" "a < length (members s)"
  shows "\<exists>s'. seeds_insert s a = Inr (s', \<not> members s ! a) \<and> wf_seeds s' \<and> members s' = (members s)[a := True]"
proof (cases "members s ! a")
  case True
  then have "(members s)[a := True] = members s" by (metis list_update_id)
  then show ?thesis using True assms by (auto simp: seeds_insert_def Let_def)
next
  case False
  then show ?thesis
    using assms count_true_set [OF assms(2) False] by (auto simp: seeds_insert_def wf_seeds_def Let_def)
qed

lemma seeds_remove_ok:
  assumes "wf_seeds s" "a < length (members s)"
  shows "\<exists>s'. seeds_remove s a = Inr (s', members s ! a) \<and> wf_seeds s' \<and> members s' = (members s)[a := False]"
proof (cases "members s ! a")
  case True
  then show ?thesis
    using assms count_true_clear [OF assms(2) True]
    by (auto simp: seeds_remove_def seeds_contains_def wf_seeds_def)
next
  case False
  then have "(members s)[a := False] = members s" by (metis list_update_id)
  then show ?thesis using False assms by (auto simp: seeds_remove_def seeds_contains_def)
qed

lemma from_atoms_ok:
  assumes "\<forall>a \<in> set as. a < n" "wf_seeds s" "length (members s) = n"
  shows "\<exists>s'. for_fold (\<lambda>atom s. if atom \<ge> n then Inl (Raise (AtomOutsideUniverse atom))
      else res_bind (seeds_insert s atom) (\<lambda>(s', _). Inr s')) as s = Inr s'
    \<and> wf_seeds s' \<and> length (members s') = n \<and> (\<forall>i < n. members s' ! i \<longleftrightarrow> members s ! i \<or> i \<in> set as)"
  using assms
proof (induction as arbitrary: s)
  case (Cons a as)
  obtain s1 where s1: "seeds_insert s a = Inr (s1, \<not> members s ! a)" "wf_seeds s1" "members s1 = (members s)[a := True]"
    using seeds_insert_ok [of s a] Cons.prems by auto
  from Cons.IH [of s1] s1 Cons.prems show ?case by (auto simp: nth_list_update)
qed simp

lemma from_atoms_error:
  "a \<in> set as \<Longrightarrow> n \<le> a \<Longrightarrow> wf_seeds s \<Longrightarrow> length (members s) = n \<Longrightarrow>
   \<exists>b. n \<le> b \<and> for_fold (\<lambda>atom s. if atom \<ge> n then Inl (Raise (AtomOutsideUniverse atom))
      else res_bind (seeds_insert s atom) (\<lambda>(s', _). Inr s')) as s = Inl (Raise (AtomOutsideUniverse b))"
proof (induction as arbitrary: s)
  case (Cons b as)
  show ?case
  proof (cases "n \<le> b")
    case False
    obtain s1 where "seeds_insert s b = Inr (s1, \<not> members s ! b)" "wf_seeds s1" "members s1 = (members s)[b := True]"
      using seeds_insert_ok [of s b] Cons.prems False by auto
    then show ?thesis using Cons.IH [of s1] Cons.prems False by auto
  qed auto
qed simp

lemma for_each_fail:
  "x \<in> set xs \<Longrightarrow> f x \<noteq> Inr () \<Longrightarrow> \<exists>y \<in> set xs. \<exists>e. f y = Inl e \<and> for_each f xs = Inl e"
proof (induction xs)
  case (Cons z xs)
  then show ?case by (cases "f z") auto
qed simp

lemma validate_atom_iff: "validate_atom P a = Inr () \<longleftrightarrow> a < atom_count P"
  by (simp add: validate_atom_def ensure_def)

lemma validate_atoms_iff: "for_each (validate_atom P) as = Inr () \<longleftrightarrow> (\<forall>a \<in> set as. a < atom_count P)"
  by (simp add: for_each_Inr_iff validate_atom_iff)

lemma validate_ok:
  assumes "wf_program P"
  shows "validate P = Inr ()"
proof -
  have "for_each (validate_atom P) (seeds_iter (seeds P)) = Inr ()"
    using seeds_range [OF assms] by (simp add: validate_atoms_iff)
  moreover have "res_bind (validate_atom P (head r)) (\<lambda>_. for_each (validate_atom P) (body r)) = Inr ()" if "r \<in> set (rules P)" for r
  proof -
    have "wf_rule (atom_count P) r" using assms that by (simp add: wf_program_def)
    then have "validate_atom P (head r) = Inr ()" "for_each (validate_atom P) (body r) = Inr ()"
      by (simp_all add: wf_rule_def validate_atom_iff validate_atoms_iff)
    then show ?thesis by simp
  qed
  then have "for_each (\<lambda>r. res_bind (validate_atom P (head r)) (\<lambda>_. for_each (validate_atom P) (body r))) (rules P) = Inr ()"
    by (simp add: for_each_Inr_iff)
  ultimately show ?thesis by (simp add: validate_def)
qed

lemma program_new_iff:
  assumes "\<forall>r \<in> set rs. distinct (body r)" "n \<le> usize_max"
  shows "if (\<forall>a \<in> set ss. a < n) \<and> (\<forall>r \<in> set rs. head r < n \<and> (\<forall>p \<in> set (body r). p < n))
    then \<exists>P. program_new n ss rs = Inr P \<and> wf_program P \<and> atom_count P = n \<and> rules P = rs
      \<and> set (seeds_iter (seeds P)) = set ss
    else \<exists>b. n \<le> b \<and> program_new n ss rs = Inl (Raise (AtomOutsideUniverse b))"
proof (cases "\<forall>a \<in> set ss. a < n")
  case seeds: True
  have wf0: "wf_seeds \<lparr>members = replicate n False, seed_count = 0\<rparr>" by (simp add: wf_seeds_def)
  obtain s where s: "from_atoms n ss = Inr s" "wf_seeds s" "length (members s) = n"
    "\<forall>i < n. members s ! i \<longleftrightarrow> i \<in> set ss"
    using from_atoms_ok [OF seeds wf0] by (auto simp: from_atoms_def)
  let ?P = "\<lparr>atom_count = n, seeds = s, rules = rs\<rparr>"
  have iter: "set (seeds_iter s) = set ss" using s(3,4) seeds by (auto simp: set_seeds_iter)
  show ?thesis
  proof (cases "\<forall>r \<in> set rs. head r < n \<and> (\<forall>p \<in> set (body r). p < n)")
    case True
    then have "wf_program ?P" using s assms by (simp add: wf_program_def wf_rule_def)
    then show ?thesis using validate_ok [of ?P] s(1) iter True seeds by (simp add: program_new_def)
  next
    case False
    let ?check = "\<lambda>rule. res_bind (validate_atom ?P (head rule)) (\<lambda>_. for_each (validate_atom ?P) (body rule))"
    have atom: "validate_atom ?P a = (if a < n then Inr () else Inl (Raise (AtomOutsideUniverse a)))" for a
      by (simp add: validate_atom_def ensure_def)
    have rule: "?check r = Inr () \<longleftrightarrow> head r < n \<and> (\<forall>p \<in> set (body r). p < n)" for r
      using validate_atoms_iff [of ?P "body r"] by (simp add: atom)
    have rule_fail: "\<exists>b. n \<le> b \<and> e = Raise (AtomOutsideUniverse b)" if "?check r = Inl e" for r e
    proof (cases "head r < n")
      case True
      then have "for_each (validate_atom ?P) (body r) = Inl e" using that by (simp add: atom)
      moreover from this obtain p where "p \<in> set (body r)" "\<not> p < n"
        using validate_atoms_iff [of ?P "body r"] by auto
      ultimately show ?thesis using for_each_fail [of p "body r" "validate_atom ?P"] by (auto simp: atom split: if_splits)
    qed (use that in \<open>auto simp: atom\<close>)
    from False obtain r where "r \<in> set rs" "?check r \<noteq> Inr ()" unfolding rule by auto
    from for_each_fail [of r rs ?check, OF this] rule_fail have "\<exists>b. n \<le> b \<and> for_each ?check rs = Inl (Raise (AtomOutsideUniverse b))"
      by blast
    moreover have "for_each (validate_atom ?P) (seeds_iter s) = Inr ()"
      using validate_atoms_iff [of ?P "seeds_iter s"] iter seeds by simp
    ultimately have "\<exists>b. n \<le> b \<and> validate ?P = Inl (Raise (AtomOutsideUniverse b))" by (simp add: validate_def)
    then have "\<exists>b. n \<le> b \<and> program_new n ss rs = Inl (Raise (AtomOutsideUniverse b))"
      using s(1) by (auto simp: program_new_def)
    then show ?thesis using False by auto
  qed
next
  case False
  then obtain a where "a \<in> set ss" "n \<le> a" by auto
  from from_atoms_error [OF this, of "\<lparr>members = replicate n False, seed_count = 0\<rparr>"]
  have "\<exists>b. n \<le> b \<and> from_atoms n ss = Inl (Raise (AtomOutsideUniverse b))" by (simp add: from_atoms_def wf_seeds_def)
  then show ?thesis using False by (auto simp: program_new_def)
qed

lemma program_new_wf:
  assumes "program_new n ss rs = Inr P" "\<forall>r \<in> set rs. distinct (body r)" "n \<le> usize_max"
  shows "wf_program P" "atom_count P = n" "rules P = rs" "set (seeds_iter (seeds P)) = set ss"
  using program_new_iff [OF assms(2,3), of ss] assms(1) by (auto split: if_splits)

section \<open>Properties\<close>

text \<open>
  C1: the worklist solver returns on every program and computes its least model. The certificate it builds
  passes the checker, an atom is live in it exactly when it can be derived from the seeds by enabled rules,
  and no rank ever saturates: ranks stay below the number of atoms.
\<close>
theorem grounded_solve_least_model:
  assumes "program_new n ss rs = Inr P" "\<forall>r \<in> set rs. distinct (body r)" "n \<le> usize_max"
  shows "\<exists>c stats. solve P = Inr (c, stats) \<and> check P c = Inr () \<and> (\<forall>a. is_live c a \<longleftrightarrow> a \<in> derivable P)
    \<and> (\<forall>a r. rank_at c a = Some r \<longrightarrow> r < n)"
proof -
  note P = program_new_wf [OF assms]
  obtain c stats where c: "solve P = Inr (c, stats)" "tight P c" "closed_cert P c" using solve_ok [OF P(1)] by blast
  have sound: "sound_cert P c" using c(2) by (simp add: tight_def)
  have "check P c = Inr ()" using check_iff [OF P(1)] sound c(3) by simp
  moreover have "r < n" if "rank_at c a = Some r" for a r
    using that tight_rank_bound [OF P(1) c(2), of a r] sound P(2)
    by (auto simp: rank_at_def sound_cert_def shaped_def get_vec_def split: if_splits)
  ultimately show ?thesis using c(1) exact_cert [OF P(1) sound c(3)] by blast
qed

definition sample_rules :: "grounded_rule list" where
  "sample_rules = [rule_new [0] 1, rule_new [1, 0] 2, rule_new [4] 3, rule_disabled [] 3]"

theorem grounded_solve_least_model_witness:
  "\<exists>P. program_new 5 [0] sample_rules = Inr P \<and> list_all (\<lambda>r. distinct (body r)) sample_rules \<and> 5 \<le> usize_max
   \<and> (\<exists>c stats. solve P = Inr (c, stats) \<and> check P c = Inr () \<and> (\<forall>a. is_live c a \<longleftrightarrow> a \<in> derivable P)
        \<and> (\<forall>a r. rank_at c a = Some r \<longrightarrow> r < 5))"
proof -
  have d: "\<forall>r \<in> set sample_rules. distinct (body r)" "5 \<le> usize_max"
    by (simp_all add: sample_rules_def rule_new_def rule_disabled_def usize_max_def)
  obtain P where P: "program_new 5 [0] sample_rules = Inr P"
    using program_new_iff [OF d, of "[0]"] by (auto simp: sample_rules_def rule_new_def rule_disabled_def split: if_splits)
  show ?thesis using grounded_solve_least_model [OF P d] P d by (auto simp: list_all_iff)
qed

text \<open>
  C8: the checker accepts exactly the certificates with a well-founded proof for every live atom, nothing
  recorded for dead atoms, all seeds live and no enabled rule violated. Every certificate it accepts, whoever
  produced it, decides derivability exactly.
\<close>
theorem grounded_check_exact:
  assumes "wf_program P"
  shows "(check P c = Inr () \<longleftrightarrow> sound_cert P c \<and> closed_cert P c)
    \<and> (check P c = Inr () \<longrightarrow> (\<forall>a. is_live c a \<longleftrightarrow> a \<in> derivable P))"
  using check_iff [OF assms] exact_cert [OF assms] by blast

theorem grounded_check_exact_witness:
  "\<exists>P c. wf_program P \<and> check P c = Inr () \<and> (check P c = Inr () \<longleftrightarrow> sound_cert P c \<and> closed_cert P c)
    \<and> (is_live c 2 \<longleftrightarrow> 2 \<in> derivable P)"
proof -
  have d: "\<forall>r \<in> set sample_rules. distinct (body r)" "5 \<le> usize_max"
    by (simp_all add: sample_rules_def rule_new_def rule_disabled_def usize_max_def)
  obtain P where P: "program_new 5 [0] sample_rules = Inr P"
    using program_new_iff [OF d, of "[0]"] by (auto simp: sample_rules_def rule_new_def rule_disabled_def split: if_splits)
  note wf = program_new_wf(1) [OF P d]
  obtain c stats where "solve P = Inr (c, stats)" "tight P c" "closed_cert P c" using solve_ok [OF wf] by blast
  then have "check P c = Inr ()" using check_iff [OF wf] by (simp add: tight_def)
  then show ?thesis using wf grounded_check_exact [OF wf] by blast
qed

text \<open>
  C34: a program is accepted exactly when every seed, head and premise lies in its universe; the error names
  an atom outside of it, and no input makes the construction panic.
\<close>
theorem program_new_validates:
  assumes "\<forall>r \<in> set rs. distinct (body r)" "n \<le> usize_max"
  shows "if (\<forall>a \<in> set ss. a < n) \<and> (\<forall>r \<in> set rs. head r < n \<and> (\<forall>p \<in> set (body r). p < n))
    then \<exists>P. program_new n ss rs = Inr P \<and> wf_program P \<and> atom_count P = n \<and> rules P = rs
      \<and> set (seeds_iter (seeds P)) = set ss
    else \<exists>b. n \<le> b \<and> program_new n ss rs = Inl (Raise (AtomOutsideUniverse b))"
  by (rule program_new_iff [OF assms])

theorem program_new_validates_witness:
  "list_all (\<lambda>r. distinct (body r)) sample_rules \<and> 2 \<le> usize_max
   \<and> (\<exists>b. 2 \<le> b \<and> program_new 2 [0] sample_rules = Inl (Raise (AtomOutsideUniverse b)))"
proof -
  have d: "\<forall>r \<in> set sample_rules. distinct (body r)" "2 \<le> usize_max"
    by (simp_all add: sample_rules_def rule_new_def rule_disabled_def usize_max_def)
  then show ?thesis
    using program_new_validates [OF d, of "[0]"] by (auto simp: sample_rules_def rule_new_def rule_disabled_def split: if_splits)
qed

end
