(* ===== verification/Grounded_Maintenance.thy ===== *)
theory Grounded_Maintenance
  imports Grounded_Solver
begin

text \<open>
  \<open>kernel-grounded-closure\<close>, \<open>maintenance.rs\<close>: incremental maintenance of a certificate when seeds are added
  or removed, rules enabled or disabled, and atoms or rules appended. The functions that mutate their
  arguments take the old values and return the new ones; the worklist loops are partial.
\<close>

section \<open>Updates and state\<close>

record grounded_update =
  add_seeds :: "grounded_atom_id list"
  remove_seeds :: "grounded_atom_id list"
  enable_rules :: "grounded_rule_id list"
  disable_rules :: "grounded_rule_id list"

record grounded_structural_patch =
  append_atoms :: nat
  append_rules :: "grounded_rule list"
  patch_add_seeds :: "grounded_atom_id list"
  patch_remove_seeds :: "grounded_atom_id list"
  patch_enable_rules :: "grounded_rule_id list"
  patch_disable_rules :: "grounded_rule_id list"

record grounded_maintenance =
  m_program :: grounded_program
  m_index :: grounded_incidence_index
  m_certificate :: grounded_certificate
  m_witness_index :: grounded_witness_index

definition validate_update :: "grounded_program \<Rightarrow> grounded_update \<Rightarrow> (fault, unit) result" where
  "validate_update P u =
     res_bind (for_each (validate_atom P) (add_seeds u @ remove_seeds u)) (\<lambda>_.
       for_each (validate_rule P) (enable_rules u @ disable_rules u))"

section \<open>Insertions\<close>

definition derive_from_rule_with_witness_index :: "grounded_program \<Rightarrow> grounded_rule_id
    \<Rightarrow> grounded_certificate \<times> grounded_witness_index \<times> grounded_atom_id list
    \<Rightarrow> (fault, grounded_certificate \<times> grounded_witness_index \<times> grounded_atom_id list) result" where
  "derive_from_rule_with_witness_index P rule_id = (\<lambda>(c, wx, queue).
     res_bind (idx (rules P) rule_id) (\<lambda>rule.
     if is_live c (head rule) then Inr (c, wx, queue)
     else
       let r = next_rank (map (rank_at c) (body rule)) in
       res_bind (put (live c) (head rule) True) (\<lambda>lv.
       res_bind (put (rank c) (head rule) (Some r)) (\<lambda>rk.
       res_bind (put (witness c) (head rule) (Some (Rule rule_id))) (\<lambda>w.
       let c' = \<lparr>live = lv, rank = rk, witness = w\<rparr> in
       res_bind (install_from_certificate wx P c' (head rule)) (\<lambda>wx'.
         Inr (c', wx', queue @ [head rule])))))))"

definition insert_seed :: "grounded_atom_id \<Rightarrow> grounded_certificate \<times> grounded_atom_id list
    \<Rightarrow> (fault, grounded_certificate \<times> grounded_atom_id list) result" where
  "insert_seed seed = (\<lambda>(c, queue).
     if is_live c seed then Inr (c, queue)
     else
       res_bind (put (live c) seed True) (\<lambda>lv.
       res_bind (put (rank c) seed (Some 0)) (\<lambda>rk.
       res_bind (put (witness c) seed (Some Seed)) (\<lambda>w.
         Inr (\<lparr>live = lv, rank = rk, witness = w\<rparr>, queue @ [seed])))))"

text \<open>
  The two loops of the insertion phase visit a rule in the same way, except that only the worklist loop
  counts the visit.
\<close>

definition insert_visit :: "grounded_program \<Rightarrow> bool \<Rightarrow> grounded_rule_id
    \<Rightarrow> (grounded_certificate \<times> grounded_witness_index \<times> grounded_atom_id list) \<times> grounded_work_stats
    \<Rightarrow> (fault, (grounded_certificate \<times> grounded_witness_index \<times> grounded_atom_id list) \<times> grounded_work_stats) result" where
  "insert_visit P counted rule_id = (\<lambda>((c, wx, queue), stats).
     res_bind (idx (rules P) rule_id) (\<lambda>rule.
     if \<not> enabled rule \<or> is_live c (head rule) then Inr ((c, wx, queue), stats)
     else
       let stats = (if counted then count_update stats else stats) in
       if list_all (is_live c) (body rule)
       then res_bind (derive_from_rule_with_witness_index P rule_id (c, wx, queue)) (\<lambda>r. Inr (r, count_fire stats))
       else Inr ((c, wx, queue), stats)))"

partial_function (option) insert_loop :: "grounded_program \<Rightarrow> grounded_incidence_index
    \<Rightarrow> (grounded_certificate \<times> grounded_witness_index \<times> grounded_atom_id list) \<times> grounded_work_stats
    \<Rightarrow> (fault, (grounded_certificate \<times> grounded_witness_index \<times> grounded_atom_id list) \<times> grounded_work_stats) result option" where
  "insert_loop P ix r =
     (case r of ((c, wx, queue), stats) \<Rightarrow>
       (case queue of
          [] \<Rightarrow> Some (Inr r)
        | atom # q \<Rightarrow>
            (case res_bind (idx (dependents ix) atom) (\<lambda>ds. for_fold (insert_visit P True) ds ((c, wx, q), stats)) of
               Inl e \<Rightarrow> Some (Inl e)
             | Inr r' \<Rightarrow> insert_loop P ix r')))"

definition incremental_insertions_with_witness_index :: "grounded_program \<Rightarrow> grounded_incidence_index \<Rightarrow> grounded_update
    \<Rightarrow> grounded_certificate \<Rightarrow> grounded_witness_index \<Rightarrow> grounded_work_stats
    \<Rightarrow> (fault, grounded_certificate \<times> grounded_witness_index \<times> grounded_work_stats) result" where
  "incremental_insertions_with_witness_index P ix u c wx stats =
     res_bind (for_fold insert_seed (add_seeds u) (c, [])) (\<lambda>(c1, q1).
     res_bind (for_fold (insert_visit P False) (enable_rules u) ((c1, wx, q1), stats)) (\<lambda>r.
     res_bind (returned (insert_loop P ix r)) (\<lambda>((c3, wx3, _), stats3). Inr (c3, wx3, stats3))))"

section \<open>Deletions\<close>

text \<open>The atoms whose recorded proof depends on an invalidated one, through the witness index.\<close>

definition cone_visit :: "grounded_certificate \<Rightarrow> grounded_atom_id
    \<Rightarrow> grounded_atom_id btree_set \<times> grounded_atom_id list \<times> grounded_work_stats
    \<Rightarrow> grounded_atom_id btree_set \<times> grounded_atom_id list \<times> grounded_work_stats" where
  "cone_visit c child = (\<lambda>(affected, queue, stats).
     let stats = count_walk stats in
     if is_live c child \<and> child \<notin> set affected then (bs_insert child affected, queue @ [child], stats)
     else (affected, queue, stats))"

partial_function (option) cone_loop :: "grounded_certificate \<Rightarrow> grounded_witness_index
    \<Rightarrow> grounded_atom_id btree_set \<times> grounded_atom_id list \<times> grounded_work_stats
    \<Rightarrow> (fault, grounded_atom_id btree_set \<times> grounded_work_stats) result option" where
  "cone_loop c wx r =
     (case r of (affected, queue, stats) \<Rightarrow>
       (case queue of
          [] \<Rightarrow> Some (Inr (affected, stats))
        | atom # q \<Rightarrow>
            (case idx (children wx) atom of
               Inl e \<Rightarrow> Some (Inl e)
             | Inr cs \<Rightarrow> cone_loop c wx (fold (cone_visit c) cs (affected, q, stats)))))"

definition collect_sparse_witness_cone :: "grounded_certificate \<Rightarrow> grounded_witness_index \<Rightarrow> grounded_atom_id btree_set
    \<Rightarrow> grounded_work_stats \<Rightarrow> (fault, grounded_atom_id btree_set \<times> grounded_work_stats) result" where
  "collect_sparse_witness_cone c wx direct stats =
     (let (affected, queue) = fold (\<lambda>atom (affected, queue).
            if is_live c atom \<and> atom \<notin> set affected then (bs_insert atom affected, queue @ [atom]) else (affected, queue))
          direct ([], [])
      in returned (cone_loop c wx (affected, queue, stats)))"

definition reset_atom :: "grounded_atom_id \<Rightarrow> grounded_certificate \<Rightarrow> (fault, grounded_certificate) result" where
  "reset_atom atom c =
     res_bind (put (live c) atom False) (\<lambda>lv.
     res_bind (put (rank c) atom None) (\<lambda>rk.
     res_bind (put (witness c) atom None) (\<lambda>w. Inr \<lparr>live = lv, rank = rk, witness = w\<rparr>)))"

definition restore_seed :: "grounded_atom_id btree_set \<Rightarrow> grounded_atom_id \<Rightarrow> grounded_certificate \<Rightarrow> (fault, grounded_certificate) result" where
  "restore_seed affected seed c =
     (if seed \<notin> set affected then Inr c
      else
        res_bind (put (live c) seed True) (\<lambda>lv.
        res_bind (put (rank c) seed (Some 0)) (\<lambda>rk.
        res_bind (put (witness c) seed (Some Seed)) (\<lambda>w. Inr \<lparr>live = lv, rank = rk, witness = w\<rparr>))))"

record recompute_state =
  r_cert :: grounded_certificate
  r_witness :: grounded_witness_index
  r_remaining :: "(grounded_rule_id, nat) btree_map"
  r_dependents :: "(grounded_atom_id, grounded_rule_id list) btree_map"
  r_seen :: "grounded_rule_id btree_set"
  r_fired :: "grounded_rule_id btree_set"
  r_work :: "grounded_atom_id list"
  r_stats :: grounded_work_stats

text \<open>Firing a rule whose count has reached zero; it is shared by the scan and by the worklist loop.\<close>

definition recompute_fire :: "grounded_program \<Rightarrow> grounded_rule_id \<Rightarrow> recompute_state \<Rightarrow> (fault, recompute_state) result" where
  "recompute_fire P rule_id s =
     (let s = s\<lparr>r_fired := bs_insert rule_id (r_fired s), r_stats := count_fire (r_stats s)\<rparr> in
      res_bind (idx (rules P) rule_id) (\<lambda>rule.
      if is_live (r_cert s) (head rule) then Inr s
      else res_bind (derive_from_rule_with_witness_index P rule_id (r_cert s, r_witness s, r_work s)) (\<lambda>(c, wx, work).
        Inr (s\<lparr>r_cert := c, r_witness := wx, r_work := work\<rparr>))))"

definition scan_rule :: "grounded_program \<Rightarrow> grounded_atom_id btree_set \<Rightarrow> grounded_rule_id \<Rightarrow> recompute_state
    \<Rightarrow> (fault, recompute_state) result" where
  "scan_rule P affected rule_id s =
     (if rule_id \<in> set (r_seen s) then Inr s
      else
        let s = s\<lparr>r_seen := bs_insert rule_id (r_seen s)\<rparr> in
        res_bind (idx (rules P) rule_id) (\<lambda>rule.
        if \<not> enabled rule then Inr s
        else
          let missing = length (filter (\<lambda>atom. \<not> is_live (r_cert s) atom) (body rule));
              deps = fold (\<lambda>premise ds. if premise \<in> set affected
                       then bt_insert premise ((case bt_get ds premise of None \<Rightarrow> [] | Some rs \<Rightarrow> rs) @ [rule_id]) ds
                       else ds) (body rule) (r_dependents s);
              s = s\<lparr>r_remaining := bt_insert rule_id missing (r_remaining s), r_dependents := deps\<rparr>
          in if missing = 0 then recompute_fire P rule_id s else Inr s))"

definition recompute_visit :: "grounded_program \<Rightarrow> grounded_rule_id \<Rightarrow> recompute_state \<Rightarrow> (fault, recompute_state) result" where
  "recompute_visit P rule_id s =
     (if rule_id \<in> set (r_fired s) then Inr s
      else case bt_get (r_remaining s) rule_id of
        None \<Rightarrow> Inr s
      | Some left \<Rightarrow>
          if left = 0 then Inr s
          else
            let s = s\<lparr>r_stats := count_update (r_stats s), r_remaining := bt_insert rule_id (left - 1) (r_remaining s)\<rparr> in
            if left - 1 = 0 then recompute_fire P rule_id s else Inr s)"

partial_function (option) recompute_loop :: "grounded_program \<Rightarrow> recompute_state \<Rightarrow> (fault, recompute_state) result option" where
  "recompute_loop P s =
     (case r_work s of
        [] \<Rightarrow> Some (Inr s)
      | atom # q \<Rightarrow>
          (case bt_get (r_dependents s) atom of
             None \<Rightarrow> recompute_loop P (s\<lparr>r_work := q\<rparr>)
           | Some ds \<Rightarrow>
               (case for_fold (recompute_visit P) ds (s\<lparr>r_work := q\<rparr>) of
                  Inl e \<Rightarrow> Some (Inl e)
                | Inr s' \<Rightarrow> recompute_loop P s')))"

definition local_recompute_after_deletion_sparse_indexed :: "grounded_program \<Rightarrow> grounded_incidence_index
    \<Rightarrow> grounded_certificate \<Rightarrow> grounded_witness_index \<Rightarrow> grounded_atom_id btree_set
    \<Rightarrow> (fault, grounded_certificate \<times> grounded_witness_index \<times> grounded_work_stats) result" where
  "local_recompute_after_deletion_sparse_indexed P ix c wx direct =
     res_bind (collect_sparse_witness_cone c wx direct stats_default) (\<lambda>(affected, stats).
     let stats = stats\<lparr>affected_atoms := length affected\<rparr> in
     res_bind (for_fold (\<lambda>atom wx. remove_from_certificate wx P c atom) affected wx) (\<lambda>wx1.
     res_bind (for_fold reset_atom affected c) (\<lambda>c1.
     res_bind (for_fold (restore_seed affected) (seeds_iter (seeds P)) c1) (\<lambda>c2.
     res_bind (for_fold (\<lambda>h s. res_bind (idx (by_head ix) h) (\<lambda>rs. for_fold (scan_rule P affected) rs s)) affected
        \<lparr>r_cert = c2, r_witness = wx1, r_remaining = [], r_dependents = [], r_seen = [], r_fired = [], r_work = [],
         r_stats = stats\<rparr>) (\<lambda>s1.
     res_bind (returned (recompute_loop P s1)) (\<lambda>s2. Inr (r_cert s2, r_witness s2, r_stats s2)))))))"

definition local_recompute_after_deletion_indexed :: "grounded_program \<Rightarrow> grounded_incidence_index \<Rightarrow> grounded_certificate
    \<Rightarrow> grounded_atom_id btree_set \<Rightarrow> (fault, grounded_certificate \<times> grounded_work_stats) result" where
  "local_recompute_after_deletion_indexed P ix old direct =
     res_bind (witness_compile P old) (\<lambda>wx.
     res_bind (local_recompute_after_deletion_sparse_indexed P ix old wx direct) (\<lambda>(c, _, stats). Inr (c, stats)))"

definition local_recompute_after_deletion :: "grounded_program \<Rightarrow> grounded_certificate
    \<Rightarrow> grounded_atom_id btree_set \<Rightarrow> (fault, grounded_certificate \<times> grounded_work_stats) result" where
  "local_recompute_after_deletion P old direct =
     res_bind (incidence_compile P) (\<lambda>ix. local_recompute_after_deletion_indexed P ix old direct)"

section \<open>Applying updates\<close>

definition invalidate_seed :: "grounded_certificate \<Rightarrow> grounded_atom_id \<Rightarrow> grounded_program \<times> grounded_atom_id btree_set
    \<Rightarrow> (fault, grounded_program \<times> grounded_atom_id btree_set) result" where
  "invalidate_seed c seed = (\<lambda>(P, direct).
     let direct = (if is_live c seed \<and> witness_at c seed = Some Seed then bs_insert seed direct else direct) in
     res_bind (seeds_remove (seeds P) seed) (\<lambda>(s, _). Inr (P\<lparr>seeds := s\<rparr>, direct)))"

definition set_enabled :: "bool \<Rightarrow> grounded_rule_id \<Rightarrow> grounded_program \<Rightarrow> (fault, grounded_program) result" where
  "set_enabled b rule_id P = res_bind (modify (rules P) rule_id (\<lambda>r. r\<lparr>enabled := b\<rparr>)) (\<lambda>rs. Inr (P\<lparr>rules := rs\<rparr>))"

definition invalidate_rule :: "grounded_certificate \<Rightarrow> grounded_rule_id \<Rightarrow> grounded_program \<times> grounded_atom_id btree_set
    \<Rightarrow> (fault, grounded_program \<times> grounded_atom_id btree_set) result" where
  "invalidate_rule c rule_id = (\<lambda>(P, direct).
     res_bind (idx (rules P) rule_id) (\<lambda>rule.
     let direct = (if enabled rule \<and> is_live c (head rule) \<and> witness_at c (head rule) = Some (Rule rule_id)
                   then bs_insert (head rule) direct else direct) in
     res_bind (set_enabled False rule_id P) (\<lambda>P'. Inr (P', direct))))"

definition invalidate_update_sources :: "grounded_program \<Rightarrow> grounded_certificate \<Rightarrow> grounded_update
    \<Rightarrow> (fault, grounded_program \<times> grounded_atom_id btree_set) result" where
  "invalidate_update_sources P c u =
     res_bind (for_fold (invalidate_seed c) (remove_seeds u) (P, []))
       (for_fold (invalidate_rule c) (disable_rules u))"

definition add_seed :: "grounded_atom_id \<Rightarrow> grounded_program \<Rightarrow> (fault, grounded_program) result" where
  "add_seed seed P = res_bind (seeds_insert (seeds P) seed) (\<lambda>(s, _). Inr (P\<lparr>seeds := s\<rparr>))"

definition apply_update_maintained_validated :: "grounded_program \<Rightarrow> grounded_incidence_index \<Rightarrow> grounded_certificate
    \<Rightarrow> grounded_witness_index \<Rightarrow> grounded_update
    \<Rightarrow> (fault, grounded_program \<times> grounded_certificate \<times> grounded_witness_index \<times> grounded_work_stats) result" where
  "apply_update_maintained_validated P ix c wx u =
     res_bind (invalidate_update_sources P c u) (\<lambda>(P1, direct).
     res_bind (if direct = [] then Inr (c, wx, stats_default)
               else local_recompute_after_deletion_sparse_indexed P1 ix c wx direct) (\<lambda>(c1, wx1, stats).
     res_bind (for_fold add_seed (add_seeds u) P1) (\<lambda>P2.
     res_bind (for_fold (set_enabled True) (enable_rules u) P2) (\<lambda>P3.
     res_bind (incremental_insertions_with_witness_index P3 ix u c1 wx1 stats) (\<lambda>(c2, wx2, stats2).
       Inr (P3, c2, wx2, stats2))))))"

definition apply_update_indexed_validated :: "grounded_program \<Rightarrow> grounded_incidence_index \<Rightarrow> grounded_certificate \<Rightarrow> grounded_update
    \<Rightarrow> (fault, grounded_program \<times> grounded_certificate \<times> grounded_work_stats) result" where
  "apply_update_indexed_validated P ix old u =
     res_bind (witness_compile P old) (\<lambda>wx.
     res_bind (apply_update_maintained_validated P ix old wx u) (\<lambda>(P', c, _, stats). Inr (P', c, stats)))"

definition apply_update_indexed :: "grounded_program \<Rightarrow> grounded_incidence_index \<Rightarrow> grounded_certificate \<Rightarrow> grounded_update
    \<Rightarrow> (fault, grounded_program \<times> grounded_certificate \<times> grounded_work_stats) result" where
  "apply_update_indexed P ix old u =
     res_bind (validate_update P u) (\<lambda>_.
     res_bind (check P old) (\<lambda>_.
     res_bind (apply_update_indexed_validated P ix old u) (\<lambda>(P', c, stats).
     res_bind (check P' c) (\<lambda>_. Inr (P', c, stats)))))"

definition apply_update :: "grounded_program \<Rightarrow> grounded_certificate \<Rightarrow> grounded_update
    \<Rightarrow> (fault, grounded_program \<times> grounded_certificate \<times> grounded_work_stats) result" where
  "apply_update P old u =
     res_bind (validate_update P u) (\<lambda>_.
     res_bind (check P old) (\<lambda>_.
     res_bind (incidence_compile P) (\<lambda>ix. apply_update_indexed P ix old u)))"

section \<open>Structural patches\<close>

definition validate_future_atom :: "nat \<Rightarrow> grounded_atom_id \<Rightarrow> (fault, unit) result" where
  "validate_future_atom n atom = ensure (atom < n) (Raise (AtomOutsideUniverse atom))"

definition validate_patch :: "nat \<Rightarrow> nat \<Rightarrow> grounded_structural_patch \<Rightarrow> (fault, unit) result" where
  "validate_patch n old_rule_count p =
     res_bind (for_each (validate_future_atom n) (patch_add_seeds p @ patch_remove_seeds p)) (\<lambda>_.
     res_bind (for_each (\<lambda>rule. res_bind (validate_future_atom n (head rule))
         (\<lambda>_. for_each (validate_future_atom n) (body rule))) (append_rules p)) (\<lambda>_.
       for_each (\<lambda>rule. ensure (\<not> rule \<ge> old_rule_count) (Raise (RuleOutsideProgram rule)))
         (patch_enable_rules p @ patch_disable_rules p)))"

text \<open>The appended rules enter the program disabled; the update that follows enables them.\<close>

definition append_step :: "nat \<Rightarrow> nat \<times> grounded_rule
    \<Rightarrow> grounded_program \<times> grounded_incidence_index \<times> grounded_rule_id list \<times> grounded_rule_id list
    \<Rightarrow> (fault, grounded_program \<times> grounded_incidence_index \<times> grounded_rule_id list \<times> grounded_rule_id list) result" where
  "append_step old_rule_count = (\<lambda>(offset, rule) (P, ix, ids, to_enable).
     let desired_enabled = enabled rule;
         rule = rule\<lparr>enabled := False\<rparr>;
         rule_id = old_rule_count + offset
     in res_bind (append_rule ix rule_id rule) (\<lambda>ix'.
          Inr (P\<lparr>rules := rules P @ [rule]\<rparr>, ix', ids @ [rule_id],
               if desired_enabled then to_enable @ [rule_id] else to_enable)))"

definition resize_certificate :: "nat \<Rightarrow> grounded_certificate \<Rightarrow> grounded_certificate" where
  "resize_certificate n c = \<lparr>live = resize n False (live c), rank = resize n None (rank c), witness = resize n None (witness c)\<rparr>"

definition patch_update :: "grounded_structural_patch \<Rightarrow> grounded_rule_id list \<Rightarrow> grounded_update" where
  "patch_update p to_enable =
     \<lparr>add_seeds = patch_add_seeds p, remove_seeds = patch_remove_seeds p,
      enable_rules = patch_enable_rules p @ to_enable, disable_rules = patch_disable_rules p\<rparr>"

definition apply_structural_patch_indexed_impl :: "bool \<Rightarrow> grounded_program \<Rightarrow> grounded_incidence_index \<Rightarrow> grounded_certificate
    \<Rightarrow> grounded_structural_patch
    \<Rightarrow> (fault, (grounded_program \<times> grounded_incidence_index) \<times> grounded_certificate \<times> grounded_work_stats \<times> grounded_rule_id list) result" where
  "apply_structural_patch_indexed_impl verify P ix old p =
     res_bind (if verify then check P old else Inr ()) (\<lambda>_.
     res_bind (ok_or (checked_add (atom_count P) (append_atoms p)) (Raise StructuralUniverseOverflow)) (\<lambda>n.
     res_bind (validate_patch n (length (rules P)) p) (\<lambda>_.
     res_bind (seeds_resize_atoms (seeds P) n) (\<lambda>s.
     res_bind (for_fold (append_step (length (rules P))) (enumerate 0 (append_rules p))
        (P\<lparr>atom_count := n, seeds := s\<rparr>, incidence_resize_atoms ix n, [], [])) (\<lambda>(P1, ix1, ids, to_enable).
     let u = patch_update p to_enable in
     res_bind (validate_update P1 u) (\<lambda>_.
     res_bind (apply_update_indexed_validated P1 ix1 (resize_certificate n old) u) (\<lambda>(P2, c, stats).
     res_bind (if verify then check P2 c else Inr ()) (\<lambda>_. Inr ((P2, ix1), c, stats, ids)))))))))"

definition apply_structural_patch_indexed :: "grounded_program \<Rightarrow> grounded_incidence_index \<Rightarrow> grounded_certificate
    \<Rightarrow> grounded_structural_patch
    \<Rightarrow> (fault, (grounded_program \<times> grounded_incidence_index) \<times> grounded_certificate \<times> grounded_work_stats \<times> grounded_rule_id list) result" where
  "apply_structural_patch_indexed P ix old p = apply_structural_patch_indexed_impl True P ix old p"

definition apply_structural_patch_maintained :: "grounded_maintenance \<Rightarrow> grounded_structural_patch
    \<Rightarrow> (fault, grounded_maintenance \<times> grounded_work_stats \<times> grounded_rule_id list) result" where
  "apply_structural_patch_maintained m p =
     (let P = m_program m in
      res_bind (ok_or (checked_add (atom_count P) (append_atoms p)) (Raise StructuralUniverseOverflow)) (\<lambda>n.
      res_bind (validate_patch n (length (rules P)) p) (\<lambda>_.
      res_bind (seeds_resize_atoms (seeds P) n) (\<lambda>s.
      res_bind (for_fold (append_step (length (rules P))) (enumerate 0 (append_rules p))
         (P\<lparr>atom_count := n, seeds := s\<rparr>, incidence_resize_atoms (m_index m) n, [], [])) (\<lambda>(P1, ix1, ids, to_enable).
      let u = patch_update p to_enable in
      res_bind (validate_update P1 u) (\<lambda>_.
      res_bind (apply_update_maintained_validated P1 ix1 (resize_certificate n (m_certificate m))
          (witness_resize_atoms (m_witness_index m) n) u) (\<lambda>(P2, c, wx, stats).
        Inr (\<lparr>m_program = P2, m_index = ix1, m_certificate = c, m_witness_index = wx\<rparr>, stats, ids))))))))"

section \<open>Maintained programs\<close>

definition maintenance_new :: "grounded_program \<Rightarrow> (fault, grounded_maintenance) result" where
  "maintenance_new P =
     res_bind (validate P) (\<lambda>_.
     res_bind (incidence_compile P) (\<lambda>ix.
     res_bind (solve_indexed P ix) (\<lambda>(c, _).
     res_bind (witness_compile P c) (\<lambda>wx.
       Inr \<lparr>m_program = P, m_index = ix, m_certificate = c, m_witness_index = wx\<rparr>))))"

definition maintenance_apply_update :: "grounded_maintenance \<Rightarrow> grounded_update
    \<Rightarrow> (fault, grounded_maintenance \<times> grounded_work_stats) result" where
  "maintenance_apply_update m u =
     res_bind (validate_update (m_program m) u) (\<lambda>_.
     res_bind (apply_update_maintained_validated (m_program m) (m_index m) (m_certificate m) (m_witness_index m) u)
       (\<lambda>(P, c, wx, stats). Inr (m\<lparr>m_program := P, m_certificate := c, m_witness_index := wx\<rparr>, stats)))"

section \<open>Reconciliation with a changed program\<close>

text \<open>
  \<open>correlate_rules\<close>: equal rules in the same slot are matched first, the remaining ones by value in
  order of occurrence. The queue of unmatched new rules of a value is the list of their identifiers.
\<close>

definition correlate_slots :: "grounded_rule list \<Rightarrow> grounded_rule list \<Rightarrow> grounded_rule_id option list \<times> bool list" where
  "correlate_slots old new =
     (map (\<lambda>i. if i < length new \<and> old ! i = new ! i then Some i else None) [0..<length old],
      map (\<lambda>i. i < length old \<and> old ! i = new ! i) [0..<length new])"

fun take_first :: "('a \<Rightarrow> bool) \<Rightarrow> 'a list \<Rightarrow> ('a \<times> 'a list) option" where
  "take_first f [] = None"
| "take_first f (x # xs) = (if f x then Some (x, xs) else map_option (\<lambda>(y, ys). (y, x # ys)) (take_first f xs))"

definition correlate_step :: "grounded_rule list \<Rightarrow> nat \<times> grounded_rule
    \<Rightarrow> grounded_rule_id option list \<times> bool list \<times> (grounded_rule \<times> grounded_rule_id) list
    \<Rightarrow> grounded_rule_id option list \<times> bool list \<times> (grounded_rule \<times> grounded_rule_id) list" where
  "correlate_step new = (\<lambda>(i, rule) (old_to_new, matched, free).
     if old_to_new ! i \<noteq> None then (old_to_new, matched, free)
     else case take_first (\<lambda>(r, _). r = rule) free of
       None \<Rightarrow> (old_to_new, matched, free)
     | Some ((_, j), free') \<Rightarrow> (old_to_new[i := Some j], matched[j := True], free'))"

definition correlate_rules :: "grounded_program \<Rightarrow> grounded_program \<Rightarrow> grounded_rule_id option list \<times> bool list" where
  "correlate_rules old new =
     (let (old_to_new, matched) = correlate_slots (rules old) (rules new);
          free = filter (\<lambda>(r, j). \<not> matched ! j) (map (\<lambda>j. (rules new ! j, j)) [0..<length (rules new)])
      in case fold (correlate_step (rules new)) (enumerate 0 (rules old)) (old_to_new, matched, free) of
           (old_to_new, matched, _) \<Rightarrow> (old_to_new, matched))"

definition remap_atom :: "grounded_program \<Rightarrow> grounded_certificate \<Rightarrow> grounded_rule_id option list \<Rightarrow> grounded_atom_id
    \<Rightarrow> grounded_certificate \<times> grounded_atom_id btree_set
    \<Rightarrow> (fault, grounded_certificate \<times> grounded_atom_id btree_set) result" where
  "remap_atom new old old_to_new atom = (\<lambda>(c, direct).
     if \<not> is_live old atom then Inr (c, direct)
     else case witness_at old atom of
       Some Seed \<Rightarrow>
         (if seeds_contains (seeds new) atom then Inr (c, direct)
          else res_bind (put (witness c) atom None) (\<lambda>w. Inr (c\<lparr>witness := w\<rparr>, bs_insert atom direct)))
     | Some (Rule r) \<Rightarrow>
         res_bind (idx old_to_new r) (\<lambda>m.
         case m of
           Some r' \<Rightarrow> res_bind (put (witness c) atom (Some (Rule r'))) (\<lambda>w. Inr (c\<lparr>witness := w\<rparr>, direct))
         | None \<Rightarrow> res_bind (put (witness c) atom None) (\<lambda>w. Inr (c\<lparr>witness := w\<rparr>, bs_insert atom direct)))
     | None \<Rightarrow> Inl (Raise (LiveAtomMissingWitness atom)))"

definition reconcile_structural_change :: "grounded_program \<Rightarrow> grounded_program \<Rightarrow> grounded_certificate
    \<Rightarrow> (fault, grounded_certificate \<times> grounded_work_stats) result" where
  "reconcile_structural_change old_program new_program old =
     res_bind (validate old_program) (\<lambda>_.
     res_bind (validate new_program) (\<lambda>_.
     res_bind (check old_program old) (\<lambda>_.
     if atom_count new_program < atom_count old_program
     then Inl (Raise (StructuralUniverseShrank (atom_count old_program) (atom_count new_program)))
     else
       let (old_to_new, matched) = correlate_rules old_program new_program in
       res_bind (for_fold (remap_atom new_program old old_to_new) [0..<atom_count old_program]
           (resize_certificate (atom_count new_program) old, [])) (\<lambda>(c, direct).
       res_bind (incidence_compile new_program) (\<lambda>ix.
       res_bind (witness_compile new_program c) (\<lambda>wx.
       res_bind (if direct = [] then Inr (c, wx, stats_default)
                 else local_recompute_after_deletion_sparse_indexed new_program ix c wx direct) (\<lambda>(c1, wx1, stats).
       let u = \<lparr>add_seeds = seeds_difference (seeds new_program) (seeds old_program), remove_seeds = [],
                enable_rules = filter (\<lambda>i. enabled (rules new_program ! i) \<and> \<not> matched ! i) [0..<length (rules new_program)],
                disable_rules = []\<rparr> in
       res_bind (incremental_insertions_with_witness_index new_program ix u c1 wx1 stats) (\<lambda>(c2, _, stats2).
       res_bind (check new_program c2) (\<lambda>_. Inr (c2, stats2))))))))))"

end
