(* ===== verification/Grounded_Insertion.thy ===== *)
theory Grounded_Insertion
  imports Grounded_Solver_Correct Grounded_Maintenance
begin

text \<open>
  The insertion phase of the maintenance: the worklist returns and closes the certificate under the program,
  the loops that edit seeds and rules do what the update asks for, and an update that invalidates no
  recorded proof keeps the certificate exact, with its tight ranks.
\<close>

section \<open>The insertion phase\<close>

lemma modify_all_ok:
  "\<forall>a \<in> set as. a < length cs \<Longrightarrow> \<exists>cs'. for_fold (\<lambda>a cs. modify cs a f) as cs = Inr cs' \<and> length cs' = length cs"
proof (induction as arbitrary: cs)
  case (Cons a as)
  then show ?case using Cons.IH [of "cs[a := f (cs ! a)]"] by simp
qed simp

lemma install_ok:
  assumes "wf_program P" "length (children wx) = atom_count P" "shaped P c" "\<And>i. witness_at c a = Some (Rule i) \<Longrightarrow> i < length (rules P)"
  shows "\<exists>wx'. install_from_certificate wx P c a = Inr wx' \<and> length (children wx') = atom_count P"
proof (cases "witness_at c a")
  case (Some w)
  show ?thesis
  proof (cases w)
    case (Rule i)
    then have "i < length (rules P)" using assms(4) Some by simp
    then show ?thesis
      using modify_all_ok [of "body (rules P ! i)" "children wx" "bs_insert a"] wf_program_rule(2) [OF assms(1)] assms(2) Some Rule
      by (fastforce simp: install_from_certificate_def)
  qed (use assms Some in \<open>simp add: install_from_certificate_def\<close>)
qed (use assms in \<open>simp add: install_from_certificate_def\<close>)

lemma rank_at_nth: "shaped P c \<Longrightarrow> p < atom_count P \<Longrightarrow> rank_at c p = rank c ! p"
  by (simp add: rank_at_def shaped_def)

lemma witness_at_nth: "shaped P c \<Longrightarrow> p < atom_count P \<Longrightarrow> witness_at c p = witness c ! p"
  by (simp add: witness_at_def shaped_def)

lemma is_live_nth: "shaped P c \<Longrightarrow> p < atom_count P \<Longrightarrow> is_live c p = live c ! p"
  by (simp add: is_live_iff)

lemma derive_from_rule_ok:
  assumes wf: "wf_program P" and sh: "shaped P c" and wx: "length (children wx) = atom_count P"
    and i: "i < length (rules P)" and dead: "\<not> live c ! head (rules P ! i)"
  shows "\<exists>wx'. derive_from_rule_with_witness_index P i (c, wx, q) = Inr (derive P c i, wx', q @ [head (rules P ! i)])
    \<and> length (children wx') = atom_count P"
proof -
  let ?r = "rules P ! i"
  note r = wf_program_rule [OF wf i]
  have ranks: "map (rank_at c) (body ?r) = premise_ranks P c i"
    unfolding premise_ranks_def using rank_at_nth [OF sh] r(2) by (intro map_cong) auto
  have len: "length (live c) = atom_count P" "length (rank c) = atom_count P" "length (witness c) = atom_count P"
    using sh by (simp_all add: shaped_def)
  have eq: "\<lparr>live = (live c)[head ?r := True], rank = (rank c)[head ?r := Some (next_rank (premise_ranks P c i))],
      witness = (witness c)[head ?r := Some (Rule i)]\<rparr> = derive P c i" by (simp add: derive_def)
  have "witness_at (derive P c i) (head ?r) = Some (Rule i)"
    using r(1) len by (simp add: witness_at_def derive_def)
  then obtain wx' where "install_from_certificate wx P (derive P c i) (head ?r) = Inr wx'" "length (children wx') = atom_count P"
    using install_ok [OF wf wx, of "derive P c i" "head ?r"] sh i by auto
  then show ?thesis
    using i r(1) len dead is_live_nth [OF sh r(1)] ranks
    by (auto simp: derive_from_rule_with_witness_index_def Let_def eq)
qed

text \<open>While the worklist runs, a rule may be violated only if it waits for an atom that is still queued.\<close>

definition insert_inv :: "grounded_program \<Rightarrow> grounded_certificate \<Rightarrow> (grounded_rule_id \<Rightarrow> bool) \<Rightarrow> grounded_certificate
    \<Rightarrow> grounded_witness_index \<Rightarrow> grounded_atom_id list \<Rightarrow> bool" where
  "insert_inv P c0 todo c wx q \<longleftrightarrow> shaped P c \<and> derives P c0 c \<and> length (children wx) = atom_count P
     \<and> (\<forall>p \<in> set q. p < atom_count P \<and> live c ! p)
     \<and> (\<forall>i < length (rules P). enabled (rules P ! i) \<longrightarrow> (\<forall>p \<in> set (body (rules P ! i)). live c ! p) \<longrightarrow>
          live c ! head (rules P ! i) \<or> todo i \<or> (\<exists>p \<in> set (body (rules P ! i)). p \<in> set q))"

abbreviation dead_count :: "grounded_certificate \<Rightarrow> nat" where
  "dead_count c \<equiv> length (filter Not (live c))"

lemma dead_count_derive:
  "shaped P c \<Longrightarrow> wf_program P \<Longrightarrow> i < length (rules P) \<Longrightarrow> \<not> live c ! head (rules P ! i) \<Longrightarrow>
    Suc (dead_count (derive P c i)) = dead_count c"
  using count_dead_set [of "head (rules P ! i)" "live c"] wf_program_rule(1) [of P i] by (simp add: derive_def shaped_def)

lemma insert_visit_ok:
  assumes wf: "wf_program P" and inv: "insert_inv P c0 todo c wx q" and i: "i < length (rules P)"
  shows "\<exists>c' wx' q' stats'. insert_visit P counted i ((c, wx, q), stats) = Inr ((c', wx', q'), stats')
    \<and> insert_inv P c0 (\<lambda>j. todo j \<and> j \<noteq> i) c' wx' q' \<and> length q' + dead_count c' = length q + dead_count c"
proof -
  let ?r = "rules P ! i"
  note r = wf_program_rule [OF wf i]
  have sh: "shaped P c" and wx: "length (children wx) = atom_count P" using inv by (auto simp: insert_inv_def)
  have head: "is_live c (head ?r) = live c ! head ?r" by (rule is_live_nth [OF sh r(1)])
  have all: "list_all (is_live c) (body ?r) \<longleftrightarrow> (\<forall>p \<in> set (body ?r). live c ! p)"
    using is_live_nth [OF sh] r(2) by (auto simp: list_all_iff)
  show ?thesis
  proof (cases "enabled ?r \<and> \<not> live c ! head ?r \<and> (\<forall>p \<in> set (body ?r). live c ! p)")
    case True
    obtain wx' where d: "derive_from_rule_with_witness_index P i (c, wx, q) = Inr (derive P c i, wx', q @ [head ?r])"
      "length (children wx') = atom_count P"
      using derive_from_rule_ok [OF wf sh wx i] True by blast
    have live: "live (derive P c i) ! a = (a = head ?r \<or> live c ! a)" for a by (rule derive_live [OF sh wf i])
    have "derives P c0 (derive P c i)"
      using inv True i by (intro derives_step) (auto simp: insert_inv_def)
    then have "insert_inv P c0 (\<lambda>j. todo j \<and> j \<noteq> i) (derive P c i) wx' (q @ [head ?r])"
      using inv d(2) r(1) unfolding insert_inv_def live by (auto simp: live)
    moreover have "\<exists>stats'. insert_visit P counted i ((c, wx, q), stats) = Inr ((derive P c i, wx', q @ [head ?r]), stats')"
      using True i head all d(1) by (simp add: insert_visit_def Let_def)
    ultimately show ?thesis using dead_count_derive [OF sh wf i] True by fastforce
  next
    case False
    have "insert_inv P c0 (\<lambda>j. todo j \<and> j \<noteq> i) c wx q"
      using inv False unfolding insert_inv_def by blast
    moreover have "\<exists>stats'. insert_visit P counted i ((c, wx, q), stats) = Inr ((c, wx, q), stats')"
      using False i head all by (auto simp: insert_visit_def Let_def)
    ultimately show ?thesis by blast
  qed
qed

lemma insert_visits_ok:
  assumes wf: "wf_program P" and inv: "insert_inv P c0 todo c wx q" and range: "\<forall>i \<in> set rs. i < length (rules P)"
  shows "\<exists>c' wx' q' stats'. for_fold (insert_visit P counted) rs ((c, wx, q), stats) = Inr ((c', wx', q'), stats')
    \<and> insert_inv P c0 (\<lambda>j. todo j \<and> j \<notin> set rs) c' wx' q' \<and> length q' + dead_count c' = length q + dead_count c"
  using inv range
proof (induction rs arbitrary: todo c wx q stats)
  case (Cons i rs)
  from insert_visit_ok [OF wf Cons.prems(1), of i counted stats] Cons.prems(2) obtain c1 wx1 q1 st1 where
    1: "insert_visit P counted i ((c, wx, q), stats) = Inr ((c1, wx1, q1), st1)"
    "insert_inv P c0 (\<lambda>j. todo j \<and> j \<noteq> i) c1 wx1 q1" "length q1 + dead_count c1 = length q + dead_count c" by auto
  from Cons.IH [OF 1(2), of st1] Cons.prems(2) obtain c' wx' q' stats' where
    "for_fold (insert_visit P counted) rs ((c1, wx1, q1), st1) = Inr ((c', wx', q'), stats')"
    "insert_inv P c0 (\<lambda>j. (todo j \<and> j \<noteq> i) \<and> j \<notin> set rs) c' wx' q'" "length q' + dead_count c' = length q1 + dead_count c1" by auto
  then show ?case using 1 by (auto simp: conj_assoc)
qed auto

lemma insert_loop_ok:
  assumes wf: "wf_program P" and ix: "index_of P ix"
  shows "insert_inv P c0 (\<lambda>_. False) c wx q \<Longrightarrow>
    \<exists>c' wx' stats'. insert_loop P ix ((c, wx, q), stats) = Some (Inr ((c', wx', []), stats')) \<and> insert_inv P c0 (\<lambda>_. False) c' wx' []"
proof (induction "length q + dead_count c" arbitrary: c wx q stats rule: less_induct)
  case less
  show ?case
  proof (cases q)
    case Nil
    then show ?thesis using less.prems by (subst insert_loop.simps) auto
  next
    case (Cons a q0)
    let ?ds = "filter (\<lambda>i. a \<in> set (body (rules P ! i))) [0..<length (rules P)]"
    have a: "a < atom_count P" using less.prems Cons by (auto simp: insert_inv_def)
    have ds: "idx (dependents ix) a = Inr ?ds" using ix a by (simp add: index_of_def)
    have "insert_inv P c0 (\<lambda>j. j \<in> set ?ds) c wx q0" using less.prems Cons by (auto simp: insert_inv_def)
    from insert_visits_ok [OF wf this, of ?ds True stats] obtain c1 wx1 q1 st1 where
      1: "for_fold (insert_visit P True) ?ds ((c, wx, q0), stats) = Inr ((c1, wx1, q1), st1)"
      "insert_inv P c0 (\<lambda>j. j \<in> set ?ds \<and> j \<notin> set ?ds) c1 wx1 q1" "length q1 + dead_count c1 = length q0 + dead_count c" by auto
    have "insert_loop P ix ((c, wx, q), stats) = insert_loop P ix ((c1, wx1, q1), st1)"
      using Cons ds 1(1) by (subst insert_loop.simps) simp
    moreover have "insert_inv P c0 (\<lambda>_. False) c1 wx1 q1" using 1(2) by (auto simp: insert_inv_def)
    ultimately show ?thesis using less.hyps [of q1 c1 wx1 st1] 1(3) Cons by simp
  qed
qed

text \<open>A new seed becomes live with rank 0.\<close>

definition plant :: "grounded_atom_id \<Rightarrow> grounded_certificate \<Rightarrow> grounded_certificate" where
  "plant a c = (if live c ! a then c
     else c\<lparr>live := (live c)[a := True], rank := (rank c)[a := Some 0], witness := (witness c)[a := Some Seed]\<rparr>)"

lemma plant_shaped [simp]: "shaped P (plant a c) \<longleftrightarrow> shaped P c"
  by (simp add: plant_def shaped_def)

lemma plant_live: "shaped P c \<Longrightarrow> a < atom_count P \<Longrightarrow> live (plant a c) ! b \<longleftrightarrow> b = a \<or> live c ! b"
  by (auto simp: plant_def shaped_def nth_list_update)

lemma fold_plant:
  "shaped P c \<Longrightarrow> \<forall>a \<in> set as. a < atom_count P \<Longrightarrow>
    shaped P (fold plant as c) \<and> (\<forall>b. live (fold plant as c) ! b \<longleftrightarrow> b \<in> set as \<or> live c ! b)"
  by (induction as arbitrary: c) (auto simp: plant_live)

lemma insert_seeds_ok:
  assumes "shaped P c" "\<forall>a \<in> set as. a < atom_count P" "\<forall>p \<in> set q. p < atom_count P \<and> live c ! p"
  shows "\<exists>q'. for_fold insert_seed as (c, q) = Inr (fold plant as c, q')
    \<and> (\<forall>p \<in> set q'. p < atom_count P \<and> live (fold plant as c) ! p)
    \<and> (\<forall>p. live (fold plant as c) ! p \<longrightarrow> live c ! p \<or> p \<in> set q') \<and> set q \<subseteq> set q'"
  using assms
proof (induction as arbitrary: c q)
  case (Cons a as)
  have a: "a < atom_count P" and sh: "shaped P c" using Cons.prems by auto
  let ?q = "if live c ! a then q else q @ [a]"
  have step: "insert_seed a (c, q) = Inr (plant a c, ?q)"
    using a sh is_live_nth [OF sh a] by (auto simp: insert_seed_def plant_def shaped_def)
  have "\<forall>p \<in> set ?q. p < atom_count P \<and> live (plant a c) ! p"
    using Cons.prems(3) a plant_live [OF sh a] by auto
  from Cons.IH [OF _ _ this] Cons.prems obtain q' where
    "for_fold insert_seed as (plant a c, ?q) = Inr (fold plant as (plant a c), q')"
    "\<forall>p \<in> set q'. p < atom_count P \<and> live (fold plant as (plant a c)) ! p"
    "\<forall>p. live (fold plant as (plant a c)) ! p \<longrightarrow> live (plant a c) ! p \<or> p \<in> set q'" "set ?q \<subseteq> set q'"
    by auto
  then show ?case using step plant_live [OF sh a] by (fastforce split: if_splits)
qed auto

lemma insertions_ok:
  assumes wf: "wf_program P" and ix: "index_of P ix" and sh: "shaped P c" and wx: "length (children wx) = atom_count P"
    and u: "\<forall>a \<in> set (add_seeds u). a < atom_count P" "\<forall>i \<in> set (enable_rules u). i < length (rules P)"
    and old: "\<And>i. i < length (rules P) \<Longrightarrow> enabled (rules P ! i) \<Longrightarrow> i \<notin> set (enable_rules u) \<Longrightarrow>
      \<forall>p \<in> set (body (rules P ! i)). live c ! p \<Longrightarrow> live c ! head (rules P ! i)"
  shows "\<exists>c' wx' stats'. incremental_insertions_with_witness_index P ix u c wx stats = Inr (c', wx', stats')
    \<and> derives P (fold plant (add_seeds u) c) c' \<and> shaped P c' \<and> length (children wx') = atom_count P
    \<and> (\<forall>i < length (rules P). enabled (rules P ! i) \<longrightarrow> (\<forall>p \<in> set (body (rules P ! i)). live c' ! p) \<longrightarrow> live c' ! head (rules P ! i))"
proof -
  let ?c = "fold plant (add_seeds u) c"
  obtain q where q: "for_fold insert_seed (add_seeds u) (c, []) = Inr (?c, q)"
    "\<forall>p \<in> set q. p < atom_count P \<and> live ?c ! p" "\<forall>p. live ?c ! p \<longrightarrow> live c ! p \<or> p \<in> set q"
    using insert_seeds_ok [OF sh u(1), of "[]"] by auto
  have live: "live ?c ! b \<longleftrightarrow> b \<in> set (add_seeds u) \<or> live c ! b" and shc: "shaped P ?c" for b
    using fold_plant [OF sh u(1)] by auto
  have "insert_inv P ?c (\<lambda>i. i \<in> set (enable_rules u)) ?c wx q"
    unfolding insert_inv_def
  proof (intro conjI allI impI)
    fix i assume i: "i < length (rules P)" "enabled (rules P ! i)" "\<forall>p \<in> set (body (rules P ! i)). live ?c ! p"
    show "live ?c ! head (rules P ! i) \<or> i \<in> set (enable_rules u) \<or> (\<exists>p \<in> set (body (rules P ! i)). p \<in> set q)"
    proof (cases "\<forall>p \<in> set (body (rules P ! i)). live c ! p")
      case True
      then show ?thesis using old [OF i(1,2)] live by blast
    next
      case False
      then show ?thesis using i(3) q(3) by blast
    qed
  qed (use shc wx q(2) derives_refl in auto)
  from insert_visits_ok [OF wf this u(2), of False stats] obtain c1 wx1 q1 st1 where
    1: "for_fold (insert_visit P False) (enable_rules u) ((?c, wx, q), stats) = Inr ((c1, wx1, q1), st1)"
    "insert_inv P ?c (\<lambda>i. i \<in> set (enable_rules u) \<and> i \<notin> set (enable_rules u)) c1 wx1 q1" by auto
  from 1(2) have "insert_inv P ?c (\<lambda>_. False) c1 wx1 q1" by simp
  from insert_loop_ok [OF wf ix this, of st1] obtain c2 wx2 st2 where
    2: "insert_loop P ix ((c1, wx1, q1), st1) = Some (Inr ((c2, wx2, []), st2))" "insert_inv P ?c (\<lambda>_. False) c2 wx2 []" by blast
  have "incremental_insertions_with_witness_index P ix u c wx stats = Inr (c2, wx2, st2)"
    using q(1) 1(1) 2(1) by (simp add: incremental_insertions_with_witness_index_def returned_def)
  then show ?thesis using 2(2) by (auto simp: insert_inv_def)
qed

section \<open>Changing seeds and rules\<close>

text \<open>Two programs with the same atoms and rules, up to seeds and enabling.\<close>

definition same_rules :: "grounded_program \<Rightarrow> grounded_program \<Rightarrow> bool" where
  "same_rules P Q \<longleftrightarrow> atom_count Q = atom_count P \<and> length (rules Q) = length (rules P)
     \<and> (\<forall>i < length (rules P). body (rules Q ! i) = body (rules P ! i) \<and> head (rules Q ! i) = head (rules P ! i))"

abbreviation seed_atoms :: "grounded_program \<Rightarrow> grounded_atom_id set" where
  "seed_atoms P \<equiv> set (seeds_iter (seeds P))"

lemma same_rules_refl [simp]: "same_rules P P"
  by (simp add: same_rules_def)

lemma same_rules_trans: "same_rules P Q \<Longrightarrow> same_rules Q R \<Longrightarrow> same_rules P R"
  by (simp add: same_rules_def)

lemma same_rules_index: "same_rules P Q \<Longrightarrow> index_of P ix \<Longrightarrow> index_of Q ix"
  by (auto simp: same_rules_def index_of_def intro!: filter_cong)

lemma same_rules_shaped: "same_rules P Q \<Longrightarrow> shaped Q c \<longleftrightarrow> shaped P c"
  by (simp add: same_rules_def shaped_def)

text \<open>The effect of the loops of an update on a program: what the program was, what it is after.\<close>

definition changed :: "grounded_program \<Rightarrow> grounded_program \<Rightarrow> grounded_atom_id set \<Rightarrow> (grounded_rule_id \<Rightarrow> bool) \<Rightarrow> bool" where
  "changed P Q S E \<longleftrightarrow> wf_program Q \<and> same_rules P Q \<and> seed_atoms Q = S
     \<and> (\<forall>i < length (rules P). enabled (rules Q ! i) = E i)"

lemma set_enabled_ok:
  assumes "changed P Q S E" "i < length (rules P)"
  shows "\<exists>Q'. set_enabled b i Q = Inr Q' \<and> changed P Q' S (E(i := b))"
proof -
  have i: "i < length (rules Q)" using assms by (simp add: changed_def same_rules_def)
  let ?Q = "Q\<lparr>rules := (rules Q)[i := (rules Q ! i)\<lparr>enabled := b\<rparr>]\<rparr>"
  have "wf_rule (atom_count Q) ((rules Q ! i)\<lparr>enabled := b\<rparr>)"
    using assms(1) i by (auto simp: changed_def wf_program_def wf_rule_def)
  then have "wf_program ?Q"
    using assms(1) by (auto simp: changed_def wf_program_def dest: set_update_subset_insert [THEN subsetD])
  then have "changed P ?Q S (E(i := b))"
    using assms i by (auto simp: changed_def same_rules_def nth_list_update)
  then show ?thesis using i by (simp add: set_enabled_def)
qed

lemma members_update:
  assumes "a < length (members s)" "members s' = (members s)[a := b]"
  shows "set (seeds_iter s') = (if b then insert a (set (seeds_iter s)) else set (seeds_iter s) - {a})"
  using assms by (auto simp: set_seeds_iter nth_list_update)

lemma changed_seeds:
  assumes "changed P Q S E" "wf_seeds s" "length (members s) = atom_count P" "set (seeds_iter s) = T"
  shows "changed P (Q\<lparr>seeds := s\<rparr>) T E"
  using assms by (auto simp: changed_def wf_program_def same_rules_def)

lemma changed_members: "changed P Q S E \<Longrightarrow> wf_seeds (seeds Q) \<and> length (members (seeds Q)) = atom_count P"
  by (simp add: changed_def wf_program_def same_rules_def)

lemma add_seed_ok:
  assumes "changed P Q S E" "a < atom_count P"
  shows "\<exists>Q'. add_seed a Q = Inr Q' \<and> changed P Q' (insert a S) E"
proof -
  obtain s where "seeds_insert (seeds Q) a = Inr (s, \<not> members (seeds Q) ! a)" "wf_seeds s" "members s = (members (seeds Q))[a := True]"
    using seeds_insert_ok [of "seeds Q" a] changed_members [OF assms(1)] assms(2) by auto
  moreover have "seed_atoms Q = S" using assms(1) by (simp add: changed_def)
  ultimately show ?thesis
    using changed_seeds [OF assms(1), of s "insert a S"] members_update [of a "seeds Q" s True] changed_members [OF assms(1)] assms(2)
    by (auto simp: add_seed_def)
qed

lemma add_seeds_ok:
  "changed P Q S E \<Longrightarrow> \<forall>a \<in> set as. a < atom_count P \<Longrightarrow> \<exists>Q'. for_fold add_seed as Q = Inr Q' \<and> changed P Q' (S \<union> set as) E"
proof (induction as arbitrary: Q S)
  case (Cons a as)
  obtain Q1 where Q1: "add_seed a Q = Inr Q1" "changed P Q1 (insert a S) E"
    using add_seed_ok [OF Cons.prems(1), of a] Cons.prems(2) by auto
  then show ?case using Cons.IH [OF Q1(2)] Cons.prems(2) by auto
qed auto

lemma enable_rules_ok:
  "changed P Q S E \<Longrightarrow> \<forall>i \<in> set rs. i < length (rules P) \<Longrightarrow>
    \<exists>Q'. for_fold (set_enabled True) rs Q = Inr Q' \<and> changed P Q' S (\<lambda>i. E i \<or> i \<in> set rs)"
proof (induction rs arbitrary: Q E)
  case (Cons i rs)
  obtain Q1 where Q1: "set_enabled True i Q = Inr Q1" "changed P Q1 S (E(i := True))"
    using set_enabled_ok [OF Cons.prems(1), of i True] Cons.prems(2) by auto
  have "(\<lambda>j. (E(i := True)) j \<or> j \<in> set rs) = (\<lambda>j. E j \<or> j \<in> set (i # rs))" by auto
  then show ?case using Q1(1) Cons.IH [OF Q1(2)] Cons.prems(2) by simp
qed simp

section \<open>Invalidated atoms\<close>

lemma invalidate_seeds_ok:
  "changed P Q S E \<Longrightarrow> \<forall>a \<in> set as. a < atom_count P \<Longrightarrow> bs_wf direct \<Longrightarrow>
    \<exists>Q' direct'. for_fold (invalidate_seed c) as (Q, direct) = Inr (Q', direct') \<and> changed P Q' (S - set as) E \<and> bs_wf direct'
      \<and> set direct' = set direct \<union> {a \<in> set as. is_live c a \<and> witness_at c a = Some Seed}"
proof (induction as arbitrary: Q S direct)
  case (Cons a as)
  let ?d = "if is_live c a \<and> witness_at c a = Some Seed then bs_insert a direct else direct"
  obtain s where s: "seeds_remove (seeds Q) a = Inr (s, members (seeds Q) ! a)" "wf_seeds s" "members s = (members (seeds Q))[a := False]"
    using seeds_remove_ok [of "seeds Q" a] changed_members [OF Cons.prems(1)] Cons.prems(2) by auto
  moreover have "seed_atoms Q = S" using Cons.prems(1) by (simp add: changed_def)
  ultimately have ch: "changed P (Q\<lparr>seeds := s\<rparr>) (S - {a}) E"
    using changed_seeds [OF Cons.prems(1), of s "S - {a}"] members_update [of a "seeds Q" s False] changed_members [OF Cons.prems(1)] Cons.prems(2)
    by auto
  have dwf: "bs_wf ?d" using Cons.prems(3) by (simp add: bs_wf_insert)
  have "\<forall>b \<in> set as. b < atom_count P" using Cons.prems(2) by simp
  from Cons.IH [OF ch this dwf] obtain Q' d' where
    r: "for_fold (invalidate_seed c) as (Q\<lparr>seeds := s\<rparr>, ?d) = Inr (Q', d')" "changed P Q' (S - {a} - set as) E" "bs_wf d'"
    "set d' = set ?d \<union> {a \<in> set as. is_live c a \<and> witness_at c a = Some Seed}" by blast
  have "invalidate_seed c a (Q, direct) = Inr (Q\<lparr>seeds := s\<rparr>, ?d)" using s(1) by (simp add: invalidate_seed_def)
  then have "for_fold (invalidate_seed c) (a # as) (Q, direct) = Inr (Q', d')" using r(1) by simp
  moreover have "S - {a} - set as = S - set (a # as)" by auto
  moreover have "set d' = set direct \<union> {b \<in> set (a # as). is_live c b \<and> witness_at c b = Some Seed}" unfolding r(4) by auto
  ultimately show ?case using r(2,3) by metis
qed auto

lemma invalidate_rules_ok:
  "changed P Q S E \<Longrightarrow> \<forall>i \<in> set rs. i < length (rules P) \<Longrightarrow> bs_wf direct \<Longrightarrow>
    \<exists>Q' direct'. for_fold (invalidate_rule c) rs (Q, direct) = Inr (Q', direct') \<and> changed P Q' S (\<lambda>i. E i \<and> i \<notin> set rs) \<and> bs_wf direct'
      \<and> set direct' = set direct \<union> {head (rules P ! i) | i. i \<in> set rs \<and> E i \<and> is_live c (head (rules P ! i))
          \<and> witness_at c (head (rules P ! i)) = Some (Rule i)}"
proof (induction rs arbitrary: Q E direct)
  case (Cons i rs)
  let ?h = "head (rules P ! i)"
  let ?d = "if E i \<and> is_live c ?h \<and> witness_at c ?h = Some (Rule i) then bs_insert ?h direct else direct"
  have i: "i < length (rules Q)" "enabled (rules Q ! i) = E i" "head (rules Q ! i) = ?h"
    using Cons.prems by (auto simp: changed_def same_rules_def)
  obtain Q1 where Q1: "set_enabled False i Q = Inr Q1" "changed P Q1 S (E(i := False))"
    using set_enabled_ok [OF Cons.prems(1), of i False] Cons.prems(2) by auto
  have dwf: "bs_wf ?d" using Cons.prems(3) by (simp add: bs_wf_insert)
  have "\<forall>j \<in> set rs. j < length (rules P)" using Cons.prems(2) by simp
  from Cons.IH [OF Q1(2) this dwf] obtain Q' d' where
    r: "for_fold (invalidate_rule c) rs (Q1, ?d) = Inr (Q', d')" "changed P Q' S (\<lambda>j. (E(i := False)) j \<and> j \<notin> set rs)" "bs_wf d'"
    "set d' = set ?d \<union> {head (rules P ! j) | j. j \<in> set rs \<and> (E(i := False)) j \<and> is_live c (head (rules P ! j))
          \<and> witness_at c (head (rules P ! j)) = Some (Rule j)}" by blast
  have "invalidate_rule c i (Q, direct) = Inr (Q1, ?d)" using i Q1(1) by (simp add: invalidate_rule_def)
  then have "for_fold (invalidate_rule c) (i # rs) (Q, direct) = Inr (Q', d')" using r(1) by simp
  moreover have "(\<lambda>j. (E(i := False)) j \<and> j \<notin> set rs) = (\<lambda>j. E j \<and> j \<notin> set (i # rs))" by auto
  moreover have "set d' = set direct \<union> {head (rules P ! j) | j. j \<in> set (i # rs) \<and> E j \<and> is_live c (head (rules P ! j))
          \<and> witness_at c (head (rules P ! j)) = Some (Rule j)}" unfolding r(4) by (auto split: if_splits)
  ultimately show ?case using r(2,3) by metis
qed auto

definition invalidated :: "grounded_program \<Rightarrow> grounded_certificate \<Rightarrow> grounded_update \<Rightarrow> grounded_atom_id set" where
  "invalidated P c u = {a \<in> set (remove_seeds u). is_live c a \<and> witness_at c a = Some Seed}
     \<union> {head (rules P ! i) | i. i \<in> set (disable_rules u) \<and> enabled (rules P ! i) \<and> is_live c (head (rules P ! i))
          \<and> witness_at c (head (rules P ! i)) = Some (Rule i)}"

lemma changed_self: "wf_program P \<Longrightarrow> changed P P (seed_atoms P) (\<lambda>i. enabled (rules P ! i))"
  by (simp add: changed_def)

definition valid_update :: "grounded_program \<Rightarrow> grounded_update \<Rightarrow> bool" where
  "valid_update P u \<longleftrightarrow> (\<forall>a \<in> set (add_seeds u) \<union> set (remove_seeds u). a < atom_count P)
     \<and> (\<forall>i \<in> set (enable_rules u) \<union> set (disable_rules u). i < length (rules P))"

lemma validate_update_iff: "validate_update P u = Inr () \<longleftrightarrow> valid_update P u"
proof -
  have "for_each (validate_rule P) rs = Inr () \<longleftrightarrow> (\<forall>i \<in> set rs. i < length (rules P))" for rs
    by (simp add: for_each_Inr_iff validate_rule_def ensure_def)
  moreover have "validate_update P u = Inr () \<longleftrightarrow> for_each (validate_atom P) (add_seeds u @ remove_seeds u) = Inr ()
      \<and> for_each (validate_rule P) (enable_rules u @ disable_rules u) = Inr ()"
    by (cases "for_each (validate_atom P) (add_seeds u @ remove_seeds u)") (simp_all add: validate_update_def)
  ultimately show ?thesis by (simp add: validate_atoms_iff valid_update_def ball_Un)
qed

lemma invalidate_ok:
  assumes "wf_program P" "valid_update P u"
  shows "\<exists>P1 direct. invalidate_update_sources P c u = Inr (P1, direct) \<and> bs_wf direct \<and> set direct = invalidated P c u
    \<and> changed P P1 (seed_atoms P - set (remove_seeds u)) (\<lambda>i. enabled (rules P ! i) \<and> i \<notin> set (disable_rules u))"
proof -
  obtain Q1 d1 where 1: "for_fold (invalidate_seed c) (remove_seeds u) (P, []) = Inr (Q1, d1)"
    "changed P Q1 (seed_atoms P - set (remove_seeds u)) (\<lambda>i. enabled (rules P ! i))" "bs_wf d1"
    "set d1 = {a \<in> set (remove_seeds u). is_live c a \<and> witness_at c a = Some Seed}"
    using invalidate_seeds_ok [OF changed_self [OF assms(1)], of "remove_seeds u" "[]" c] assms(2)
    by (auto simp: valid_update_def)
  obtain Q2 d2 where 2: "for_fold (invalidate_rule c) (disable_rules u) (Q1, d1) = Inr (Q2, d2)"
    "changed P Q2 (seed_atoms P - set (remove_seeds u)) (\<lambda>i. enabled (rules P ! i) \<and> i \<notin> set (disable_rules u))" "bs_wf d2"
    "set d2 = set d1 \<union> {head (rules P ! i) | i. i \<in> set (disable_rules u) \<and> enabled (rules P ! i) \<and> is_live c (head (rules P ! i))
          \<and> witness_at c (head (rules P ! i)) = Some (Rule i)}"
    using invalidate_rules_ok [OF 1(2), of "disable_rules u" d1 c] 1(3) assms(2) by (auto simp: valid_update_def)
  show ?thesis using 1(1) 2 unfolding invalidated_def 1(4) [symmetric] by (auto simp: invalidate_update_sources_def)
qed

section \<open>Updates that keep every selected proof\<close>

lemma tight_changed:
  assumes wf: "wf_program P" and t: "tight P c" and ch: "changed P Q S E"
    and keep: "\<And>a. a < atom_count P \<Longrightarrow> live c ! a \<Longrightarrow> witness c ! a = Some Seed \<Longrightarrow> a \<in> S"
      "\<And>a i. a < atom_count P \<Longrightarrow> live c ! a \<Longrightarrow> witness c ! a = Some (Rule i) \<Longrightarrow> E i"
  shows "tight Q c"
proof -
  have same: "same_rules P Q" and Q: "seed_atoms Q = S" "\<And>i. i < length (rules P) \<Longrightarrow> enabled (rules Q ! i) = E i"
    using ch by (auto simp: changed_def)
  have n: "atom_count Q = atom_count P" "length (rules Q) = length (rules P)"
    "\<And>i. i < length (rules P) \<Longrightarrow> body (rules Q ! i) = body (rules P ! i) \<and> head (rules Q ! i) = head (rules P ! i)"
    using same by (auto simp: same_rules_def)
  have "proved Q c a" if "a < atom_count P" "live c ! a" "proved P c a" for a
    using that keep Q n by (auto simp: proved_def split: option.splits grounded_witness.splits)
  moreover have "next_rank (premise_ranks Q c i) = next_rank (premise_ranks P c i)" if "i < length (rules P)" for i
    using n(3) [OF that] by (simp add: premise_ranks_def)
  moreover have "i < length (rules P)" if "a < atom_count P" "witness c ! a = Some (Rule i)" for a i
  proof -
    have "live c ! a" using t that by (auto simp: tight_def sound_cert_def split: if_splits)
    then have "proved P c a" using t that by (auto simp: tight_def sound_cert_def)
    then show ?thesis using that by (auto simp: proved_def split: option.splits)
  qed
  ultimately show ?thesis
    using t n(1) unfolding tight_def sound_cert_def by (auto simp: same_rules_shaped [OF same])
qed

lemma tight_plant:
  assumes t: "tight P c" and a: "a < atom_count P" "a \<in> seed_atoms P" and wf: "wf_program P"
  shows "tight P (plant a c)"
proof (cases "live c ! a")
  case False
  let ?d = "plant a c" and ?n = "atom_count P"
  have sh: "shaped P c" and sound: "sound_cert P c" using t by (auto simp: tight_def sound_cert_def)
  have upd: "live ?d ! b = (b = a \<or> live c ! b)" "rank ?d ! b = (if b = a then Some 0 else rank c ! b)"
    "witness ?d ! b = (if b = a then Some Seed else witness c ! b)" if "b < ?n" for b
    using that a(1) sh False by (auto simp: plant_def shaped_def nth_list_update)
  have notin: "a \<notin> set (body (rules P ! i))" if "\<forall>p \<in> set (body (rules P ! i)). live c ! p" for i using that False by auto
  have pr: "proved P ?d b" if "b < ?n" "b \<noteq> a" "proved P c b" for b
    using that upd notin wf_program_rule(2) [OF wf] by (auto simp: proved_def split: option.splits grounded_witness.splits)
  have "if live ?d ! b then proved P ?d b else rank ?d ! b = None \<and> witness ?d ! b = None" if "b < ?n" for b
    using that sound pr [OF that] upd [OF that] a(2) by (cases "b = a") (auto simp: sound_cert_def proved_def)
  then have "sound_cert P ?d" using sh by (simp add: sound_cert_def)
  moreover have "rank ?d ! b = Some (next_rank (premise_ranks P ?d i))" if b: "b < ?n" "witness ?d ! b = Some (Rule i)" for b i
  proof -
    have "b \<noteq> a" "witness c ! b = Some (Rule i)" using b upd [OF b(1)] by (auto split: if_splits)
    moreover from this have "live c ! b" using sound b by (auto simp: sound_cert_def split: if_splits)
    then have "proved P c b" using sound b by (auto simp: sound_cert_def)
    then have i: "i < length (rules P)" "\<forall>p \<in> set (body (rules P ! i)). live c ! p"
      using calculation by (auto simp: proved_def split: option.splits)
    have "premise_ranks P ?d i = premise_ranks P c i"
      unfolding premise_ranks_def using notin [OF i(2)] wf_program_rule(2) [OF wf i(1)] upd(2) by (intro map_cong) auto
    ultimately show ?thesis using t b upd [OF b(1)] by (simp add: tight_def)
  qed
  ultimately show ?thesis by (simp add: tight_def)
qed (use t in \<open>simp add: plant_def\<close>)

lemma tight_fold_plant:
  "tight P c \<Longrightarrow> wf_program P \<Longrightarrow> \<forall>a \<in> set as. a < atom_count P \<and> a \<in> seed_atoms P \<Longrightarrow> tight P (fold plant as c)"
  by (induction as arbitrary: c) (simp_all add: tight_plant)

text \<open>The state of a maintained program: its index, and a certificate that proves exactly the derivable atoms.\<close>

definition exact_state :: "grounded_program \<Rightarrow> grounded_incidence_index \<Rightarrow> grounded_certificate \<Rightarrow> grounded_witness_index \<Rightarrow> bool" where
  "exact_state P ix c wx \<longleftrightarrow> wf_program P \<and> index_of P ix \<and> length (children wx) = atom_count P \<and> tight P c \<and> closed_cert P c"

text \<open>The program an update asks for.\<close>

definition updated :: "grounded_program \<Rightarrow> grounded_update \<Rightarrow> grounded_program \<Rightarrow> bool" where
  "updated P u Q \<longleftrightarrow> wf_program Q \<and> same_rules P Q
     \<and> seed_atoms Q = seed_atoms P - set (remove_seeds u) \<union> set (add_seeds u)
     \<and> (\<forall>i < length (rules P). enabled (rules Q ! i) \<longleftrightarrow>
          enabled (rules P ! i) \<and> i \<notin> set (disable_rules u) \<or> i \<in> set (enable_rules u))"

lemma update_tail_ok:
  assumes ch: "changed P P1 S E" and u: "valid_update P u" and ix: "index_of P ix" and sh: "shaped P c"
    and wx: "length (children wx) = atom_count P" and cl: "closed_cert P1 c"
  shows "\<exists>P3 c' wx' stats'. res_bind (for_fold add_seed (add_seeds u) P1) (\<lambda>P2.
        res_bind (for_fold (set_enabled True) (enable_rules u) P2) (\<lambda>P3.
        res_bind (incremental_insertions_with_witness_index P3 ix u c wx stats) (\<lambda>(c2, wx2, stats2).
          Inr (P3, c2, wx2, stats2)))) = Inr (P3, c', wx', stats')
    \<and> changed P P3 (S \<union> set (add_seeds u)) (\<lambda>i. E i \<or> i \<in> set (enable_rules u))
    \<and> derives P3 (fold plant (add_seeds u) c) c' \<and> length (children wx') = atom_count P \<and> closed_cert P3 c'"
proof -
  obtain P2 where P2: "for_fold add_seed (add_seeds u) P1 = Inr P2" "changed P P2 (S \<union> set (add_seeds u)) E"
    using add_seeds_ok [OF ch, of "add_seeds u"] u by (auto simp: valid_update_def)
  obtain P3 where P3: "for_fold (set_enabled True) (enable_rules u) P2 = Inr P3"
    "changed P P3 (S \<union> set (add_seeds u)) (\<lambda>i. E i \<or> i \<in> set (enable_rules u))"
    using enable_rules_ok [OF P2(2), of "enable_rules u"] u by (auto simp: valid_update_def)
  have wf: "wf_program P3" and same: "same_rules P P3" and seeds3: "seed_atoms P3 = S \<union> set (add_seeds u)"
    using P3(2) by (auto simp: changed_def)
  have n: "atom_count P3 = atom_count P" "length (rules P3) = length (rules P)" using same by (auto simp: same_rules_def)
  have pre: "live c ! head (rules P3 ! i)" if i: "i < length (rules P3)" "enabled (rules P3 ! i)" "i \<notin> set (enable_rules u)"
      "\<forall>p \<in> set (body (rules P3 ! i)). live c ! p" for i
  proof -
    have "i < length (rules P1)" "enabled (rules P1 ! i)" "rules P1 ! i = (rules P3 ! i)\<lparr>enabled := True\<rparr>"
      using i ch P3(2) by (auto simp: changed_def same_rules_def)
    then show ?thesis using cl i(4) by (auto simp: closed_cert_def)
  qed
  have range: "shaped P3 c" "length (children wx) = atom_count P3" "\<forall>a \<in> set (add_seeds u). a < atom_count P3"
    "\<forall>i \<in> set (enable_rules u). i < length (rules P3)"
    using sh wx u n same_rules_shaped [OF same, of c] by (auto simp: valid_update_def)
  obtain c' wx' stats' where 3:
    "incremental_insertions_with_witness_index P3 ix u c wx stats = Inr (c', wx', stats')"
    "derives P3 (fold plant (add_seeds u) c) c'" "length (children wx') = atom_count P3"
    "\<forall>i < length (rules P3). enabled (rules P3 ! i) \<longrightarrow> (\<forall>p \<in> set (body (rules P3 ! i)). live c' ! p) \<longrightarrow> live c' ! head (rules P3 ! i)"
    using insertions_ok [OF wf same_rules_index [OF same ix] range pre, of stats] by blast
  have "live c' ! a" if "a \<in> seed_atoms P3" for a
  proof -
    note fp = fold_plant [OF range(1,3)]
    have "a \<in> set (add_seeds u) \<or> live c ! a" using that seeds3 cl ch by (auto simp: closed_cert_def changed_def)
    then have "live (fold plant (add_seeds u) c) ! a" using fp by blast
    then show ?thesis using derives_mono [OF 3(2) _ wf] fp by blast
  qed
  then have "closed_cert P3 c'" using 3(4) by (simp add: closed_cert_def)
  then show ?thesis using P2(1) P3 n(1) 3 by auto
qed

lemma closed_changed:
  assumes "closed_cert P c" "changed P Q S E" "S \<subseteq> seed_atoms P" "\<And>i. i < length (rules P) \<Longrightarrow> E i \<Longrightarrow> enabled (rules P ! i)"
  shows "closed_cert Q c"
  using assms by (auto simp: closed_cert_def changed_def same_rules_def)

lemma exact_update_ok:
  assumes m: "exact_state P ix c wx" and u: "valid_update P u" and none: "invalidated P c u = {}"
  shows "\<exists>P' c' wx' stats. apply_update_maintained_validated P ix c wx u = Inr (P', c', wx', stats)
    \<and> exact_state P' ix c' wx' \<and> updated P u P'"
proof -
  have wf: "wf_program P" and ix: "index_of P ix" and wx: "length (children wx) = atom_count P"
    and t: "tight P c" and cl: "closed_cert P c" using m by (auto simp: exact_state_def)
  have sh: "shaped P c" using t by (simp add: tight_def sound_cert_def)
  let ?S = "seed_atoms P - set (remove_seeds u)" and ?E = "\<lambda>i. enabled (rules P ! i) \<and> i \<notin> set (disable_rules u)"
  obtain P1 direct where P1: "invalidate_update_sources P c u = Inr (P1, direct)" "set direct = invalidated P c u"
    "changed P P1 ?S ?E"
    using invalidate_ok [OF wf u, of c] by blast
  have direct: "direct = []" using P1(2) none by simp
  have cl1: "closed_cert P1 c" by (rule closed_changed [OF cl P1(3)]) auto
  from update_tail_ok [OF P1(3) u ix sh wx cl1, of stats_default] obtain P3 c' wx' stats' where
    run: "res_bind (for_fold add_seed (add_seeds u) P1) (\<lambda>P2.
        res_bind (for_fold (set_enabled True) (enable_rules u) P2) (\<lambda>P3.
        res_bind (incremental_insertions_with_witness_index P3 ix u c wx stats_default) (\<lambda>(c2, wx2, stats2).
          Inr (P3, c2, wx2, stats2)))) = Inr (P3, c', wx', stats')"
    and ch3: "changed P P3 (?S \<union> set (add_seeds u)) (\<lambda>i. ?E i \<or> i \<in> set (enable_rules u))"
    and der: "derives P3 (fold plant (add_seeds u) c) c'" and wx3: "length (children wx') = atom_count P"
    and closed: "closed_cert P3 c'"
    by blast
  have wf3: "wf_program P3" and same: "same_rules P P3" and seeds3: "seed_atoms P3 = ?S \<union> set (add_seeds u)"
    using ch3 by (auto simp: changed_def)
  have "tight P3 c"
  proof (rule tight_changed [OF wf t ch3])
    fix a assume a: "a < atom_count P" "live c ! a" "witness c ! a = Some Seed"
    then have "proved P c a" using t by (auto simp: tight_def sound_cert_def)
    then have "a \<in> seed_atoms P" using a by (auto simp: proved_def split: option.splits)
    moreover have "a \<notin> set (remove_seeds u)"
      using none a is_live_nth [OF sh a(1)] witness_at_nth [OF sh a(1)] by (auto simp: invalidated_def)
    ultimately show "a \<in> ?S \<union> set (add_seeds u)" by simp
  next
    fix a i assume a: "a < atom_count P" "live c ! a" "witness c ! a = Some (Rule i)"
    then have "proved P c a" using t by (auto simp: tight_def sound_cert_def)
    then have i: "i < length (rules P)" "enabled (rules P ! i)" "head (rules P ! i) = a"
      using a by (auto simp: proved_def split: option.splits)
    have "i \<notin> set (disable_rules u)"
    proof
      assume "i \<in> set (disable_rules u)"
      then have "head (rules P ! i) \<in> invalidated P c u"
        using a i is_live_nth [OF sh a(1)] witness_at_nth [OF sh a(1)] by (auto simp: invalidated_def)
      then show False using none by simp
    qed
    then show "?E i \<or> i \<in> set (enable_rules u)" using i(2) by simp
  qed
  then have "tight P3 (fold plant (add_seeds u) c)"
    using seeds3 u same by (intro tight_fold_plant [OF _ wf3]) (auto simp: valid_update_def same_rules_def)
  then have "tight P3 c'" by (rule derives_tight [OF der wf3])
  moreover have "index_of P3 ix" by (rule same_rules_index [OF same ix])
  moreover have "apply_update_maintained_validated P ix c wx u = Inr (P3, c', wx', stats')"
    using P1(1) direct run by (simp add: apply_update_maintained_validated_def)
  moreover have "updated P u P3" using ch3 by (simp add: updated_def changed_def)
  ultimately show ?thesis using wf3 wx3 same closed by (simp add: exact_state_def same_rules_def)
qed

end
