(* ===== verification/Grounded_Deletion.thy ===== *)
theory Grounded_Deletion
  imports Grounded_Insertion
begin

text \<open>
  The deletion phase: collecting the cone of an invalidated proof and recomputing it locally always return
  and never lose a derivable atom. The counts of the local recomputation only ever run ahead of the premises
  that are missing, so the result is closed under the program; it need not be sound.
\<close>

section \<open>The cone of a deletion\<close>

text \<open>A certificate whose recorded rules exist; it may prove too much.\<close>

definition ranged :: "grounded_program \<Rightarrow> grounded_certificate \<Rightarrow> bool" where
  "ranged P c \<longleftrightarrow> shaped P c \<and> (\<forall>a < atom_count P. \<forall>i. witness c ! a = Some (Rule i) \<longrightarrow> i < length (rules P))"

lemma ranged_shaped: "ranged P c \<Longrightarrow> shaped P c"
  by (simp add: ranged_def)

lemma ranged_derive: "ranged P c \<Longrightarrow> i < length (rules P) \<Longrightarrow> ranged P (derive P c i)"
  by (cases "head (rules P ! i) < length (witness c)")
    (auto simp: ranged_def shaped_def derive_def nth_list_update split: if_splits)

lemma ranged_derives: "derives P c d \<Longrightarrow> ranged P c \<Longrightarrow> ranged P d"
  by (induction rule: derives.induct) (auto intro: ranged_derive)

lemma ranged_plant: "ranged P c \<Longrightarrow> ranged P (plant a c)"
  by (cases "a < length (witness c)") (auto simp: ranged_def shaped_def plant_def nth_list_update split: if_splits)

lemma ranged_fold_plant: "ranged P c \<Longrightarrow> ranged P (fold plant as c)"
  by (induction as arbitrary: c) (auto intro: ranged_plant)

lemma sound_ranged:
  assumes "sound_cert P c"
  shows "ranged P c"
proof -
  have "i < length (rules P)" if a: "a < atom_count P" "witness c ! a = Some (Rule i)" for a i
  proof -
    have "live c ! a" using assms a by (auto simp: sound_cert_def split: if_splits)
    then have "proved P c a" using assms a by (auto simp: sound_cert_def)
    then show ?thesis using a by (auto simp: proved_def split: option.splits)
  qed
  then show ?thesis using assms by (simp add: ranged_def sound_cert_def)
qed

lemma ranged_witness_at: "ranged P c \<Longrightarrow> witness_at c a = Some (Rule i) \<Longrightarrow> i < length (rules P)"
  by (auto simp: ranged_def shaped_def witness_at_def get_vec_def split: if_splits)

definition cone_inv :: "grounded_program \<Rightarrow> grounded_certificate \<Rightarrow> grounded_atom_id btree_set \<Rightarrow> grounded_atom_id list \<Rightarrow> bool" where
  "cone_inv P c affected q \<longleftrightarrow> bs_wf affected \<and> set q \<subseteq> set affected \<and> (\<forall>a \<in> set affected. a < atom_count P \<and> live c ! a)"

lemma cone_inv_length: "cone_inv P c affected q \<Longrightarrow> length affected \<le> atom_count P"
proof -
  assume "cone_inv P c affected q"
  then have "length affected = card (set affected)" "set affected \<subseteq> {0..<atom_count P}"
    by (auto simp: cone_inv_def bs_length)
  then show ?thesis using card_mono [of "{0..<atom_count P}" "set affected"] by simp
qed

lemma length_bs_insert: "bs_wf s \<Longrightarrow> x \<notin> set s \<Longrightarrow> length (bs_insert x s) = Suc (length s)"
  by (simp add: bs_length bs_wf_insert)

lemma cone_add:
  assumes "cone_inv P c affected q" "shaped P c"
  shows "is_live c a \<Longrightarrow> cone_inv P c (bs_insert a affected) (q @ [a])"
  using assms by (auto simp: cone_inv_def bs_wf_insert is_live_iff)

lemma cone_visits:
  "cone_inv P c affected q \<Longrightarrow> shaped P c \<Longrightarrow>
    \<exists>affected' q' stats'. fold (cone_visit c) cs (affected, q, stats) = (affected', q', stats')
      \<and> cone_inv P c affected' q' \<and> length q' + length affected = length q + length affected'"
proof (induction cs arbitrary: affected q stats)
  case (Cons a cs)
  show ?case
  proof (cases "is_live c a \<and> a \<notin> set affected")
    case True
    then have "length (bs_insert a affected) = Suc (length affected)"
      using Cons.prems(1) by (simp add: cone_inv_def length_bs_insert)
    then show ?thesis
      using Cons.IH [OF cone_add [OF Cons.prems, of a] Cons.prems(2), of "count_walk stats"] True
      by (auto simp: cone_visit_def Let_def)
  next
    case False
    then show ?thesis using Cons.IH [OF Cons.prems, of "count_walk stats"] by (auto simp: cone_visit_def Let_def)
  qed
qed simp

lemma cone_loop_ok:
  assumes sh: "shaped P c" and wx: "length (children wx) = atom_count P"
  shows "cone_inv P c affected q \<Longrightarrow>
    \<exists>affected' stats'. cone_loop c wx (affected, q, stats) = Some (Inr (affected', stats')) \<and> cone_inv P c affected' []"
proof (induction "length q + (atom_count P - length affected)" arbitrary: affected q stats rule: less_induct)
  case less
  show ?case
  proof (cases q)
    case Nil
    then show ?thesis using less.prems by (subst cone_loop.simps) simp
  next
    case (Cons a q0)
    have a: "a < atom_count P" and inv: "cone_inv P c affected q0" using less.prems Cons by (auto simp: cone_inv_def)
    obtain affected1 q1 st1 where 1: "fold (cone_visit c) (children wx ! a) (affected, q0, stats) = (affected1, q1, st1)"
      "cone_inv P c affected1 q1" "length q1 + length affected = length q0 + length affected1"
      using cone_visits [OF inv sh] by metis
    have "cone_loop c wx (affected, q, stats) = cone_loop c wx (affected1, q1, st1)"
      using Cons a wx 1(1) by (subst cone_loop.simps) simp
    moreover have "length q1 + (atom_count P - length affected1) < length q + (atom_count P - length affected)"
      using 1(3) Cons cone_inv_length [OF 1(2)] cone_inv_length [OF inv] by simp
    ultimately show ?thesis using less.hyps [OF _ 1(2), of st1] by simp
  qed
qed

lemma collect_cone_ok:
  assumes sh: "shaped P c" and wx: "length (children wx) = atom_count P"
  shows "\<exists>affected stats'. collect_sparse_witness_cone c wx direct stats = Inr (affected, stats') \<and> cone_inv P c affected []"
proof -
  have start: "cone_inv P c affected q \<Longrightarrow> \<exists>affected' q'. fold (\<lambda>atom (affected, queue).
            if is_live c atom \<and> atom \<notin> set affected then (bs_insert atom affected, queue @ [atom]) else (affected, queue))
          ds (affected, q) = (affected', q') \<and> cone_inv P c affected' q'" for ds affected q
    using cone_add [OF _ sh] by (induction ds arbitrary: affected q) auto
  obtain affected q where 1: "fold (\<lambda>atom (affected, queue).
            if is_live c atom \<and> atom \<notin> set affected then (bs_insert atom affected, queue @ [atom]) else (affected, queue))
          direct ([], []) = (affected, q)" "cone_inv P c affected q"
    using start [of "[]" "[]" direct] by (auto simp: cone_inv_def)
  from cone_loop_ok [OF sh wx 1(2), of stats] 1(1) show ?thesis
    by (auto simp: collect_sparse_witness_cone_def returned_def)
qed

section \<open>Resetting the cone\<close>

lemma remove_ok:
  assumes "wf_program P" "length (children wx) = atom_count P" "ranged P c"
  shows "\<exists>wx'. remove_from_certificate wx P c a = Inr wx' \<and> length (children wx') = atom_count P"
proof (cases "witness_at c a")
  case (Some w)
  show ?thesis
  proof (cases w)
    case (Rule i)
    then have "i < length (rules P)" using ranged_witness_at [OF assms(3)] Some by simp
    then show ?thesis
      using modify_all_ok [of "body (rules P ! i)" "children wx" "bs_remove a"] wf_program_rule(2) [OF assms(1)] assms(2) Some Rule
      by (fastforce simp: remove_from_certificate_def)
  qed (use assms Some in \<open>simp add: remove_from_certificate_def\<close>)
qed (use assms in \<open>simp add: remove_from_certificate_def\<close>)

lemma removes_ok:
  assumes "wf_program P" "ranged P c"
  shows "length (children wx) = atom_count P \<Longrightarrow>
    \<exists>wx'. for_fold (\<lambda>a wx. remove_from_certificate wx P c a) as wx = Inr wx' \<and> length (children wx') = atom_count P"
proof (induction as arbitrary: wx)
  case (Cons a as)
  then obtain wx1 where "remove_from_certificate wx P c a = Inr wx1" "length (children wx1) = atom_count P"
    using remove_ok [OF assms(1) _ assms(2)] by blast
  then show ?case using Cons.IH [of wx1] by simp
qed simp

lemma resets_ok:
  "ranged P c \<Longrightarrow> \<forall>a \<in> set as. a < atom_count P \<Longrightarrow>
    \<exists>c'. for_fold reset_atom as c = Inr c' \<and> ranged P c' \<and> (\<forall>b. live c' ! b \<longleftrightarrow> live c ! b \<and> b \<notin> set as)"
proof (induction as arbitrary: c)
  case (Cons a as)
  let ?c = "c\<lparr>live := (live c)[a := False], rank := (rank c)[a := None], witness := (witness c)[a := None]\<rparr>"
  have len: "length (live c) = atom_count P" "length (rank c) = atom_count P" "length (witness c) = atom_count P"
    using Cons.prems(1) by (simp_all add: ranged_def shaped_def)
  have a: "a < atom_count P" using Cons.prems(2) by simp
  have "ranged P ?c" using Cons.prems(1) a by (auto simp: ranged_def shaped_def nth_list_update split: if_splits)
  from Cons.IH [OF this] Cons.prems(2) obtain c' where c': "for_fold reset_atom as ?c = Inr c'" "ranged P c'"
    "\<forall>b. live c' ! b \<longleftrightarrow> live ?c ! b \<and> b \<notin> set as" by auto
  have "reset_atom a c = Inr ?c" using a len by (simp add: reset_atom_def)
  moreover have "live ?c ! b \<longleftrightarrow> live c ! b \<and> b \<noteq> a" for b using a len by (simp add: nth_list_update)
  ultimately show ?case using c' by auto
qed auto

lemma restores_ok:
  "ranged P c \<Longrightarrow> \<forall>a \<in> set as. a < atom_count P \<Longrightarrow>
    \<exists>c'. for_fold (restore_seed A) as c = Inr c' \<and> ranged P c' \<and> (\<forall>b. live c' ! b \<longleftrightarrow> live c ! b \<or> b \<in> set as \<inter> set A)"
proof (induction as arbitrary: c)
  case (Cons a as)
  let ?c = "if a \<in> set A then c\<lparr>live := (live c)[a := True], rank := (rank c)[a := Some 0], witness := (witness c)[a := Some Seed]\<rparr> else c"
  have len: "length (live c) = atom_count P" "length (rank c) = atom_count P" "length (witness c) = atom_count P"
    using Cons.prems(1) by (simp_all add: ranged_def shaped_def)
  have a: "a < atom_count P" using Cons.prems(2) by simp
  have "ranged P ?c" using Cons.prems(1) a by (auto simp: ranged_def shaped_def nth_list_update split: if_splits)
  from Cons.IH [OF this] Cons.prems(2) obtain c' where c': "for_fold (restore_seed A) as ?c = Inr c'" "ranged P c'"
    "\<forall>b. live c' ! b \<longleftrightarrow> live ?c ! b \<or> b \<in> set as \<inter> set A" by auto
  have "restore_seed A a c = Inr ?c" using a len by (simp add: restore_seed_def)
  moreover have "live ?c ! b \<longleftrightarrow> live c ! b \<or> b = a \<and> a \<in> set A" for b using a len by (simp add: nth_list_update)
  ultimately show ?case using c' by auto
qed auto

section \<open>Local recomputation\<close>

definition deps_at :: "(grounded_atom_id, grounded_rule_id list) btree_map \<Rightarrow> grounded_atom_id \<Rightarrow> grounded_rule_id list" where
  "deps_at m p = (case bt_get m p of None \<Rightarrow> [] | Some rs \<Rightarrow> rs)"

lemma deps_at_register:
  "distinct ps \<Longrightarrow> deps_at (fold (\<lambda>premise ds. if premise \<in> A
       then bt_insert premise ((case bt_get ds premise of None \<Rightarrow> [] | Some rs \<Rightarrow> rs) @ [i]) ds else ds) ps m) p
     = (if p \<in> set ps \<and> p \<in> A then deps_at m p @ [i] else deps_at m p)"
  by (induction ps arbitrary: m) (auto simp: deps_at_def bt_get_insert)

lemma filter_length_mono: "(\<And>x. x \<in> set xs \<Longrightarrow> f x \<Longrightarrow> g x) \<Longrightarrow> length (filter f xs) \<le> length (filter g xs)"
  by (induction xs) auto

lemma length_filter_insert:
  "distinct xs \<Longrightarrow> a \<in> set xs \<Longrightarrow> \<not> f a \<Longrightarrow> length (filter (\<lambda>x. f x \<or> x = a) xs) = Suc (length (filter f xs))"
proof (induction xs)
  case (Cons x xs)
  show ?case
  proof (cases "x = a")
    case True
    then have "filter (\<lambda>x. f x \<or> x = a) xs = filter f xs" using Cons.prems by (intro filter_cong) auto
    then show ?thesis using True Cons.prems by simp
  qed (use Cons in auto)
qed simp

text \<open>
  The premises a scanned rule may still be told about: dead, queued, or the atom being processed for the
  rules \<open>U\<close>. The count of a rule that has not fired never exceeds their number, so no rule is missed.
\<close>

definition pending :: "grounded_program \<Rightarrow> recompute_state \<Rightarrow> grounded_atom_id \<Rightarrow> grounded_rule_id set \<Rightarrow> grounded_rule_id \<Rightarrow> nat" where
  "pending P s a U i = length (filter (\<lambda>p. \<not> live (r_cert s) ! p \<or> p \<in> set (r_work s) \<or> (p = a \<and> i \<in> U)) (body (rules P ! i)))"

definition counted :: "grounded_program \<Rightarrow> recompute_state \<Rightarrow> grounded_atom_id \<Rightarrow> grounded_rule_id set \<Rightarrow> grounded_rule_id \<Rightarrow> bool" where
  "counted P s a U i \<longleftrightarrow> (if i \<in> set (r_fired s) then live (r_cert s) ! head (rules P ! i)
     else \<exists>k. bt_get (r_remaining s) i = Some k \<and> 0 < k \<and> k \<le> pending P s a U i)"

definition rec_frame :: "grounded_program \<Rightarrow> grounded_atom_id set \<Rightarrow> grounded_certificate \<Rightarrow> recompute_state \<Rightarrow> bool" where
  "rec_frame P A c0 s \<longleftrightarrow> ranged P (r_cert s) \<and> length (children (r_witness s)) = atom_count P
     \<and> distinct (r_work s) \<and> (\<forall>p \<in> set (r_work s). p \<in> A \<and> live (r_cert s) ! p)
     \<and> set (r_fired s) \<subseteq> set (r_seen s) \<and> (\<forall>i \<in> set (r_seen s). i < length (rules P) \<and> head (rules P ! i) \<in> A)
     \<and> (\<forall>p \<in> A. distinct (deps_at (r_dependents s) p) \<and> set (deps_at (r_dependents s) p)
          = {i \<in> set (r_seen s). enabled (rules P ! i) \<and> p \<in> set (body (rules P ! i))})
     \<and> (\<forall>b. live c0 ! b \<longrightarrow> live (r_cert s) ! b) \<and> (\<forall>b. live (r_cert s) ! b \<longrightarrow> live c0 ! b \<or> b \<in> A)"

definition rec_inv :: "grounded_program \<Rightarrow> grounded_atom_id set \<Rightarrow> grounded_certificate \<Rightarrow> grounded_rule_id set
    \<Rightarrow> grounded_atom_id \<Rightarrow> grounded_rule_id set \<Rightarrow> recompute_state \<Rightarrow> bool" where
  "rec_inv P A c0 X a U s \<longleftrightarrow> rec_frame P A c0 s
     \<and> (U \<noteq> {} \<longrightarrow> live (r_cert s) ! a \<and> a \<notin> set (r_work s))
     \<and> (\<forall>i \<in> set (r_seen s) - X. enabled (rules P ! i) \<longrightarrow> counted P s a U i)"

abbreviation rec_size :: "recompute_state \<Rightarrow> nat" where
  "rec_size s \<equiv> length (r_work s) + dead_count (r_cert s)"

lemma recompute_fire_ok:
  assumes wf: "wf_program P" and inv: "rec_inv P A c0 X a U s" and i: "i \<in> set (r_seen s)" and X: "X \<subseteq> {i}"
  shows "\<exists>s'. recompute_fire P i s = Inr s' \<and> rec_inv P A c0 {} a U s' \<and> r_seen s' = r_seen s \<and> rec_size s' = rec_size s"
proof -
  let ?c = "r_cert s" and ?h = "head (rules P ! i)"
  let ?s = "s\<lparr>r_fired := bs_insert i (r_fired s), r_stats := count_fire (r_stats s)\<rparr>"
  have frame: "rec_frame P A c0 s" using inv by (simp add: rec_inv_def)
  then have il: "i < length (rules P)" and hA: "?h \<in> A" and rg: "ranged P ?c" and wx: "length (children (r_witness s)) = atom_count P"
    using i by (auto simp: rec_frame_def)
  note sh = ranged_shaped [OF rg] and r = wf_program_rule [OF wf il]
  have fire: "recompute_fire P i s = (if live ?c ! ?h then Inr ?s
      else res_bind (derive_from_rule_with_witness_index P i (?c, r_witness s, r_work s)) (\<lambda>(c, wx, work).
        Inr (?s\<lparr>r_cert := c, r_witness := wx, r_work := work\<rparr>)))"
    using il is_live_nth [OF sh r(1)] by (simp add: recompute_fire_def Let_def)
  show ?thesis
  proof (cases "live ?c ! ?h")
    case True
    have "counted P ?s a U j" if "j \<in> set (r_seen s)" "enabled (rules P ! j)" for j
      using inv that True X by (cases "j = i") (auto simp: rec_inv_def counted_def pending_def)
    moreover have "rec_frame P A c0 ?s" using frame i by (simp add: rec_frame_def)
    ultimately have "rec_inv P A c0 {} a U ?s" using inv by (simp add: rec_inv_def)
    then show ?thesis using fire True by simp
  next
    case False
    obtain wx' where d: "derive_from_rule_with_witness_index P i (?c, r_witness s, r_work s) = Inr (derive P ?c i, wx', r_work s @ [?h])"
      "length (children wx') = atom_count P"
      using derive_from_rule_ok [OF wf sh wx il False] by blast
    let ?t = "?s\<lparr>r_cert := derive P ?c i, r_witness := wx', r_work := r_work s @ [?h]\<rparr>"
    have live: "live (derive P ?c i) ! b = (b = ?h \<or> live ?c ! b)" for b by (rule derive_live [OF sh wf il])
    have "?h \<notin> set (r_work s)" using frame False by (auto simp: rec_frame_def)
    then have "rec_frame P A c0 ?t"
      using frame d(2) ranged_derive [OF rg il] hA i by (auto simp: rec_frame_def live)
    moreover have pend: "pending P ?t a U j = pending P s a U j" for j
      unfolding pending_def by (rule arg_cong [of _ _ length], rule filter_cong) (use False in \<open>auto simp: live\<close>)
    have "counted P ?t a U j" if "j \<in> set (r_seen s)" "enabled (rules P ! j)" for j
      using inv that X unfolding counted_def pend by (cases "j = i") (auto simp: rec_inv_def counted_def live)
    moreover have "U \<noteq> {} \<longrightarrow> a \<noteq> ?h" using inv False by (auto simp: rec_inv_def)
    ultimately have "rec_inv P A c0 {} a U ?t" using inv by (auto simp: rec_inv_def live)
    moreover have "recompute_fire P i s = Inr ?t" using fire False d(1) by simp
    ultimately show ?thesis using dead_count_derive [OF sh wf il False] by (auto intro!: exI [of _ ?t])
  qed
qed

lemma scan_rule_ok:
  assumes wf: "wf_program P" and inv: "rec_inv P (set A) c0 {} a {} s" and i: "i < length (rules P)" "head (rules P ! i) \<in> set A"
  shows "\<exists>s'. scan_rule P A i s = Inr s' \<and> rec_inv P (set A) c0 {} a {} s' \<and> set (r_seen s') = insert i (set (r_seen s))"
proof (cases "i \<in> set (r_seen s)")
  case True
  then show ?thesis using inv by (auto simp: scan_rule_def)
next
  case False
  let ?r = "rules P ! i" and ?c = "r_cert s"
  have frame: "rec_frame P (set A) c0 s" using inv by (simp add: rec_inv_def)
  have sh: "shaped P ?c" using frame by (simp add: rec_frame_def ranged_def)
  let ?s = "s\<lparr>r_seen := bs_insert i (r_seen s)\<rparr>"
  show ?thesis
  proof (cases "enabled ?r")
    case False
    have "rec_frame P (set A) c0 ?s" using frame i False by (auto simp: rec_frame_def)
    moreover have "\<forall>j \<in> set (r_seen ?s) - {}. enabled (rules P ! j) \<longrightarrow> counted P ?s a {} j"
      using inv False by (auto simp: rec_inv_def counted_def pending_def)
    ultimately have "rec_inv P (set A) c0 {} a {} ?s" by (simp add: rec_inv_def)
    then show ?thesis using False \<open>i \<notin> set (r_seen s)\<close> i by (auto simp: scan_rule_def Let_def)
  next
    case True
    let ?missing = "length (filter (\<lambda>p. \<not> is_live ?c p) (body ?r))"
    let ?deps = "fold (\<lambda>premise ds. if premise \<in> set A
                       then bt_insert premise ((case bt_get ds premise of None \<Rightarrow> [] | Some rs \<Rightarrow> rs) @ [i]) ds
                       else ds) (body ?r) (r_dependents s)"
    let ?t = "?s\<lparr>r_remaining := bt_insert i ?missing (r_remaining s), r_dependents := ?deps\<rparr>"
    have deps: "deps_at ?deps p = (if p \<in> set (body ?r) \<and> p \<in> set A then deps_at (r_dependents s) p @ [i] else deps_at (r_dependents s) p)" for p
      by (rule deps_at_register [OF wf_program_rule(3) [OF wf i(1)]])
    have "rec_frame P (set A) c0 ?t"
      using frame i False True unfolding rec_frame_def by (auto simp: deps)
    moreover have "counted P ?t a {} j" if "j \<in> set (r_seen s)" "enabled (rules P ! j)" for j
      using inv that False by (auto simp: rec_inv_def counted_def pending_def bt_get_insert)
    moreover have missing: "?missing \<le> pending P ?t a {} i"
    proof -
      have "filter (\<lambda>p. \<not> is_live ?c p) (body ?r) = filter (\<lambda>p. \<not> live ?c ! p) (body ?r)"
        using wf_program_rule(2) [OF wf i(1)] is_live_nth [OF sh] by (intro filter_cong) auto
      then show ?thesis by (auto simp: pending_def intro!: filter_length_mono)
    qed
    ultimately have inv_t: "rec_inv P (set A) c0 {i} a {} ?t" by (auto simp: rec_inv_def)
    have scan: "scan_rule P A i s = (if ?missing = 0 then recompute_fire P i ?t else Inr ?t)"
      using False True i by (simp add: scan_rule_def Let_def)
    show ?thesis
    proof (cases "?missing = 0")
      case True
      then show ?thesis using recompute_fire_ok [OF wf inv_t, of i] scan by auto
    next
      case pos: False
      have "i \<notin> set (r_fired ?t)" using frame False by (auto simp: rec_frame_def)
      then have "counted P ?t a {} i" using pos missing by (simp add: counted_def bt_get_insert)
      then have "rec_inv P (set A) c0 {} a {} ?t" using inv_t by (auto simp: rec_inv_def)
      moreover have "set (r_seen ?t) = insert i (set (r_seen s))" by simp
      ultimately show ?thesis using scan pos by auto
    qed
  qed
qed

lemma scan_rules_ok:
  assumes wf: "wf_program P"
  shows "rec_inv P (set A) c0 {} a {} s \<Longrightarrow> \<forall>i \<in> set rs. i < length (rules P) \<and> head (rules P ! i) \<in> set A \<Longrightarrow>
    \<exists>s'. for_fold (scan_rule P A) rs s = Inr s' \<and> rec_inv P (set A) c0 {} a {} s' \<and> set (r_seen s') = set (r_seen s) \<union> set rs"
proof (induction rs arbitrary: s)
  case (Cons i rs)
  obtain s1 where "scan_rule P A i s = Inr s1" "rec_inv P (set A) c0 {} a {} s1" "set (r_seen s1) = insert i (set (r_seen s))"
    using scan_rule_ok [OF wf Cons.prems(1), of i] Cons.prems(2) by auto
  then show ?case using Cons.IH [of s1] Cons.prems(2) by auto
qed auto

lemma scan_heads_ok:
  assumes wf: "wf_program P" and ix: "index_of P ix"
  shows "rec_inv P (set A) c0 {} a {} s \<Longrightarrow> set hs \<subseteq> set A \<Longrightarrow> \<forall>h \<in> set A. h < atom_count P \<Longrightarrow>
    \<exists>s'. for_fold (\<lambda>h s. res_bind (idx (by_head ix) h) (\<lambda>rs. for_fold (scan_rule P A) rs s)) hs s = Inr s'
      \<and> rec_inv P (set A) c0 {} a {} s'
      \<and> set (r_seen s') = set (r_seen s) \<union> {i. i < length (rules P) \<and> head (rules P ! i) \<in> set hs}"
proof (induction hs arbitrary: s)
  case (Cons h hs)
  let ?rs = "filter (\<lambda>i. head (rules P ! i) = h) [0..<length (rules P)]"
  have "idx (by_head ix) h = Inr ?rs" using ix Cons.prems(2,3) by (auto simp: index_of_def)
  moreover obtain s1 where "for_fold (scan_rule P A) ?rs s = Inr s1" "rec_inv P (set A) c0 {} a {} s1"
      "set (r_seen s1) = set (r_seen s) \<union> set ?rs"
    using scan_rules_ok [OF wf Cons.prems(1), of ?rs] Cons.prems(2) by auto
  ultimately show ?case using Cons.IH [of s1] Cons.prems(2,3) by auto
qed auto

lemma recompute_visit_ok:
  assumes wf: "wf_program P" and inv: "rec_inv P A c0 {} a (insert i U) s" and i: "i \<in> set (r_seen s)" "enabled (rules P ! i)"
    "a \<in> set (body (rules P ! i))" "i \<notin> U"
  shows "\<exists>s'. recompute_visit P i s = Inr s' \<and> rec_inv P A c0 {} a U s' \<and> r_seen s' = r_seen s \<and> rec_size s' = rec_size s"
proof -
  have frame: "rec_frame P A c0 s" using inv by (simp add: rec_inv_def)
  have il: "i < length (rules P)" using frame i(1) by (auto simp: rec_frame_def)
  have a: "live (r_cert s) ! a" "a \<notin> set (r_work s)" using inv by (auto simp: rec_inv_def)
  have other: "counted P s a U j" if "j \<in> set (r_seen s)" "enabled (rules P ! j)" "j \<noteq> i" for j
    using inv that by (auto simp: rec_inv_def counted_def pending_def)
  have ci: "counted P s a (insert i U) i" using inv i by (auto simp: rec_inv_def)
  show ?thesis
  proof (cases "i \<in> set (r_fired s)")
    case True
    then have "counted P s a U i" using ci by (simp add: counted_def)
    then have "rec_inv P A c0 {} a U s" using inv other by (auto simp: rec_inv_def)
    then show ?thesis using True by (simp add: recompute_visit_def)
  next
    case False
    then obtain k where k: "bt_get (r_remaining s) i = Some k" "0 < k" "k \<le> pending P s a (insert i U) i"
      using ci by (auto simp: counted_def)
    let ?t = "s\<lparr>r_stats := count_update (r_stats s), r_remaining := bt_insert i (k - 1) (r_remaining s)\<rparr>"
    have "pending P s a (insert i U) i = Suc (pending P s a U i)"
      using length_filter_insert [OF wf_program_rule(3) [OF wf il] i(3), of "\<lambda>p. \<not> live (r_cert s) ! p \<or> p \<in> set (r_work s)"] i(4) a
      by (simp add: pending_def)
    then have k1: "k - 1 \<le> pending P ?t a U i" using k by (simp add: pending_def)
    have "rec_frame P A c0 ?t" using frame by (simp add: rec_frame_def)
    moreover have "counted P ?t a U j" if "j \<in> set (r_seen s)" "enabled (rules P ! j)" "j \<noteq> i" for j
      using other [OF that] that(3) by (auto simp: counted_def pending_def bt_get_insert)
    ultimately have inv_t: "rec_inv P A c0 {i} a U ?t" using a by (auto simp: rec_inv_def)
    have visit: "recompute_visit P i s = (if k - 1 = 0 then recompute_fire P i ?t else Inr ?t)"
      using False k(1,2) by (simp add: recompute_visit_def Let_def)
    show ?thesis
    proof (cases "k - 1 = 0")
      case True
      then show ?thesis using recompute_fire_ok [OF wf inv_t, of i] visit i(1) by auto
    next
      case pos: False
      then have "counted P ?t a U i" using k1 False by (simp add: counted_def bt_get_insert)
      then have "rec_inv P A c0 {} a U ?t" using inv_t by (auto simp: rec_inv_def)
      then show ?thesis using visit pos by simp
    qed
  qed
qed

lemma recompute_visits_ok:
  assumes wf: "wf_program P"
  shows "rec_inv P A c0 {} a (set ds) s \<Longrightarrow> distinct ds \<Longrightarrow>
    \<forall>i \<in> set ds. i \<in> set (r_seen s) \<and> enabled (rules P ! i) \<and> a \<in> set (body (rules P ! i)) \<Longrightarrow>
    \<exists>s'. for_fold (recompute_visit P) ds s = Inr s' \<and> rec_inv P A c0 {} a {} s' \<and> r_seen s' = r_seen s \<and> rec_size s' = rec_size s"
proof (induction ds arbitrary: s)
  case (Cons i ds)
  obtain s1 where s1: "recompute_visit P i s = Inr s1" "rec_inv P A c0 {} a (set ds) s1" "r_seen s1 = r_seen s" "rec_size s1 = rec_size s"
    using recompute_visit_ok [OF wf, of A c0 a i "set ds" s] Cons.prems by auto
  then show ?case using Cons.IH [OF s1(2)] Cons.prems(2,3) by auto
qed auto

lemma recompute_loop_ok:
  assumes wf: "wf_program P"
  shows "rec_inv P A c0 {} a {} s \<Longrightarrow>
    \<exists>s' a'. recompute_loop P s = Some (Inr s') \<and> rec_inv P A c0 {} a' {} s' \<and> r_seen s' = r_seen s \<and> r_work s' = []"
proof (induction "rec_size s" arbitrary: s a rule: less_induct)
  case less
  show ?case
  proof (cases "r_work s")
    case Nil
    then show ?thesis using less.prems by (subst recompute_loop.simps) auto
  next
    case (Cons b q)
    let ?s = "s\<lparr>r_work := q\<rparr>" and ?ds = "deps_at (r_dependents s) b"
    have frame: "rec_frame P A c0 s" using less.prems by (simp add: rec_inv_def)
    then have b: "b \<in> A" "live (r_cert s) ! b" "b \<notin> set q" using Cons by (auto simp: rec_frame_def)
    have ds: "distinct ?ds" "set ?ds = {i \<in> set (r_seen s). enabled (rules P ! i) \<and> b \<in> set (body (rules P ! i))}"
      using frame b(1) by (auto simp: rec_frame_def)
    have "rec_frame P A c0 ?s" using frame Cons by (simp add: rec_frame_def)
    moreover have "counted P ?s b (set ?ds) j" if "j \<in> set (r_seen s)" "enabled (rules P ! j)" for j
    proof -
      have "pending P ?s b (set ?ds) j = pending P s a {} j"
        unfolding pending_def by (rule arg_cong [of _ _ length], rule filter_cong) (use Cons ds(2) that in auto)
      moreover have "counted P s a {} j" using less.prems that by (simp add: rec_inv_def)
      ultimately show ?thesis by (simp add: counted_def)
    qed
    ultimately have "rec_inv P A c0 {} b (set ?ds) ?s" using b by (simp add: rec_inv_def)
    from recompute_visits_ok [OF wf this ds(1)] ds(2) obtain s1 where
      s1: "for_fold (recompute_visit P) ?ds ?s = Inr s1" "rec_inv P A c0 {} b {} s1" "r_seen s1 = r_seen s" "rec_size s1 = rec_size ?s"
      by auto
    have "recompute_loop P s = recompute_loop P s1"
      using Cons s1(1) by (subst recompute_loop.simps) (auto simp: deps_at_def split: option.splits)
    then show ?thesis using less.hyps [OF _ s1(2)] s1(3,4) Cons by auto
  qed
qed

lemma recomputed_rule:
  assumes inv: "rec_inv P A c0 {} a {} s" and empty: "r_work s = []"
    and i: "i \<in> set (r_seen s)" "enabled (rules P ! i)" "\<forall>p \<in> set (body (rules P ! i)). live (r_cert s) ! p"
  shows "live (r_cert s) ! head (rules P ! i)"
proof -
  have "counted P s a {} i" using inv i by (simp add: rec_inv_def)
  moreover have "pending P s a {} i = 0" using i(3) empty by (simp add: pending_def)
  ultimately show ?thesis by (simp add: counted_def split: if_splits)
qed

lemma recompute_ok:
  assumes wf: "wf_program P" and ix: "index_of P ix" and rg: "ranged P c" and wx: "length (children wx) = atom_count P"
    and cl: "closed_cert P c"
  shows "\<exists>c' wx' stats'. local_recompute_after_deletion_sparse_indexed P ix c wx direct = Inr (c', wx', stats')
    \<and> ranged P c' \<and> length (children wx') = atom_count P \<and> closed_cert P c'"
proof -
  obtain A st0 where A: "collect_sparse_witness_cone c wx direct stats_default = Inr (A, st0)" "cone_inv P c A []"
    using collect_cone_ok [OF ranged_shaped [OF rg] wx] by blast
  let ?st = "st0\<lparr>affected_atoms := length A\<rparr>"
  have Ar: "\<forall>a \<in> set A. a < atom_count P" and Alive: "\<forall>a \<in> set A. live c ! a" using A(2) by (auto simp: cone_inv_def)
  obtain wx1 where wx1: "for_fold (\<lambda>atom wx. remove_from_certificate wx P c atom) A wx = Inr wx1" "length (children wx1) = atom_count P"
    using removes_ok [OF wf rg wx] by blast
  obtain c1 where c1: "for_fold reset_atom A c = Inr c1" "ranged P c1" "\<forall>b. live c1 ! b \<longleftrightarrow> live c ! b \<and> b \<notin> set A"
    using resets_ok [OF rg Ar] by blast
  have sr: "\<forall>a \<in> seed_atoms P. a < atom_count P" using seeds_range [OF wf] by blast
  obtain c2 where c2: "for_fold (restore_seed A) (seeds_iter (seeds P)) c1 = Inr c2" "ranged P c2"
    "\<forall>b. live c2 ! b \<longleftrightarrow> live c1 ! b \<or> b \<in> seed_atoms P \<inter> set A"
    using restores_ok [OF c1(2) sr, of A] by blast
  let ?s = "\<lparr>r_cert = c2, r_witness = wx1, r_remaining = [], r_dependents = [], r_seen = [], r_fired = [], r_work = [], r_stats = ?st\<rparr>"
  have "rec_inv P (set A) c2 {} 0 {} ?s"
    using c2(2) wx1(2) by (simp add: rec_inv_def rec_frame_def deps_at_def bt_get_def)
  from scan_heads_ok [OF wf ix this, of A] Ar obtain s1 where
    s1: "for_fold (\<lambda>h s. res_bind (idx (by_head ix) h) (\<lambda>rs. for_fold (scan_rule P A) rs s)) A ?s = Inr s1"
      "rec_inv P (set A) c2 {} 0 {} s1" "set (r_seen s1) = {i. i < length (rules P) \<and> head (rules P ! i) \<in> set A}" by auto
  obtain s2 a where s2: "recompute_loop P s1 = Some (Inr s2)" "rec_inv P (set A) c2 {} a {} s2" "r_seen s2 = r_seen s1" "r_work s2 = []"
    using recompute_loop_ok [OF wf s1(2)] by blast
  have frame: "rec_frame P (set A) c2 s2" using s2(2) by (simp add: rec_inv_def)
  have live: "live (r_cert s2) ! b \<Longrightarrow> live c ! b" "live c2 ! b \<Longrightarrow> live (r_cert s2) ! b" for b
    using frame c1(3) c2(3) Alive by (auto simp: rec_frame_def)
  have "live (r_cert s2) ! b" if "b \<in> seed_atoms P" for b
    using that live(2) [of b] c1(3) c2(3) cl by (auto simp: closed_cert_def)
  moreover have "live (r_cert s2) ! head (rules P ! i)"
    if i: "i < length (rules P)" "enabled (rules P ! i)" "\<forall>p \<in> set (body (rules P ! i)). live (r_cert s2) ! p" for i
  proof (cases "head (rules P ! i) \<in> set A")
    case True
    then show ?thesis using recomputed_rule [OF s2(2,4), of i] i s1(3) s2(3) by simp
  next
    case False
    have "live c ! head (rules P ! i)" using cl i live(1) by (simp add: closed_cert_def)
    then show ?thesis using False c1(3) c2(3) live(2) by blast
  qed
  ultimately have "closed_cert P (r_cert s2)" by (simp add: closed_cert_def)
  moreover have "local_recompute_after_deletion_sparse_indexed P ix c wx direct = Inr (r_cert s2, r_witness s2, r_stats s2)"
    using A(1) wx1(1) c1(1) c2(1) s1(1) s2(1)
    by (simp add: local_recompute_after_deletion_sparse_indexed_def Let_def returned_def)
  ultimately show ?thesis using frame by (simp add: rec_frame_def)
qed

text \<open>The state of a maintained program whose certificate covers the derivable atoms, and may cover more.\<close>

definition covering_state :: "grounded_program \<Rightarrow> grounded_incidence_index \<Rightarrow> grounded_certificate \<Rightarrow> grounded_witness_index \<Rightarrow> bool" where
  "covering_state P ix c wx \<longleftrightarrow> wf_program P \<and> index_of P ix \<and> length (children wx) = atom_count P \<and> ranged P c \<and> closed_cert P c"

lemma exact_covering: "exact_state P ix c wx \<Longrightarrow> covering_state P ix c wx"
  by (auto simp: exact_state_def covering_state_def tight_def intro: sound_ranged)

lemma same_rules_ranged: "same_rules P Q \<Longrightarrow> ranged Q c \<longleftrightarrow> ranged P c"
  by (simp add: same_rules_def ranged_def shaped_def)

lemma covering_update_ok:
  assumes m: "covering_state P ix c wx" and u: "valid_update P u"
  shows "\<exists>P' c' wx' stats. apply_update_maintained_validated P ix c wx u = Inr (P', c', wx', stats)
    \<and> covering_state P' ix c' wx' \<and> updated P u P'"
proof -
  have wf: "wf_program P" and ix: "index_of P ix" and wx: "length (children wx) = atom_count P"
    and rg: "ranged P c" and cl: "closed_cert P c" using m by (auto simp: covering_state_def)
  let ?S = "seed_atoms P - set (remove_seeds u)" and ?E = "\<lambda>i. enabled (rules P ! i) \<and> i \<notin> set (disable_rules u)"
  obtain P1 direct where P1: "invalidate_update_sources P c u = Inr (P1, direct)" "changed P P1 ?S ?E"
    using invalidate_ok [OF wf u, of c] by blast
  have cl1: "closed_cert P1 c" by (rule closed_changed [OF cl P1(2)]) auto
  have wf1: "wf_program P1" and same1: "same_rules P P1" using P1(2) by (auto simp: changed_def)
  have n1: "atom_count P1 = atom_count P" using same1 by (simp add: same_rules_def)
  obtain c1 wx1 st1 where 1: "(if direct = [] then Inr (c, wx, stats_default)
               else local_recompute_after_deletion_sparse_indexed P1 ix c wx direct) = Inr (c1, wx1, st1)"
      "ranged P1 c1" "length (children wx1) = atom_count P" "closed_cert P1 c1"
    using recompute_ok [OF wf1 same_rules_index [OF same1 ix], of c wx direct] rg wx cl1 n1 same_rules_ranged [OF same1, of c]
    by (cases "direct = []") auto
  have rg1: "ranged P c1" using 1(2) same_rules_ranged [OF same1] by simp
  obtain P3 c' wx' st' where
    run: "res_bind (for_fold add_seed (add_seeds u) P1) (\<lambda>P2.
        res_bind (for_fold (set_enabled True) (enable_rules u) P2) (\<lambda>P3.
        res_bind (incremental_insertions_with_witness_index P3 ix u c1 wx1 st1) (\<lambda>(c2, wx2, stats2).
          Inr (P3, c2, wx2, stats2)))) = Inr (P3, c', wx', st')"
    and ch3: "changed P P3 (?S \<union> set (add_seeds u)) (\<lambda>i. ?E i \<or> i \<in> set (enable_rules u))"
    and der: "derives P3 (fold plant (add_seeds u) c1) c'" and wx3: "length (children wx') = atom_count P"
    and closed: "closed_cert P3 c'"
    using update_tail_ok [OF P1(2) u ix ranged_shaped [OF rg1] 1(3,4), of st1] by blast
  have same: "same_rules P P3" and wf3: "wf_program P3" using ch3 by (auto simp: changed_def)
  have "ranged P3 c'"
    using ranged_derives [OF der] ranged_fold_plant [of P3 c1] same_rules_ranged [OF same] rg1 by blast
  moreover have "apply_update_maintained_validated P ix c wx u = Inr (P3, c', wx', st')"
    using P1(1) 1(1) run by (simp add: apply_update_maintained_validated_def)
  moreover have "updated P u P3" using ch3 by (simp add: updated_def changed_def)
  ultimately show ?thesis
    using wf3 same_rules_index [OF same ix] wx3 same closed by (simp add: covering_state_def same_rules_def)
qed

end
