(* ===== verification/Grounded_Maintenance_Correct.thy ===== *)
theory Grounded_Maintenance_Correct
  imports Grounded_Deletion History
begin

text \<open>
  Maintained programs along their histories. The specification of a step edits the program; the maintained
  state follows it, covers the derivable atoms after every step, and is exact as long as nothing is withdrawn.
  The checked operations return exact certificates or errors, never a panic.
\<close>

section \<open>What a step asks of the program\<close>

definition edited :: "grounded_program \<Rightarrow> grounded_update \<Rightarrow> grounded_program" where
  "edited P u =
     (let ms = map (\<lambda>a. a \<in> set (add_seeds u) \<or> members (seeds P) ! a \<and> a \<notin> set (remove_seeds u)) [0..<atom_count P] in
      P\<lparr>seeds := \<lparr>members = ms, seed_count = length (filter id ms)\<rparr>,
        rules := map (\<lambda>i. (rules P ! i)\<lparr>enabled := i \<in> set (enable_rules u) \<or> enabled (rules P ! i) \<and> i \<notin> set (disable_rules u)\<rparr>)
          [0..<length (rules P)]\<rparr>)"

lemma updated_edited:
  assumes "wf_program P" "updated P u Q" "valid_update P u"
  shows "Q = edited P u"
proof -
  have wf: "wf_program Q" "same_rules P Q" using assms(2) by (auto simp: updated_def)
  have n: "atom_count Q = atom_count P" "length (members (seeds Q)) = atom_count P" "length (members (seeds P)) = atom_count P"
    "length (rules Q) = length (rules P)"
    using wf assms(1) by (auto simp: wf_program_def same_rules_def)
  have mem: "members (seeds Q) ! a \<longleftrightarrow> a \<in> set (add_seeds u) \<or> members (seeds P) ! a \<and> a \<notin> set (remove_seeds u)" if "a < atom_count P" for a
  proof -
    have "a \<in> seed_atoms Q \<longleftrightarrow> a \<in> seed_atoms P - set (remove_seeds u) \<union> set (add_seeds u)" using assms(2) by (simp add: updated_def)
    then show ?thesis using that n by (auto simp: set_seeds_iter)
  qed
  then have ms: "members (seeds Q) = map (\<lambda>a. a \<in> set (add_seeds u) \<or> members (seeds P) ! a \<and> a \<notin> set (remove_seeds u)) [0..<atom_count P]"
    using n by (intro nth_equalityI) auto
  have rs: "rules Q = map (\<lambda>i. (rules P ! i)\<lparr>enabled := i \<in> set (enable_rules u) \<or> enabled (rules P ! i) \<and> i \<notin> set (disable_rules u)\<rparr>)
          [0..<length (rules P)]"
    using assms(2) n(4) by (intro nth_equalityI) (auto simp: updated_def same_rules_def intro!: grounded_rule.equality)
  have "seed_count (seeds Q) = length (filter id (members (seeds Q)))" using wf(1) by (simp add: wf_program_def wf_seeds_def)
  then have "seeds Q = \<lparr>members = members (seeds Q), seed_count = length (filter id (members (seeds Q)))\<rparr>" by simp
  then show ?thesis using n(1) rs unfolding edited_def ms [symmetric] by (simp add: Let_def)
qed

text \<open>The program of a structural patch before its update runs: new atoms are not seeds, new rules are disabled.\<close>

definition extended :: "grounded_program \<Rightarrow> nat \<Rightarrow> grounded_rule list \<Rightarrow> grounded_program" where
  "extended P n rs = P\<lparr>atom_count := n, seeds := (seeds P)\<lparr>members := resize n False (members (seeds P))\<rparr>,
     rules := rules P @ map (\<lambda>r. r\<lparr>enabled := False\<rparr>) rs\<rparr>"

definition fresh_enabled :: "grounded_program \<Rightarrow> grounded_rule list \<Rightarrow> grounded_rule_id list" where
  "fresh_enabled P rs = map (\<lambda>j. length (rules P) + j) (filter (\<lambda>j. enabled (rs ! j)) [0..<length rs])"

lemma wf_extended:
  assumes "wf_program P" "atom_count P \<le> n" "n \<le> usize_max" "\<forall>r \<in> set rs. wf_rule n r"
  shows "wf_program (extended P n rs)" "seed_atoms (extended P n rs) = seed_atoms P"
proof -
  have "wf_rule n r" if "r \<in> set (rules P)" for r
    using assms(1,2) that by (fastforce simp: wf_program_def wf_rule_def)
  moreover have "wf_seeds ((seeds P)\<lparr>members := resize n False (members (seeds P))\<rparr>)"
    using assms(1,2) by (auto simp: wf_program_def wf_seeds_def resize_grow)
  ultimately show "wf_program (extended P n rs)"
    using assms by (auto simp: wf_program_def extended_def wf_rule_def)
  show "seed_atoms (extended P n rs) = seed_atoms P"
    using assms(1,2) by (auto simp: set_seeds_iter extended_def wf_program_def nth_resize split: if_splits)
qed

lemma index_of_append:
  assumes "index_of P ix" "wf_rule (atom_count P) r" "append_rule ix (length (rules P)) r = Inr ix'" "body r' = body r" "head r' = head r"
  shows "index_of (P\<lparr>rules := rules P @ [r']\<rparr>) ix'"
proof -
  obtain ix'' where "append_rule ix (length (rules P)) r = Inr ix''" "length (dependents ix'') = atom_count P"
    "length (by_head ix'') = atom_count P"
    "\<forall>a < atom_count P. dependents ix'' ! a = dependents ix ! a @ (if a \<in> set (body r) then [length (rules P)] else [])
        \<and> by_head ix'' ! a = by_head ix ! a @ (if head r = a then [length (rules P)] else [])"
    using append_rule_ok [OF assms(2), of ix "length (rules P)"] assms(1) by (auto simp: index_of_def)
  then have ix': "length (dependents ix') = atom_count P" "length (by_head ix') = atom_count P"
    "\<forall>a < atom_count P. dependents ix' ! a = dependents ix ! a @ (if a \<in> set (body r) then [length (rules P)] else [])
        \<and> by_head ix' ! a = by_head ix ! a @ (if head r = a then [length (rules P)] else [])"
    using assms(3) by auto
  have old: "filter (\<lambda>i. Q ((rules P @ [r']) ! i)) [0..<length (rules P)] = filter (\<lambda>i. Q (rules P ! i)) [0..<length (rules P)]" for Q
    by (intro filter_cong) (auto simp: nth_append)
  show ?thesis
    using ix' assms(1,4,5) old [of "\<lambda>r. a \<in> set (body r)" for a] old [of "\<lambda>r. head r = a" for a]
    unfolding index_of_def by simp
qed

lemma index_of_resize:
  assumes "wf_program P" "index_of P ix" "atom_count P \<le> n"
  shows "index_of (P\<lparr>atom_count := n, seeds := s\<rparr>) (incidence_resize_atoms ix n)"
proof -
  have "filter (\<lambda>i. a \<in> set (body (rules P ! i))) [0..<length (rules P)] = []"
    "filter (\<lambda>i. head (rules P ! i) = a) [0..<length (rules P)] = []" if "\<not> a < atom_count P" for a
    using that wf_program_rule [OF assms(1)] by (auto simp: filter_empty_conv)
  then show ?thesis
    using assms(2,3) by (auto simp: index_of_def incidence_resize_atoms_def nth_resize)
qed

lemma append_steps_ok:
  assumes wf: "wf_program P" and ix: "index_of P ix" and n: "atom_count P \<le> n" and rs: "\<forall>r \<in> set rs. wf_rule n r"
  shows "\<exists>ix'. for_fold (append_step (length (rules P))) (enumerate 0 rs)
        (P\<lparr>atom_count := n, seeds := (seeds P)\<lparr>members := resize n False (members (seeds P))\<rparr>\<rparr>, incidence_resize_atoms ix n, [], [])
      = Inr (extended P n rs, ix', [length (rules P)..<length (rules P) + length rs], fresh_enabled P rs)
    \<and> index_of (extended P n rs) ix'"
proof -
  let ?L = "length (rules P)"
  let ?s = "(P\<lparr>atom_count := n, seeds := (seeds P)\<lparr>members := resize n False (members (seeds P))\<rparr>\<rparr>, incidence_resize_atoms ix n, [], [])"
  let ?I = "\<lambda>k (Q, ix', ids, te). Q = extended P n (take k rs) \<and> index_of Q ix' \<and> ids = [?L..<?L + k]
     \<and> te = map (\<lambda>j. ?L + j) (filter (\<lambda>j. enabled (rs ! j)) [0..<k])"
  have "\<exists>s'. for_fold (\<lambda>k. append_step ?L (k, rs ! k)) [0..<length rs] ?s = Inr s' \<and> ?I (length rs) s'"
  proof (rule for_fold_upt_rule)
    show "?I 0 ?s" using index_of_resize [OF wf ix n] by (simp add: extended_def)
    fix k s assume k: "k < length rs" and I: "?I k s"
    obtain Q ix1 ids te where s: "s = (Q, ix1, ids, te)" by (cases s) auto
    let ?r = "(rs ! k)\<lparr>enabled := False\<rparr>"
    have Q: "Q = extended P n (take k rs)" "index_of Q ix1" using I s by auto
    have r: "wf_rule (atom_count Q) ?r" using rs k Q(1) by (auto simp: extended_def wf_rule_def)
    have L: "length (rules Q) = ?L + k" using Q(1) k by (simp add: extended_def)
    obtain ix2 where ix2: "append_rule ix1 (?L + k) ?r = Inr ix2"
      using append_rule_ok [OF r, of ix1 "?L + k"] Q(2) by (auto simp: index_of_def)
    have "Q\<lparr>rules := rules Q @ [?r]\<rparr> = extended P n (take (Suc k) rs)"
      using Q(1) k by (simp add: extended_def take_Suc_conv_app_nth)
    moreover have "index_of (Q\<lparr>rules := rules Q @ [?r]\<rparr>) ix2"
      using index_of_append [OF Q(2) r] ix2 L by simp
    ultimately show "\<exists>s'. append_step ?L (k, rs ! k) s = Inr s' \<and> ?I (Suc k) s'"
      using I s ix2 by (simp add: append_step_def Let_def)
  qed
  then show ?thesis
    using for_fold_enumerate [of "\<lambda>k r. append_step ?L (k, r)" rs ?s] by (auto simp: fresh_enabled_def)
qed

lemma extended_nth: "i < length (rules P) \<Longrightarrow> rules (extended P n rs) ! i = rules P ! i"
  by (simp add: extended_def nth_append)

lemma extended_fresh:
  "i < length (rules (extended P n rs)) \<Longrightarrow> enabled (rules (extended P n rs) ! i) \<Longrightarrow> i < length (rules P)"
  by (auto simp: extended_def nth_append split: if_splits)

lemma extended_more: "length (rules P) \<le> length (rules (extended P n rs))" "atom_count (extended P n rs) = n"
  by (simp_all add: extended_def)

lemma resize_certificate_nth:
  assumes "shaped P c" "atom_count P \<le> n" "a < n"
  shows "live (resize_certificate n c) ! a \<longleftrightarrow> a < atom_count P \<and> live c ! a"
    "rank (resize_certificate n c) ! a = (if a < atom_count P then rank c ! a else None)"
    "witness (resize_certificate n c) ! a = (if a < atom_count P then witness c ! a else None)"
  using assms by (auto simp: resize_certificate_def shaped_def nth_resize)

lemma closed_extended:
  assumes wf: "wf_program P" and sh: "shaped P c" and cl: "closed_cert P c" and n: "atom_count P \<le> n" "n \<le> usize_max"
    and rs: "\<forall>r \<in> set rs. wf_rule n r"
  shows "closed_cert (extended P n rs) (resize_certificate n c)"
proof -
  note live = resize_certificate_nth(1) [OF sh n(1)]
  have "live (resize_certificate n c) ! a" if "a \<in> seed_atoms P" for a
    using that cl live [of a] seeds_range [OF wf that] n(1) by (simp add: closed_cert_def)
  moreover have "live (resize_certificate n c) ! head (rules (extended P n rs) ! i)"
    if i: "i < length (rules (extended P n rs))" "enabled (rules (extended P n rs) ! i)"
      "\<forall>p \<in> set (body (rules (extended P n rs) ! i)). live (resize_certificate n c) ! p" for i
  proof -
    have il: "i < length (rules P)" using extended_fresh [OF i(1,2)] .
    note r = wf_program_rule [OF wf il]
    have "\<forall>p \<in> set (body (rules P ! i)). live c ! p"
      using i(3) r(2) live n(1) extended_nth [OF il, of n rs] by (metis less_le_trans)
    then have "live c ! head (rules P ! i)" using cl il i(2) extended_nth [OF il, of n rs] by (simp add: closed_cert_def)
    then show ?thesis using live [of "head (rules P ! i)"] r(1) n(1) extended_nth [OF il, of n rs] by simp
  qed
  ultimately show ?thesis using wf_extended(2) [OF wf n rs] by (simp add: closed_cert_def)
qed

lemma ranged_extended:
  assumes "wf_program P" "ranged P c" "atom_count P \<le> n"
  shows "ranged (extended P n rs) (resize_certificate n c)"
proof -
  note w = resize_certificate_nth(3) [OF ranged_shaped [OF assms(2)] assms(3)]
  have "i < length (rules (extended P n rs))" if "a < n" "witness (resize_certificate n c) ! a = Some (Rule i)" for a i
  proof -
    have "a < atom_count P" "witness c ! a = Some (Rule i)" using that w [OF that(1)] by (auto split: if_splits)
    then have "i < length (rules P)" using assms(2) by (auto simp: ranged_def)
    then show ?thesis using extended_more(1) [of P n rs] by linarith
  qed
  then show ?thesis by (simp add: ranged_def shaped_def extended_more resize_certificate_def)
qed

lemma tight_extended:
  assumes wf: "wf_program P" and t: "tight P c" and n: "atom_count P \<le> n" "n \<le> usize_max" and rs: "\<forall>r \<in> set rs. wf_rule n r"
  shows "tight (extended P n rs) (resize_certificate n c)"
proof -
  let ?Q = "extended P n rs" and ?d = "resize_certificate n c"
  have sound: "sound_cert P c" and sh: "shaped P c" using t by (auto simp: tight_def sound_cert_def)
  note d = resize_certificate_nth [OF sh n(1)]
  have prem: "live ?d ! p = live c ! p" "rank ?d ! p = rank c ! p" if "i < length (rules P)" "p \<in> set (body (rules P ! i))" for i p
    using d [of p] wf_program_rule(2) [OF wf that] n(1) by auto
  have proved: "proved ?Q ?d a" if a: "a < atom_count P" "proved P c a" for a
  proof -
    have d': "rank ?d ! a = rank c ! a" "witness ?d ! a = witness c ! a" using d [of a] a(1) n(1) by auto
    consider "rank c ! a = Some 0" "witness c ! a = Some Seed" "a \<in> seed_atoms P"
      | r i where "rank c ! a = Some r" "witness c ! a = Some (Rule i)" "i < length (rules P)" "enabled (rules P ! i)" "head (rules P ! i) = a"
        "\<forall>p \<in> set (body (rules P ! i)). live c ! p \<and> (\<exists>q. rank c ! p = Some q \<and> q < r)"
      using a(2) by (auto simp: proved_def split: option.splits grounded_witness.splits)
    then show ?thesis
    proof cases
      case 1
      then show ?thesis using d' wf_extended(2) [OF wf n rs] by (simp add: proved_def)
    next
      case 2
      then show ?thesis using d' prem [OF 2(3)] extended_nth [OF 2(3), of n rs] extended_more(1) [of P n rs] by (simp add: proved_def)
    qed
  qed
  have "if live ?d ! a then proved ?Q ?d a else rank ?d ! a = None \<and> witness ?d ! a = None" if "a < n" for a
    using d [OF that] proved [of a] sound by (auto simp: sound_cert_def split: if_splits)
  moreover have "shaped ?Q ?d" by (simp add: shaped_def extended_more resize_certificate_def)
  ultimately have "sound_cert ?Q ?d" by (simp add: sound_cert_def extended_more)
  moreover have "rank ?d ! a = Some (next_rank (premise_ranks ?Q ?d i))" if a: "a < n" "witness ?d ! a = Some (Rule i)" for a i
  proof -
    have a': "a < atom_count P" "witness c ! a = Some (Rule i)" using a d [OF a(1)] by (auto split: if_splits)
    have i: "i < length (rules P)" using sound_ranged [OF sound] a' by (auto simp: ranged_def)
    have "premise_ranks ?Q ?d i = premise_ranks P c i"
      unfolding premise_ranks_def using prem(2) [OF i] extended_nth [OF i, of n rs] by simp
    then show ?thesis using t a' d [OF a(1)] by (simp add: tight_def)
  qed
  ultimately show ?thesis by (simp add: tight_def extended_more)
qed

lemma witness_resize_length: "length (children (witness_resize_atoms wx n)) = n"
  by (simp add: witness_resize_atoms_def)

section \<open>Structural patches\<close>

definition valid_patch :: "nat \<Rightarrow> nat \<Rightarrow> grounded_structural_patch \<Rightarrow> bool" where
  "valid_patch n l p \<longleftrightarrow> (\<forall>a \<in> set (patch_add_seeds p) \<union> set (patch_remove_seeds p). a < n)
     \<and> (\<forall>r \<in> set (append_rules p). head r < n \<and> (\<forall>q \<in> set (body r). q < n))
     \<and> (\<forall>i \<in> set (patch_enable_rules p) \<union> set (patch_disable_rules p). i < l)"

lemma validate_patch_iff: "validate_patch n l p = Inr () \<longleftrightarrow> valid_patch n l p"
proof -
  have atoms: "for_each (validate_future_atom n) as = Inr () \<longleftrightarrow> (\<forall>a \<in> set as. a < n)" for as
    by (simp add: for_each_Inr_iff validate_future_atom_def ensure_def)
  have atom: "validate_future_atom n a = Inr () \<longleftrightarrow> a < n" for a by (simp add: validate_future_atom_def ensure_def)
  have bind: "res_bind (r :: (fault, unit) result) (\<lambda>_. k) = Inr () \<longleftrightarrow> r = Inr () \<and> k = Inr ()" for r k
    by (cases r) simp_all
  have rules: "for_each (\<lambda>i. ensure (\<not> i \<ge> l) (Raise (RuleOutsideProgram i))) is = Inr () \<longleftrightarrow> (\<forall>i \<in> set is. i < l)" for "is"
    by (auto simp: for_each_Inr_iff ensure_def)
  show ?thesis
    unfolding validate_patch_def bind atoms rules
    by (simp add: for_each_Inr_iff bind atoms atom valid_patch_def ball_Un)
qed

definition distinct_bodies :: "grounded_rule list \<Rightarrow> bool" where
  "distinct_bodies rs \<longleftrightarrow> list_all (\<lambda>r. distinct (body r)) rs"

definition asked_update :: "grounded_program \<Rightarrow> grounded_structural_patch \<Rightarrow> grounded_update" where
  "asked_update P p = patch_update p (fresh_enabled P (append_rules p))"

lemma patch_wf_rules: "valid_patch n l p \<Longrightarrow> distinct_bodies (append_rules p) \<Longrightarrow> \<forall>r \<in> set (append_rules p). wf_rule n r"
  by (auto simp: valid_patch_def distinct_bodies_def wf_rule_def list_all_iff)

lemma valid_asked_update:
  assumes "valid_patch n (length (rules P)) p"
  shows "valid_update (extended P n (append_rules p)) (asked_update P p)"
  using assms
  by (auto simp: valid_update_def valid_patch_def asked_update_def patch_update_def extended_def fresh_enabled_def
    intro: trans_less_add1)

text \<open>The steps a patch takes before its update runs, the same with and without verification.\<close>

lemma patch_parts:
  assumes wf: "wf_program P" and ix: "index_of P ix"
    and p: "valid_patch n (length (rules P)) p" "distinct_bodies (append_rules p)"
    and n: "n = atom_count P + append_atoms p" "n \<le> usize_max"
  obtains ix' where "index_of (extended P n (append_rules p)) ix'"
    "for_fold (append_step (length (rules P))) (enumerate 0 (append_rules p))
        (P\<lparr>atom_count := n, seeds := (seeds P)\<lparr>members := resize n False (members (seeds P))\<rparr>\<rparr>, incidence_resize_atoms ix n, [], [])
      = Inr (extended P n (append_rules p), ix', [length (rules P)..<length (rules P) + length (append_rules p)],
          fresh_enabled P (append_rules p))"
    "seeds_resize_atoms (seeds P) n = Inr ((seeds P)\<lparr>members := resize n False (members (seeds P))\<rparr>)"
    "validate_update (extended P n (append_rules p)) (patch_update p (fresh_enabled P (append_rules p))) = Inr ()"
    "checked_add (atom_count P) (append_atoms p) = Some n" "validate_patch n (length (rules P)) p = Inr ()"
proof -
  have le: "atom_count P \<le> n" using n(1) by simp
  have "seeds_resize_atoms (seeds P) n = Inr ((seeds P)\<lparr>members := resize n False (members (seeds P))\<rparr>)"
    using wf le by (simp add: seeds_resize_atoms_def wf_program_def)
  moreover have "validate_update (extended P n (append_rules p)) (patch_update p (fresh_enabled P (append_rules p))) = Inr ()"
    using valid_asked_update [OF p(1)] by (simp add: validate_update_iff asked_update_def)
  moreover have "checked_add (atom_count P) (append_atoms p) = Some n" using n by (simp add: checked_add_def)
  moreover have "validate_patch n (length (rules P)) p = Inr ()" using p(1) by (simp add: validate_patch_iff)
  ultimately show thesis using append_steps_ok [OF wf ix le patch_wf_rules [OF p]] that by blast
qed

lemma patch_maintained_eq:
  assumes "m_program m = P" "wf_program P" "index_of P (m_index m)"
    "valid_patch n (length (rules P)) p" "distinct_bodies (append_rules p)" "n = atom_count P + append_atoms p" "n \<le> usize_max"
  shows "\<exists>ix'. index_of (extended P n (append_rules p)) ix'
    \<and> apply_structural_patch_maintained m p = res_bind (apply_update_maintained_validated (extended P n (append_rules p)) ix'
          (resize_certificate n (m_certificate m)) (witness_resize_atoms (m_witness_index m) n) (asked_update P p)) (\<lambda>(P2, c, wx, stats).
        Inr (\<lparr>m_program = P2, m_index = ix', m_certificate = c, m_witness_index = wx\<rparr>, stats,
          [length (rules P)..<length (rules P) + length (append_rules p)]))"
  by (rule patch_parts [OF assms(2-)])
    (auto simp: apply_structural_patch_maintained_def Let_def asked_update_def assms(1))

lemma patch_indexed_eq:
  assumes "wf_program P" "index_of P ix" "check P old = Inr ()"
    "valid_patch n (length (rules P)) p" "distinct_bodies (append_rules p)" "n = atom_count P + append_atoms p" "n \<le> usize_max"
  shows "\<exists>ix'. index_of (extended P n (append_rules p)) ix'
    \<and> apply_structural_patch_indexed P ix old p = res_bind (apply_update_indexed_validated (extended P n (append_rules p)) ix'
          (resize_certificate n old) (asked_update P p)) (\<lambda>(P2, c, stats).
        res_bind (check P2 c) (\<lambda>_. Inr ((P2, ix'), c, stats, [length (rules P)..<length (rules P) + length (append_rules p)])))"
  by (rule patch_parts [OF assms(1,2,4-)])
    (auto simp: apply_structural_patch_indexed_def apply_structural_patch_indexed_impl_def Let_def asked_update_def assms(3))

section \<open>Histories of a maintained program\<close>

datatype maintenance_step = Update grounded_update | Patch grounded_structural_patch

definition maintain :: "maintenance_step \<Rightarrow> grounded_maintenance \<Rightarrow> (fault, grounded_maintenance \<times> grounded_rule_id list) result" where
  "maintain st m = (case st of
     Update u \<Rightarrow> res_bind (maintenance_apply_update m u) (\<lambda>(m', _). Inr (m', []))
   | Patch p \<Rightarrow> res_bind (apply_structural_patch_maintained m p) (\<lambda>(m', _, ids). Inr (m', ids)))"

text \<open>The specification edits the program and keeps no certificate.\<close>

definition ask :: "maintenance_step \<Rightarrow> grounded_program \<Rightarrow> (fault, grounded_program \<times> grounded_rule_id list) result" where
  "ask st P = (case st of
     Update u \<Rightarrow> res_bind (validate_update P u) (\<lambda>_. Inr (edited P u, []))
   | Patch p \<Rightarrow>
       res_bind (ok_or (checked_add (atom_count P) (append_atoms p)) (Raise StructuralUniverseOverflow)) (\<lambda>n.
       res_bind (validate_patch n (length (rules P)) p) (\<lambda>_.
         Inr (edited (extended P n (append_rules p)) (asked_update P p),
              [length (rules P)..<length (rules P) + length (append_rules p)]))))"

definition fits_rules :: "maintenance_step \<Rightarrow> grounded_program \<Rightarrow> bool" where
  "fits_rules st P = (case st of Update u \<Rightarrow> True | Patch p \<Rightarrow> distinct_bodies (append_rules p))"

definition covers :: "grounded_maintenance \<Rightarrow> grounded_program \<Rightarrow> bool" where
  "covers m P \<longleftrightarrow> m_program m = P \<and> covering_state P (m_index m) (m_certificate m) (m_witness_index m)"

definition exact :: "grounded_maintenance \<Rightarrow> grounded_program \<Rightarrow> bool" where
  "exact m P \<longleftrightarrow> m_program m = P \<and> exact_state P (m_index m) (m_certificate m) (m_witness_index m)"

lemma maintain_update:
  assumes "apply_update_maintained_validated (m_program m) (m_index m) (m_certificate m) (m_witness_index m) u = Inr (P', c', wx', stats)"
    "valid_update (m_program m) u"
  shows "maintain (Update u) m = Inr (m\<lparr>m_program := P', m_certificate := c', m_witness_index := wx'\<rparr>, [])"
  using assms validate_update_iff [of "m_program m" u] by (simp add: maintain_def maintenance_apply_update_def)

lemma ask_patchD:
  assumes "ask (Patch p) P = Inr (Q, ids)"
  obtains n where "n = atom_count P + append_atoms p" "n \<le> usize_max" "valid_patch n (length (rules P)) p"
    "Q = edited (extended P n (append_rules p)) (asked_update P p)"
    "ids = [length (rules P)..<length (rules P) + length (append_rules p)]"
proof -
  have "checked_add (atom_count P) (append_atoms p) \<noteq> None"
    using assms by (cases "checked_add (atom_count P) (append_atoms p)") (simp_all add: ask_def)
  then have n: "atom_count P + append_atoms p \<le> usize_max" "checked_add (atom_count P) (append_atoms p) = Some (atom_count P + append_atoms p)"
    by (auto simp: checked_add_def split: if_splits)
  have "validate_patch (atom_count P + append_atoms p) (length (rules P)) p = Inr ()"
    using assms n(2) by (cases "validate_patch (atom_count P + append_atoms p) (length (rules P)) p") (auto simp: ask_def)
  then show thesis using that [OF refl n(1)] assms n(2) validate_patch_iff [of "atom_count P + append_atoms p" "length (rules P)" p]
    by (simp add: ask_def)
qed

lemma ask_updateD:
  assumes "ask (Update u) P = Inr (Q, ids)"
  shows "valid_update P u" "Q = edited P u" "ids = []"
proof -
  have "validate_update P u = Inr ()" using assms by (cases "validate_update P u") (auto simp: ask_def)
  then show "valid_update P u" "Q = edited P u" "ids = []"
    using assms validate_update_iff [of P u] by (simp_all add: ask_def)
qed

lemma maintain_error: "m_program m = P \<Longrightarrow> ask st P = Inl e \<Longrightarrow> maintain st m = Inl e"
  by (cases st) (auto simp: ask_def maintain_def maintenance_apply_update_def apply_structural_patch_maintained_def result_simps Let_def
    split: option.splits)

lemma covers_patch:
  assumes m: "covers m P" and p: "ask (Patch p) P = Inr (Q, ids)" "distinct_bodies (append_rules p)"
  shows "\<exists>m'. maintain (Patch p) m = Inr (m', ids) \<and> covers m' Q"
proof -
  obtain n where n: "n = atom_count P + append_atoms p" "n \<le> usize_max" "valid_patch n (length (rules P)) p"
    "Q = edited (extended P n (append_rules p)) (asked_update P p)"
    "ids = [length (rules P)..<length (rules P) + length (append_rules p)]" by (rule ask_patchD [OF p(1)])
  let ?E = "extended P n (append_rules p)"
  have m': "m_program m = P" "wf_program P" "index_of P (m_index m)" "ranged P (m_certificate m)" "closed_cert P (m_certificate m)"
    using m by (auto simp: covers_def covering_state_def)
  note rs = patch_wf_rules [OF n(3) p(2)]
  have le: "atom_count P \<le> n" using n(1) by simp
  obtain ix' where ix': "index_of ?E ix'" "apply_structural_patch_maintained m p = res_bind (apply_update_maintained_validated ?E ix'
          (resize_certificate n (m_certificate m)) (witness_resize_atoms (m_witness_index m) n) (asked_update P p)) (\<lambda>(P2, c, wx, stats).
        Inr (\<lparr>m_program = P2, m_index = ix', m_certificate = c, m_witness_index = wx\<rparr>, stats, ids))"
    using patch_maintained_eq [of m P n p] m' n p(2) by auto
  note wfE = wf_extended(1) [OF m'(2) le n(2) rs] and u = valid_asked_update [OF n(3)]
  have "covering_state ?E ix' (resize_certificate n (m_certificate m)) (witness_resize_atoms (m_witness_index m) n)"
    using wfE ix'(1) ranged_extended [OF m'(2,4) le] closed_extended [OF m'(2) ranged_shaped [OF m'(4)] m'(5) le n(2) rs]
    by (simp add: covering_state_def witness_resize_length extended_more)
  from covering_update_ok [OF this u] obtain P2 c wx stats where
    r: "apply_update_maintained_validated ?E ix' (resize_certificate n (m_certificate m)) (witness_resize_atoms (m_witness_index m) n)
        (asked_update P p) = Inr (P2, c, wx, stats)" "covering_state P2 ix' c wx" "updated ?E (asked_update P p) P2" by blast
  have "P2 = Q" using updated_edited [OF wfE r(3) u] n(4) by simp
  then show ?thesis using ix'(2) r(1,2) by (simp add: maintain_def covers_def)
qed

lemma covers_update:
  assumes m: "covers m P" and u: "ask (Update u) P = Inr (Q, ids)"
  shows "\<exists>m'. maintain (Update u) m = Inr (m', ids) \<and> covers m' Q"
proof -
  have m': "m_program m = P" "wf_program P" "covering_state P (m_index m) (m_certificate m) (m_witness_index m)"
    using m by (auto simp: covers_def covering_state_def)
  note q = ask_updateD [OF u]
  obtain P2 c wx stats where
    r: "apply_update_maintained_validated P (m_index m) (m_certificate m) (m_witness_index m) u = Inr (P2, c, wx, stats)"
      "covering_state P2 (m_index m) c wx" "updated P u P2" using covering_update_ok [OF m'(3) q(1)] by blast
  have "P2 = Q" using updated_edited [OF m'(2) r(3) q(1)] q(2) by simp
  then show ?thesis using maintain_update [of m u] r m'(1) q by (simp add: covers_def)
qed

interpretation upkeep: refined_steps covers maintain ask fits_rules
proof
  fix m P st Q obs
  assume "covers m P" "fits_rules st P" "ask st P = Inr (Q, obs)"
  then show "\<exists>m'. maintain st m = Inr (m', obs) \<and> covers m' Q"
    by (cases st) (auto simp: fits_rules_def intro: covers_update covers_patch)
next
  fix m P st e
  assume "covers m P" "fits_rules st P" "ask st P = Inl e"
  then show "maintain st m = Inl e" by (intro maintain_error) (auto simp: covers_def)
qed

subsection \<open>Steps that withdraw nothing\<close>

definition fits_growth :: "maintenance_step \<Rightarrow> grounded_program \<Rightarrow> bool" where
  "fits_growth st P = (case st of
     Update u \<Rightarrow> remove_seeds u = [] \<and> disable_rules u = []
   | Patch p \<Rightarrow> distinct_bodies (append_rules p) \<and> patch_remove_seeds p = [] \<and> patch_disable_rules p = [])"

lemma exact_patch:
  assumes m: "exact m P" and p: "ask (Patch p) P = Inr (Q, ids)" "distinct_bodies (append_rules p)"
    and none: "patch_remove_seeds p = []" "patch_disable_rules p = []"
  shows "\<exists>m'. maintain (Patch p) m = Inr (m', ids) \<and> exact m' Q"
proof -
  obtain n where n: "n = atom_count P + append_atoms p" "n \<le> usize_max" "valid_patch n (length (rules P)) p"
    "Q = edited (extended P n (append_rules p)) (asked_update P p)"
    "ids = [length (rules P)..<length (rules P) + length (append_rules p)]" by (rule ask_patchD [OF p(1)])
  let ?E = "extended P n (append_rules p)" and ?c = "resize_certificate n (m_certificate m)"
  have m': "m_program m = P" "wf_program P" "index_of P (m_index m)" "tight P (m_certificate m)" "closed_cert P (m_certificate m)"
    using m by (auto simp: exact_def exact_state_def)
  have sh: "shaped P (m_certificate m)" using m'(4) by (simp add: tight_def sound_cert_def)
  note rs = patch_wf_rules [OF n(3) p(2)]
  have le: "atom_count P \<le> n" using n(1) by simp
  obtain ix' where ix': "index_of ?E ix'" "apply_structural_patch_maintained m p = res_bind (apply_update_maintained_validated ?E ix'
          ?c (witness_resize_atoms (m_witness_index m) n) (asked_update P p)) (\<lambda>(P2, c, wx, stats).
        Inr (\<lparr>m_program = P2, m_index = ix', m_certificate = c, m_witness_index = wx\<rparr>, stats, ids))"
    using patch_maintained_eq [of m P n p] m' n p(2) by auto
  note wfE = wf_extended(1) [OF m'(2) le n(2) rs] and u = valid_asked_update [OF n(3)]
  have "exact_state ?E ix' ?c (witness_resize_atoms (m_witness_index m) n)"
    using wfE ix'(1) tight_extended [OF m'(2,4) le n(2) rs] closed_extended [OF m'(2) sh m'(5) le n(2) rs]
    by (simp add: exact_state_def witness_resize_length extended_more)
  moreover have "invalidated ?E ?c (asked_update P p) = {}"
    using none by (simp add: invalidated_def asked_update_def patch_update_def)
  ultimately obtain P2 c wx stats where
    r: "apply_update_maintained_validated ?E ix' ?c (witness_resize_atoms (m_witness_index m) n)
        (asked_update P p) = Inr (P2, c, wx, stats)" "exact_state P2 ix' c wx" "updated ?E (asked_update P p) P2"
    using exact_update_ok [OF _ u] by blast
  have "P2 = Q" using updated_edited [OF wfE r(3) u] n(4) by simp
  then show ?thesis using ix'(2) r(1,2) by (simp add: maintain_def exact_def)
qed

lemma exact_update:
  assumes m: "exact m P" and u: "ask (Update u) P = Inr (Q, ids)" and none: "invalidated P (m_certificate m) u = {}"
  shows "\<exists>m'. maintain (Update u) m = Inr (m', ids) \<and> exact m' Q"
proof -
  have m': "m_program m = P" "wf_program P" "exact_state P (m_index m) (m_certificate m) (m_witness_index m)"
    using m by (auto simp: exact_def exact_state_def)
  note q = ask_updateD [OF u]
  obtain P2 c wx stats where
    r: "apply_update_maintained_validated P (m_index m) (m_certificate m) (m_witness_index m) u = Inr (P2, c, wx, stats)"
      "exact_state P2 (m_index m) c wx" "updated P u P2" using exact_update_ok [OF m'(3) q(1) none] by blast
  have "P2 = Q" using updated_edited [OF m'(2) r(3) q(1)] q(2) by simp
  then show ?thesis using maintain_update [of m u] r m'(1) q by (simp add: exact_def)
qed

interpretation growth: refined_steps exact maintain ask fits_growth
proof
  fix m P st Q obs
  assume "exact m P" "fits_growth st P" "ask st P = Inr (Q, obs)"
  then show "\<exists>m'. maintain st m = Inr (m', obs) \<and> exact m' Q"
    by (cases st) (auto simp: fits_growth_def invalidated_def intro: exact_update exact_patch)
next
  fix m P st e
  assume "exact m P" "fits_growth st P" "ask st P = Inl e"
  then show "maintain st m = Inl e" by (intro maintain_error) (auto simp: exact_def)
qed

lemma witness_compile_ok:
  assumes wf: "wf_program P" and rg: "ranged P c"
  shows "\<exists>wx. witness_compile P c = Inr wx \<and> length (children wx) = atom_count P"
proof -
  have "length (children wx) = atom_count P \<Longrightarrow>
      \<exists>wx'. for_fold (\<lambda>atom wx. install_from_certificate wx P c atom) as wx = Inr wx' \<and> length (children wx') = atom_count P" for as wx
  proof (induction as arbitrary: wx)
    case (Cons a as)
    obtain wx1 where "install_from_certificate wx P c a = Inr wx1" "length (children wx1) = atom_count P"
      using install_ok [OF wf Cons.prems ranged_shaped [OF rg], of a] ranged_witness_at [OF rg, of a] by blast
    then show ?case using Cons.IH [of wx1] by simp
  qed simp
  from this [of "\<lparr>children = replicate (atom_count P) []\<rparr>" "live_atoms c"] show ?thesis by (simp add: witness_compile_def)
qed

lemma maintenance_new_ok:
  assumes "wf_program P"
  shows "\<exists>m. maintenance_new P = Inr m \<and> exact m P"
proof -
  obtain ix where ix: "incidence_compile P = Inr ix" "index_of P ix" using incidence_compile_ok [OF assms] by blast
  obtain c stats where c: "solve_indexed P ix = Inr (c, stats)" "tight P c" "closed_cert P c"
    using solve_indexed_ok [OF assms ix(2)] by blast
  obtain wx where "witness_compile P c = Inr wx" "length (children wx) = atom_count P"
    using witness_compile_ok [OF assms sound_ranged, of c] c(2) by (auto simp: tight_def)
  then show ?thesis
    using assms ix c validate_ok [OF assms] by (simp add: maintenance_new_def exact_def exact_state_def)
qed

lemma covers_derivable: "covers m P \<Longrightarrow> a \<in> derivable P \<Longrightarrow> is_live (m_certificate m) a"
  using closed_cert_derivable [of a P "m_certificate m"] derivable_range [of a P]
  by (auto simp: covers_def covering_state_def is_live_iff [OF ranged_shaped])

lemma exact_derivable: "exact m P \<Longrightarrow> is_live (m_certificate m) a \<longleftrightarrow> a \<in> derivable P"
  using exact_cert [of P "m_certificate m" a] by (auto simp: exact_def exact_state_def tight_def)

section \<open>Checked updates\<close>

lemma for_each_InlD: "for_each f xs = Inl e \<Longrightarrow> \<exists>x \<in> set xs. f x = Inl e"
  by (induction xs) (auto simp: res_bind_def split: sum.splits)

lemma for_each_no_abort: "(\<And>x. x \<in> set xs \<Longrightarrow> f x \<noteq> Inl Abort) \<Longrightarrow> for_each f xs \<noteq> Inl Abort"
  using for_each_InlD by metis

lemma check_no_abort:
  assumes wf: "wf_program P"
  shows "check P c \<noteq> Inl Abort"
proof (cases "shaped P c")
  case False
  then show ?thesis by (auto simp: check_def shaped_def ensure_def)
next
  case True
  have prem: "check_premise c a r p \<noteq> Inl Abort" if "p < atom_count P" for a r p
    using that True by (cases "rank c ! p") (auto simp: check_premise_def shaped_def ensure_def)
  have "check_atom P c a \<noteq> Inl Abort" if a: "a < atom_count P" for a
  proof -
    have ix: "idx (live c) a = Inr (live c ! a)" "idx (rank c) a = Inr (rank c ! a)" "idx (witness c) a = Inr (witness c ! a)"
      using True a by (simp_all add: shaped_def)
    have body: "for_each (check_premise c a r) (body (rules P ! i)) \<noteq> Inl Abort" if "i < length (rules P)" for i r
      using prem wf_program_rule(2) [OF wf that] by (intro for_each_no_abort) blast
    show ?thesis
      by (cases "live c ! a"; cases "rank c ! a"; cases "witness c ! a"; cases "the (witness c ! a)")
        (use body in \<open>auto simp: check_atom_def ix ensure_def get_vec_def ok_or_def split: if_splits\<close>)
  qed
  moreover have "check_closed c (i, r) \<noteq> Inl Abort" if "r \<in> set (rules P)" for i r
  proof -
    have r: "wf_rule (atom_count P) r" using wf that by (simp add: wf_program_def)
    have "for_fold (\<lambda>a ok. if ok then idx (live c) a else Inr False) ps b \<noteq> Inl Abort" if "\<forall>p \<in> set ps. p < atom_count P" for ps b
      using that True by (induction ps arbitrary: b) (auto simp: shaped_def)
    then show ?thesis using r True
      by (auto simp: check_closed_def wf_rule_def shaped_def ensure_def res_bind_def split: sum.splits if_splits)
  qed
  ultimately have parts: "for_each (check_atom P c) [0..<atom_count P] \<noteq> Inl Abort" "for_each (check_closed c) (enumerate 0 (rules P)) \<noteq> Inl Abort"
    by (auto intro!: for_each_no_abort simp: in_set_enumerate_eq)
  have "for_each (\<lambda>seed. res_bind (idx (live c) seed) (\<lambda>l. ensure l (Raise (MissingSeed seed)))) (seeds_iter (seeds P)) \<noteq> Inl Abort"
    using seeds_range [OF wf] True by (intro for_each_no_abort) (auto simp: shaped_def ensure_def)
  then show ?thesis using parts by (auto simp: check_def ensure_def res_bind_def split: sum.splits)
qed

lemma validate_update_no_abort: "validate_update P u \<noteq> Inl Abort"
proof -
  have "for_each (validate_atom P) as \<noteq> Inl Abort" "for_each (validate_rule P) rs \<noteq> Inl Abort" for as rs
    by (auto intro!: for_each_no_abort simp: validate_atom_def validate_rule_def ensure_def split: if_splits)
  then show ?thesis by (auto simp: validate_update_def res_bind_def split: sum.splits)
qed

lemma ask_no_abort: "ask st P \<noteq> Inl Abort"
proof -
  have "for_each (validate_future_atom n) as \<noteq> Inl Abort" for n as
    by (auto intro!: for_each_no_abort simp: validate_future_atom_def ensure_def split: if_splits)
  then have "validate_patch n l p \<noteq> Inl Abort" for n l p
    by (auto simp: validate_patch_def res_bind_def validate_future_atom_def ensure_def dest!: for_each_InlD split: sum.splits if_splits)
  then show ?thesis
    using validate_update_no_abort [of P] by (cases st) (auto simp: ask_def res_bind_def ok_or_def split: sum.splits option.splits)
qed

text \<open>A result that was checked: an error of the checker, or an exact certificate.\<close>

lemma checked_result:
  assumes "wf_program P" "check P c = r"
  shows "case r of Inl e \<Rightarrow> e \<noteq> Abort | Inr _ \<Rightarrow> \<forall>a. is_live c a \<longleftrightarrow> a \<in> derivable P"
  using check_no_abort [OF assms(1), of c] check_iff [OF assms(1), of c] exact_cert [OF assms(1), of c] assms(2)
  by (cases r) auto

lemma indexed_update_ok:
  assumes wf: "wf_program P" and ix: "index_of P ix" and rg: "ranged P c" and cl: "closed_cert P c" and u: "valid_update P u"
  shows "\<exists>c' stats. apply_update_indexed_validated P ix c u = Inr (edited P u, c', stats) \<and> wf_program (edited P u) \<and> index_of (edited P u) ix"
proof -
  obtain wx where wx: "witness_compile P c = Inr wx" "length (children wx) = atom_count P" using witness_compile_ok [OF wf rg] by blast
  then have "covering_state P ix c wx" using assms by (simp add: covering_state_def)
  from covering_update_ok [OF this u] obtain P' c' wx' stats where
    "apply_update_maintained_validated P ix c wx u = Inr (P', c', wx', stats)" "covering_state P' ix c' wx'" "updated P u P'" by blast
  then show ?thesis
    using updated_edited [OF wf _ u] wx(1) by (auto simp: apply_update_indexed_validated_def covering_state_def)
qed

lemma check_covering: "wf_program P \<Longrightarrow> check P c = Inr () \<Longrightarrow> ranged P c \<and> closed_cert P c"
  using check_iff sound_ranged by blast

lemma apply_update_checked:
  assumes wf: "wf_program P"
  shows "case apply_update P old u of Inl e \<Rightarrow> e \<noteq> Abort
    | Inr (Q, c, stats) \<Rightarrow> ask (Update u) P = Inr (Q, []) \<and> (\<forall>a. is_live c a \<longleftrightarrow> a \<in> derivable Q)"
proof (cases "validate_update P u")
  case (Inl e)
  then show ?thesis using validate_update_no_abort [of P u] by (simp add: apply_update_def)
next
  case v: (Inr x)
  then have u: "valid_update P u" using validate_update_iff [of P u] by simp
  show ?thesis
  proof (cases "check P old")
    case (Inl e)
    then show ?thesis using check_no_abort [OF wf, of old] v by (simp add: apply_update_def)
  next
    case c: (Inr y)
    obtain ix where ix: "incidence_compile P = Inr ix" "index_of P ix" using incidence_compile_ok [OF wf] by blast
    obtain c' stats where r: "apply_update_indexed_validated P ix old u = Inr (edited P u, c', stats)" "wf_program (edited P u)"
      using indexed_update_ok [OF wf ix(2) _ _ u, of old] check_covering [OF wf, of old] c by auto
    have "apply_update P old u = res_bind (check (edited P u) c') (\<lambda>_. Inr (edited P u, c', stats))"
      using v c ix(1) r(1) by (simp add: apply_update_def apply_update_indexed_def)
    then show ?thesis
      using checked_result [OF r(2), of c'] v by (cases "check (edited P u) c'") (auto simp: ask_def)
  qed
qed

lemma apply_patch_checked:
  assumes wf: "wf_program P" and ix: "index_of P ix" and d: "distinct_bodies (append_rules p)"
  shows "case apply_structural_patch_indexed P ix old p of Inl e \<Rightarrow> e \<noteq> Abort
    | Inr ((Q, ix'), c, stats, ids) \<Rightarrow> ask (Patch p) P = Inr (Q, ids) \<and> index_of Q ix' \<and> (\<forall>a. is_live c a \<longleftrightarrow> a \<in> derivable Q)"
proof (cases "check P old")
  case (Inl e)
  then show ?thesis
    using check_no_abort [OF wf, of old] by (simp add: apply_structural_patch_indexed_def apply_structural_patch_indexed_impl_def)
next
  case c: (Inr y)
  show ?thesis
  proof (cases "ask (Patch p) P")
    case (Inl e)
    have "apply_structural_patch_indexed P ix old p = Inl e"
      using Inl c by (auto simp: ask_def apply_structural_patch_indexed_def apply_structural_patch_indexed_impl_def result_simps
        split: option.splits)
    moreover have "e \<noteq> Abort" using ask_no_abort Inl by metis
    ultimately show ?thesis by simp
  next
    case (Inr b)
    obtain Q ids where b: "b = (Q, ids)" by fastforce
    obtain n where n: "n = atom_count P + append_atoms p" "n \<le> usize_max" "valid_patch n (length (rules P)) p"
      "Q = edited (extended P n (append_rules p)) (asked_update P p)"
      "ids = [length (rules P)..<length (rules P) + length (append_rules p)]" by (rule ask_patchD [OF Inr [unfolded b]])
    let ?E = "extended P n (append_rules p)"
    have le: "atom_count P \<le> n" using n(1) by simp
    note rs = patch_wf_rules [OF n(3) d]
    have old: "ranged P old" "closed_cert P old" using check_covering [OF wf, of old] c by auto
    obtain ix' where ix': "index_of ?E ix'" "apply_structural_patch_indexed P ix old p = res_bind (apply_update_indexed_validated ?E ix'
          (resize_certificate n old) (asked_update P p)) (\<lambda>(P2, c, stats).
        res_bind (check P2 c) (\<lambda>_. Inr ((P2, ix'), c, stats, ids)))"
      using patch_indexed_eq [OF wf ix _ n(3) d n(1,2), of old] c n(5) by auto
    obtain c' stats where r: "apply_update_indexed_validated ?E ix' (resize_certificate n old) (asked_update P p) = Inr (Q, c', stats)"
      "wf_program Q" "index_of Q ix'"
      using indexed_update_ok [OF wf_extended(1) [OF wf le n(2) rs] ix'(1) ranged_extended [OF wf old(1) le]
        closed_extended [OF wf ranged_shaped [OF old(1)] old(2) le n(2) rs] valid_asked_update [OF n(3)]] n(4) by auto
    show ?thesis
      using checked_result [OF r(2), of c'] ix'(2) r(1,3) Inr b by (cases "check Q c'") auto
  qed
qed

lemma reconcile_checked:
  assumes "wf_program new" "reconcile_structural_change old new c0 = Inr (c, stats)"
  shows "\<forall>a. is_live c a \<longleftrightarrow> a \<in> derivable new"
proof -
  have "check new c = Inr ()"
    using assms(2) by (auto simp: reconcile_structural_change_def result_simps Let_def split: prod.splits if_splits)
  then show ?thesis using check_iff [OF assms(1)] exact_cert [OF assms(1)] by blast
qed

lemma run_steps_no_abort:
  "(\<And>c s. step c s \<noteq> Inl Abort) \<Longrightarrow> run_steps step cs s \<noteq> Inl Abort"
proof (induction cs arbitrary: s)
  case (Cons c cs)
  show ?case
  proof (cases "step c s")
    case (Inr r)
    then show ?thesis using Cons.IH [of "fst r"] Cons.prems by (cases "run_steps step cs (fst r)") (auto simp: case_prod_unfold)
  qed (use Cons.prems in auto)
qed simp

section \<open>Properties\<close>

text \<open>Small sums are evaluated without unfolding \<open>usize_max\<close>.\<close>

lemma saturating_add_small [code]: "saturating_add a b = (if a < 16 \<and> b < 16 then a + b else min (a + b) usize_max)"
  by (simp add: saturating_add_def usize_max_def)

lemma checked_add_small [code]: "checked_add a b = (if a < 16 \<and> b < 16 \<or> a + b \<le> usize_max then Some (a + b) else None)"
  by (auto simp: checked_add_def usize_max_def)

declare solve_loop.simps [code] insert_loop.simps [code] cone_loop.simps [code] recompute_loop.simps [code]

definition demo_program :: grounded_program where
  "demo_program = \<lparr>atom_count = 5, seeds = \<lparr>members = [True, False, False, False, True], seed_count = 2\<rparr>,
     rules = [rule_new [0] 1, rule_new [4] 1, rule_new [0] 3, rule_new [1, 3] 2]\<rparr>"

definition demo_removal :: grounded_update where
  "demo_removal = \<lparr>add_seeds = [], remove_seeds = [0], enable_rules = [], disable_rules = []\<rparr>"

definition demo_growth :: grounded_structural_patch where
  "demo_growth = \<lparr>append_atoms = 1, append_rules = [rule_new [2] 5], patch_add_seeds = [3], patch_remove_seeds = [],
     patch_enable_rules = [0], patch_disable_rules = []\<rparr>"

lemmas demo_defs = demo_program_def demo_removal_def demo_growth_def rule_new_def

lemma demo_wf: "wf_program demo_program"
  by (simp add: wf_program_def wf_rule_def wf_seeds_def demo_program_def rule_new_def usize_max_def)

lemma demo_bodies: "distinct_bodies (append_rules demo_growth)"
  by (simp add: distinct_bodies_def demo_growth_def rule_new_def)

lemma demo_ask:
  "ask (Patch demo_growth) demo_program = Inr (edited (extended demo_program 6 (append_rules demo_growth)) (asked_update demo_program demo_growth), [4])"
  "ask (Update demo_removal) demo_program = Inr (edited demo_program demo_removal, [])"
  by (simp_all add: ask_def demo_defs validate_patch_def validate_update_def validate_future_atom_def validate_atom_def validate_rule_def
    checked_add_def usize_max_def ensure_def)

text \<open>
  C4: Along every history of updates and structural patches, from a freshly solved program, the maintained state
  answers as the specification that only edits the program: it reports the same errors and rule
  identifiers, never panics and always returns, it holds the edited program, and every derivable atom of
  that program is live.
\<close>

theorem maintenance_history_covers:
  assumes "wf_program P" "fits_steps ask fits_rules steps P"
  shows "\<exists>m. maintenance_new P = Inr m \<and> (case run_steps ask steps P of
      Inl e \<Rightarrow> e \<noteq> Abort \<and> run_steps maintain steps m = Inl e
    | Inr (Q, ids) \<Rightarrow> \<exists>m'. run_steps maintain steps m = Inr (m', ids) \<and> m_program m' = Q
        \<and> (\<forall>a \<in> derivable Q. is_live (m_certificate m') a))"
proof -
  obtain m where m: "maintenance_new P = Inr m" "covers m P"
    using maintenance_new_ok [OF assms(1)] exact_covering by (auto simp: exact_def covers_def)
  show ?thesis
  proof (cases "run_steps ask steps P")
    case (Inl e)
    have "e \<noteq> Abort" using run_steps_no_abort [of ask] ask_no_abort Inl by metis
    then show ?thesis using upkeep.history_error [OF m(2) assms(2) Inl] Inl m(1) by simp
  next
    case (Inr r)
    obtain Q ids where r: "r = (Q, ids)" by fastforce
    from upkeep.history_ok [OF m(2) assms(2) Inr [unfolded r]] obtain m' where
      m': "run_steps maintain steps m = Inr (m', ids)" "covers m' Q" by blast
    then have "m_program m' = Q" by (simp add: covers_def)
    then show ?thesis using m(1) m' Inr r covers_derivable [OF m'(2)] by auto
  qed
qed

theorem maintenance_history_covers_witness:
  "wf_program demo_program \<and> fits_steps ask fits_rules [Patch demo_growth, Update demo_removal] demo_program
   \<and> (\<exists>m Q m'. maintenance_new demo_program = Inr m \<and> run_steps maintain [Patch demo_growth, Update demo_removal] m = Inr (m', [[4], []])
        \<and> m_program m' = Q \<and> 1 \<in> derivable Q \<and> is_live (m_certificate m') 1)"
proof -
  let ?steps = "[Patch demo_growth, Update demo_removal]"
  let ?P1 = "edited (extended demo_program 6 (append_rules demo_growth)) (asked_update demo_program demo_growth)"
  let ?Q = "edited ?P1 demo_removal"
  have n: "atom_count ?P1 = 6" by (simp add: edited_def extended_def Let_def)
  have ask2: "ask (Update demo_removal) ?P1 = Inr (?Q, [])"
    by (simp add: ask_def validate_update_def validate_atom_def ensure_def n demo_removal_def)
  have run: "run_steps ask ?steps demo_program = Inr (?Q, [[4], []])" by (simp add: demo_ask ask2)
  have fits: "fits_steps ask fits_rules ?steps demo_program"
    by (simp add: demo_ask ask2 fits_rules_def demo_bodies)
  have rules: "rules ?Q ! 1 = \<lparr>body = [4], head = 1, enabled = True\<rparr>" "1 < length (rules ?Q)"
    by (simp_all add: edited_def extended_def Let_def demo_defs asked_update_def patch_update_def fresh_enabled_def)
  have "4 \<in> derivable ?Q"
    by (rule derivable_seed) (simp add: set_seeds_iter edited_def extended_def Let_def demo_defs asked_update_def patch_update_def resize_def)
  then have der: "1 \<in> derivable ?Q" using derivable_rule [OF rules(2)] rules(1) by simp
  from maintenance_history_covers [OF demo_wf fits] run obtain m m' where
    "maintenance_new demo_program = Inr m" "run_steps maintain ?steps m = Inr (m', [[4], []])" "m_program m' = ?Q"
    "\<forall>a \<in> derivable ?Q. is_live (m_certificate m') a" by auto
  then show ?thesis using demo_wf fits der by blast
qed

text \<open>
  C5: As long as a history of updates and patches removes no seed and disables no rule, the maintained certificate stays
  exact: the checker accepts it, and an atom is live exactly if it is derivable in the edited program.
\<close>

theorem maintenance_growth_exact:
  assumes "wf_program P" "fits_steps ask fits_growth steps P" "run_steps ask steps P = Inr (Q, ids)"
  shows "\<exists>m m'. maintenance_new P = Inr m \<and> run_steps maintain steps m = Inr (m', ids) \<and> m_program m' = Q
    \<and> check Q (m_certificate m') = Inr () \<and> (\<forall>a. is_live (m_certificate m') a \<longleftrightarrow> a \<in> derivable Q)"
proof -
  obtain m where m: "maintenance_new P = Inr m" "exact m P" using maintenance_new_ok [OF assms(1)] by blast
  from growth.history_ok [OF m(2) assms(2,3)] obtain m' where
    m': "run_steps maintain steps m = Inr (m', ids)" "exact m' Q" by blast
  then have "wf_program Q" "sound_cert Q (m_certificate m')" "closed_cert Q (m_certificate m')" "m_program m' = Q"
    by (simp_all add: exact_def exact_state_def tight_def)
  then show ?thesis using m(1) m'(1) check_iff [of Q "m_certificate m'"] exact_derivable [OF m'(2)] by blast
qed

theorem maintenance_growth_exact_witness:
  "wf_program demo_program \<and> fits_steps ask fits_growth [Patch demo_growth] demo_program
   \<and> (\<exists>m Q m'. run_steps ask [Patch demo_growth] demo_program = Inr (Q, [[4]])
        \<and> maintenance_new demo_program = Inr m \<and> run_steps maintain [Patch demo_growth] m = Inr (m', [[4]])
        \<and> m_program m' = Q \<and> check Q (m_certificate m') = Inr () \<and> (is_live (m_certificate m') 5 \<longleftrightarrow> 5 \<in> derivable Q))"
proof -
  have fits: "fits_steps ask fits_growth [Patch demo_growth] demo_program"
    by (simp add: demo_ask fits_growth_def demo_bodies) (simp add: demo_growth_def)
  have run: "\<exists>Q. run_steps ask [Patch demo_growth] demo_program = Inr (Q, [[4]])" by (simp add: demo_ask)
  then obtain Q where Q: "run_steps ask [Patch demo_growth] demo_program = Inr (Q, [[4]])" by blast
  show ?thesis using maintenance_growth_exact [OF demo_wf fits Q] Q demo_wf fits by blast
qed

text \<open>
  C35: An update that withdraws seeds or rules also keeps an exact state exact if none of them is the recorded proof of a
  live atom.
\<close>

theorem maintenance_update_exact:
  assumes "exact m P" "ask (Update u) P = Inr (Q, ids)" "invalidated P (m_certificate m) u = {}"
  shows "\<exists>m' stats. maintenance_apply_update m u = Inr (m', stats) \<and> exact m' Q
    \<and> (\<forall>a. is_live (m_certificate m') a \<longleftrightarrow> a \<in> derivable Q)"
proof -
  obtain m' where m': "maintain (Update u) m = Inr (m', ids)" "exact m' Q" using exact_update [OF assms] by blast
  then have "\<exists>stats. maintenance_apply_update m u = Inr (m', stats)"
    by (cases "maintenance_apply_update m u") (auto simp: maintain_def)
  then show ?thesis using m'(2) exact_derivable [OF m'(2)] by blast
qed

theorem maintenance_update_exact_witness:
  "\<exists>m u Q. exact m demo_program \<and> ask (Update u) demo_program = Inr (Q, []) \<and> disable_rules u = [1]
   \<and> invalidated demo_program (m_certificate m) u = {}
   \<and> (\<exists>m' stats. maintenance_apply_update m u = Inr (m', stats) \<and> exact m' Q)"
proof -
  let ?u = "\<lparr>add_seeds = [], remove_seeds = [], enable_rules = [], disable_rules = [1]\<rparr>"
  obtain m where m: "maintenance_new demo_program = Inr m" "exact m demo_program" using maintenance_new_ok [OF demo_wf] by blast
  have ask: "ask (Update ?u) demo_program = Inr (edited demo_program ?u, [])"
    by (simp add: ask_def validate_update_def validate_rule_def ensure_def demo_program_def)
  have "witness_at (m_certificate m) 1 = Some (Rule 0)"
  proof -
    have "(case maintenance_new demo_program of Inl _ \<Rightarrow> False | Inr m \<Rightarrow> witness_at (m_certificate m) 1 = Some (Rule 0))" by code_simp
    then show ?thesis using m(1) by simp
  qed
  then have "invalidated demo_program (m_certificate m) ?u = {}" by (auto simp: invalidated_def demo_program_def rule_new_def)
  then show ?thesis using maintenance_update_exact [OF m(2) ask] ask m(2) by (intro exI [of _ m] exI [of _ ?u]) auto
qed

text \<open>
  C10: The local recomputation after a deletion is unsound. The demonstration program has the seeds 0 and 4 and
  derives 1 from 0 or from 4, 3 from 0, and 2 from 1 and 3. After the seed 0 is removed the maintained certificate
  still has 2 live, although 3 is dead and 2 is not derivable: atom 1 is revived while the rules are scanned,
  the rule of 2 counts it as live, and its arrival in the worklist is counted a second time.
\<close>

theorem maintenance_deletion_unsound:
  "\<exists>m m' stats. maintenance_new demo_program = Inr m \<and> maintenance_apply_update m demo_removal = Inr (m', stats)
    \<and> m_program m' = edited demo_program demo_removal \<and> live (m_certificate m') = [False, True, True, False, True]
    \<and> 2 \<notin> derivable (m_program m')"
proof -
  have run: "(case maintenance_new demo_program of Inl _ \<Rightarrow> None | Inr m \<Rightarrow>
      (case maintenance_apply_update m demo_removal of Inl _ \<Rightarrow> None | Inr (m', _) \<Rightarrow> Some (live (m_certificate m'))))
      = Some [False, True, True, False, True]"
    by code_simp
  obtain m where m: "maintenance_new demo_program = Inr m" "exact m demo_program" using maintenance_new_ok [OF demo_wf] by blast
  then have "covers m demo_program" by (simp add: exact_def covers_def exact_covering)
  from covers_update [OF this demo_ask(2)] obtain m' where m': "maintain (Update demo_removal) m = Inr (m', [])"
    "m_program m' = edited demo_program demo_removal" by (auto simp: covers_def)
  then obtain stats where st: "maintenance_apply_update m demo_removal = Inr (m', stats)"
    by (cases "maintenance_apply_update m demo_removal") (auto simp: maintain_def)
  then have live: "live (m_certificate m') = [False, True, True, False, True]" using run m(1) by simp
  have "a \<in> derivable (edited demo_program demo_removal) \<Longrightarrow> a = 4 \<or> a = 1" for a
  proof (induction rule: derivable.induct)
    case (derivable_seed a)
    moreover have "seeds_iter (seeds (edited demo_program demo_removal)) = [4]" by code_simp
    ultimately show ?case by simp
  next
    case (derivable_rule i)
    then show ?case by (auto simp: edited_def Let_def demo_defs less_Suc_eq nth_Cons split: nat.splits)
  qed
  then have "2 \<notin> derivable (m_program m')" using m'(2) by fastforce
  then show ?thesis using m(1) st m'(2) live by blast
qed

text \<open>
  C9: The checked update never panics. It returns an error, or the edited program with a certificate in which an
  atom is live exactly if it is derivable.
\<close>

theorem checked_update_exact:
  assumes "wf_program P"
  shows "case apply_update P old u of Inl e \<Rightarrow> e \<noteq> Abort
    | Inr (Q, c, stats) \<Rightarrow> ask (Update u) P = Inr (Q, []) \<and> (\<forall>a. is_live c a \<longleftrightarrow> a \<in> derivable Q)"
  by (rule apply_update_checked [OF assms])

theorem checked_update_exact_witness:
  "wf_program demo_program \<and> (\<exists>c Q d stats. check demo_program c = Inr ()
     \<and> apply_update demo_program c \<lparr>add_seeds = [3], remove_seeds = [], enable_rules = [], disable_rules = [1]\<rparr> = Inr (Q, d, stats)
     \<and> (is_live d 2 \<longleftrightarrow> 2 \<in> derivable Q))"
proof -
  let ?u = "\<lparr>add_seeds = [3], remove_seeds = [], enable_rules = [], disable_rules = [1]\<rparr>"
  have run: "(case solve demo_program of Inl _ \<Rightarrow> False | Inr (c, _) \<Rightarrow>
      check demo_program c = Inr () \<and> (case apply_update demo_program c ?u of Inl _ \<Rightarrow> False | Inr _ \<Rightarrow> True))"
    by code_simp
  obtain c st where c: "solve demo_program = Inr (c, st)" using solve_ok [OF demo_wf] by blast
  then obtain Q d stats where r: "check demo_program c = Inr ()" "apply_update demo_program c ?u = Inr (Q, d, stats)"
    using run by (cases "apply_update demo_program c ?u") auto
  then show ?thesis using checked_update_exact [OF demo_wf, where old = c and u = ?u] demo_wf by auto
qed

text \<open>
  C36: The checked structural patch never panics. It returns an error, or the edited program, its incidence index, the
  identifiers of the appended rules, and an exact certificate.
\<close>

theorem checked_patch_exact:
  assumes "wf_program P" "index_of P ix" "distinct_bodies (append_rules p)"
  shows "case apply_structural_patch_indexed P ix old p of Inl e \<Rightarrow> e \<noteq> Abort
    | Inr ((Q, ix'), c, stats, ids) \<Rightarrow> ask (Patch p) P = Inr (Q, ids) \<and> index_of Q ix' \<and> (\<forall>a. is_live c a \<longleftrightarrow> a \<in> derivable Q)"
  by (rule apply_patch_checked [OF assms])

theorem checked_patch_exact_witness:
  "wf_program demo_program \<and> distinct_bodies (append_rules demo_growth)
   \<and> (\<exists>ix c Q ix' d stats. index_of demo_program ix \<and> apply_structural_patch_indexed demo_program ix c demo_growth = Inr ((Q, ix'), d, stats, [4])
        \<and> index_of Q ix' \<and> (is_live d 5 \<longleftrightarrow> 5 \<in> derivable Q))"
proof -
  have run: "(case incidence_compile demo_program of Inl _ \<Rightarrow> False | Inr ix \<Rightarrow> (case solve demo_program of Inl _ \<Rightarrow> False | Inr (c, _) \<Rightarrow>
      (case apply_structural_patch_indexed demo_program ix c demo_growth of Inl _ \<Rightarrow> False | Inr (_, _, _, ids) \<Rightarrow> ids = [4])))"
    by code_simp
  obtain ix where ix: "incidence_compile demo_program = Inr ix" "index_of demo_program ix" using incidence_compile_ok [OF demo_wf] by blast
  obtain c st where c: "solve demo_program = Inr (c, st)" using solve_ok [OF demo_wf] by blast
  obtain Q ix' d stats where r: "apply_structural_patch_indexed demo_program ix c demo_growth = Inr ((Q, ix'), d, stats, [4])"
    using run ix(1) c by (cases "apply_structural_patch_indexed demo_program ix c demo_growth") auto
  then have "index_of Q ix'" "is_live d 5 \<longleftrightarrow> 5 \<in> derivable Q"
    using checked_patch_exact [OF demo_wf ix(2) demo_bodies, where old = c] by auto
  then show ?thesis using demo_wf demo_bodies ix(2) r by blast
qed

end
