(* ===== verification/Grounded_Bipolar.thy ===== *)
theory Grounded_Bipolar
  imports Grounded_Maintenance
begin

text \<open>
  \<open>kernel-grounded-closure\<close>, \<open>bipolar.rs\<close>: greatest-support programs. An atom keeps its support as long as
  each requirement on it has a supported supporter; the complement of the greatest support is the least
  set of deaths, which is a grounded program.
\<close>

section \<open>Support programs\<close>

record bipolar_support_requirement =
  dependent :: grounded_atom_id
  supporters :: "grounded_atom_id list"

definition requirement_new :: "grounded_atom_id \<Rightarrow> grounded_atom_id list \<Rightarrow> bipolar_support_requirement" where
  "requirement_new d ss = \<lparr>dependent = d, supporters = remdups_adj (sort ss)\<rparr>"

record bipolar_support_program =
  support_atom_count :: nat
  unavailable :: "grounded_atom_id btree_set"
  requirements :: "bipolar_support_requirement list"

definition death_program :: "bipolar_support_program \<Rightarrow> (fault, grounded_program) result" where
  "death_program B =
     program_new (support_atom_count B) (unavailable B)
       (map (\<lambda>r. rule_new (supporters r) (dependent r)) (requirements B))"

definition support_program_new :: "nat \<Rightarrow> grounded_atom_id list \<Rightarrow> bipolar_support_requirement list
    \<Rightarrow> (fault, bipolar_support_program) result" where
  "support_program_new n us rs =
     (let B = \<lparr>support_atom_count = n, unavailable = bs_from_iter us, requirements = rs\<rparr> in
      res_bind (death_program B) (\<lambda>D. res_bind (validate D) (\<lambda>_. Inr B)))"

section \<open>Certificates\<close>

record bipolar_support_certificate =
  death :: grounded_certificate

definition is_supported :: "bipolar_support_certificate \<Rightarrow> grounded_atom_id \<Rightarrow> bool" where
  "is_supported c atom = (case get_vec (live (death c)) atom of None \<Rightarrow> False | Some dead \<Rightarrow> \<not> dead)"

definition supported_atoms :: "bipolar_support_certificate \<Rightarrow> grounded_atom_id list" where
  "supported_atoms c = filter (\<lambda>i. \<not> live (death c) ! i) [0..<length (live (death c))]"

definition check_bipolar_support_with_death :: "bipolar_support_program \<Rightarrow> grounded_program \<Rightarrow> bipolar_support_certificate
    \<Rightarrow> (fault, unit) result" where
  "check_bipolar_support_with_death B D c =
     res_bind (ensure (\<not> (length (live (death c)) \<noteq> support_atom_count B \<or> atom_count D \<noteq> support_atom_count B))
       (Raise CertificateShapeMismatch)) (\<lambda>_.
     res_bind (check D (death c)) (\<lambda>_.
     res_bind (for_each (\<lambda>atom. ensure (\<not> is_supported c atom = is_live (death c) atom) (Raise CertificateShapeMismatch))
       [0..<support_atom_count B]) (\<lambda>_.
     res_bind (for_each (\<lambda>atom. ensure (\<not> is_supported c atom) (Raise (MissingSeed atom))) (unavailable B)) (\<lambda>_.
       for_each (\<lambda>r. ensure (\<not> (is_supported c (dependent r) \<and> \<not> list_ex (is_supported c) (supporters r)))
         (Raise (NotClosedUnderRule 0))) (requirements B)))))"

definition check_bipolar_support :: "bipolar_support_program \<Rightarrow> bipolar_support_certificate \<Rightarrow> (fault, unit) result" where
  "check_bipolar_support B c = res_bind (death_program B) (\<lambda>D. check_bipolar_support_with_death B D c)"

definition solve_bipolar_support :: "bipolar_support_program
    \<Rightarrow> (fault, bipolar_support_certificate \<times> grounded_work_stats) result" where
  "solve_bipolar_support B =
     res_bind (death_program B) (\<lambda>D.
     res_bind (solve D) (\<lambda>(d, stats).
     let c = \<lparr>death = d\<rparr> in
     res_bind (check_bipolar_support_with_death B D c) (\<lambda>_. Inr (c, stats))))"

definition reconcile_bipolar_support :: "bipolar_support_program \<Rightarrow> bipolar_support_program \<Rightarrow> bipolar_support_certificate
    \<Rightarrow> (fault, bipolar_support_certificate \<times> grounded_work_stats) result" where
  "reconcile_bipolar_support old_program new_program old =
     res_bind (death_program old_program) (\<lambda>old_death.
     res_bind (check_bipolar_support_with_death old_program old_death old) (\<lambda>_.
     res_bind (death_program new_program) (\<lambda>new_death.
     res_bind (reconcile_structural_change old_death new_death (death old)) (\<lambda>(d, stats).
     let c = \<lparr>death = d\<rparr> in
     res_bind (check_bipolar_support_with_death new_program new_death c) (\<lambda>_. Inr (c, stats))))))"

section \<open>Maintenance\<close>

record bipolar_support_structural_patch =
  b_append_atoms :: nat
  append_requirements :: "bipolar_support_requirement list"
  add_unavailable :: "grounded_atom_id list"
  remove_unavailable :: "grounded_atom_id list"
  enable_requirements :: "grounded_rule_id list"
  disable_requirements :: "grounded_rule_id list"

record bipolar_support_patch_outcome =
  work :: grounded_work_stats
  appended_requirements :: "grounded_rule_id list"
  changed_atoms :: "grounded_atom_id list"

record bipolar_support_maintenance =
  b_death_program :: grounded_program
  b_death_index :: grounded_incidence_index
  b_certificate :: bipolar_support_certificate
  b_witness_index :: grounded_witness_index

definition bipolar_maintenance_new :: "bipolar_support_program \<Rightarrow> (fault, bipolar_support_maintenance) result" where
  "bipolar_maintenance_new B =
     res_bind (death_program B) (\<lambda>D.
     res_bind (incidence_compile D) (\<lambda>ix.
     res_bind (solve_indexed D ix) (\<lambda>(d, _).
     res_bind (witness_compile D d) (\<lambda>wx.
       Inr \<lparr>b_death_program = D, b_death_index = ix, b_certificate = \<lparr>death = d\<rparr>, b_witness_index = wx\<rparr>))))"

text \<open>What \<open>PersistentVec::changed_indices\<close> returns for the lists two vectors represent.\<close>

definition list_changed_indices :: "'a list \<Rightarrow> 'a list \<Rightarrow> nat list" where
  "list_changed_indices xs ys = filter (\<lambda>i. xs ! i \<noteq> ys ! i) [0..<min (length xs) (length ys)]
     @ [min (length xs) (length ys)..<max (length xs) (length ys)]"

definition apply_structural_patch_tracked :: "bipolar_support_maintenance \<Rightarrow> bipolar_support_structural_patch
    \<Rightarrow> (fault, bipolar_support_maintenance \<times> bipolar_support_patch_outcome) result" where
  "apply_structural_patch_tracked m p =
     (let old_live = live (death (b_certificate m));
          grounded = \<lparr>append_atoms = b_append_atoms p,
             append_rules = map (\<lambda>r. rule_new (supporters r) (dependent r)) (append_requirements p),
             patch_add_seeds = add_unavailable p, patch_remove_seeds = remove_unavailable p,
             patch_enable_rules = enable_requirements p, patch_disable_rules = disable_requirements p\<rparr>
      in res_bind (apply_structural_patch_maintained
           \<lparr>m_program = b_death_program m, m_index = b_death_index m, m_certificate = death (b_certificate m),
            m_witness_index = b_witness_index m\<rparr> grounded) (\<lambda>(m', stats, appended).
         Inr (\<lparr>b_death_program = m_program m', b_death_index = m_index m', b_certificate = \<lparr>death = m_certificate m'\<rparr>,
               b_witness_index = m_witness_index m'\<rparr>,
              \<lparr>work = stats, appended_requirements = appended,
               changed_atoms = list_changed_indices old_live (live (m_certificate m'))\<rparr>)))"

definition bipolar_apply_structural_patch :: "bipolar_support_maintenance \<Rightarrow> bipolar_support_structural_patch
    \<Rightarrow> (fault, bipolar_support_maintenance \<times> grounded_work_stats \<times> grounded_rule_id list) result" where
  "bipolar_apply_structural_patch m p =
     res_bind (apply_structural_patch_tracked m p) (\<lambda>(m', outcome). Inr (m', work outcome, appended_requirements outcome))"

end
