(* ===== verification/Spec2Isabelle.thy ===== *)
theory Spec2Isabelle
  imports Exact_Decimal Exact_Integer Identity Retention Violation Proof_Rewrite Persistent_Map_Correct Persistent_Vec_Correct
    Grounded_Maintenance_Correct Grounded_Bipolar
begin

text \<open>
  \<^bold>\<open>Verification of the CFMD kernel\<close>

  CFMD is an embedded database written in Rust as a workspace of crates under \<open>src/crates\<close>. The kernel
  crates at the bottom (exact numbers, identities, persistent collections, the grounded-closure calculus,
  violation measures, retention labels, rewrite certificates) are pure data structures and algorithms; query planning, durability,
  transport and the public runtime are built on them. This development models the bottom layer function by
  function and proves what the layers above rely on.

  \<^bold>\<open>Conventions.\<close> \<open>u32\<close>, \<open>u64\<close>, \<open>u128\<close> are words; \<open>usize\<close> is \<open>nat\<close>, with the saturating and checked
  operations of the source written out and \<open>usize_max\<close> for a 64-bit target. \<open>Result\<close> is a sum type, a panic
  (an index out of range, a failed \<open>expect\<close>) is an error value of its own. A function that mutates its
  arguments returns the new values; when it returns an error the model gives the error only, not the
  partially changed arguments. A \<open>BTreeMap\<close> or \<open>BTreeSet\<close> is the sorted list of its entries. An \<open>Arc\<close> is the
  value it points to. Loops are structural recursion, \<open>function\<close> with a measure, or \<open>partial_function
  (option)\<close>; every partial loop is proved to return on the inputs its callers give it, and a run that
  would not return counts as a panic.

  \<^bold>\<open>Shared theories.\<close>
  \<^item> \<open>Prelude\<close>: machine integers, results, loops that stop at the first error, vectors.
  \<^item> \<open>Std_Collections\<close>: \<open>BTreeMap\<close> and \<open>BTreeSet\<close>, and the locales \<open>ordered_map\<close> and \<open>set_impl\<close>, the contracts
    of an ordered map and of a set; they are interpreted on the standard collections, on the AVL map and set,
    and on the bit set of \<open>Identity\<close>.
  \<^item> \<open>History\<close>: the locale \<open>refined_steps\<close>, by which an implementation that follows its specification at each
    step follows it along every history; it is interpreted on the paged vector.

  \<^bold>\<open>Components.\<close>
  \<^item> \<open>kernel-exact\<close>: \<open>Exact_Natural\<close> (naturals on \<open>u64\<close> limbs: addition, schoolbook multiplication,
    subtraction, comparison, division), \<open>Exact_Bits\<close> (bit access, shifts, constructors), \<open>Exact_Decimal\<close>
    (decimal printing, proved against reading back), \<open>Exact_Integer\<close> (signed numbers). The operations are exact at
    every size, never panic and keep the limb vectors normalized.
  \<^item> \<open>kernel-types\<close>, \<open>kernel-identity\<close>: \<open>Kernel_Types\<close>, \<open>Identity\<close>: dense identifiers, bit sets and
    identity transports, which form a groupoid.
  \<^item> \<open>kernel-retention\<close>: \<open>Retention\<close>: tracked values; non-interference of arithmetic and selection.
  \<^item> \<open>kernel-violation\<close>: \<open>Violation\<close>: masses of violation witnesses, exact and without zero entries.
  \<^item> \<open>kernel-proof\<close>: \<open>Proof_Rewrite\<close>: certified rewrites preserve the rows of every plan; the locale
    \<open>sound_checker\<close> is the contract of a certificate checker.
  \<^item> \<open>kernel-persistent\<close>, ordered map and set: \<open>Persistent_Tree\<close> (the AVL tree), \<open>Persistent_Map\<close> (the public
    operations and iterators), \<open>Persistent_Balance\<close> and \<open>Persistent_Queries\<close> (correctness of the tree
    operations, heights, ranks and neighbours), \<open>Persistent_Map_Correct\<close> (the interpretations and the properties).
    A balanced map of addressable size has height at most 129. \<open>retain\<close> keeps the entries right but not the
    balance, which is proved on a concrete map.
  \<^item> \<open>kernel-persistent\<close>, vector: \<open>Persistent_Vec\<close> (pages of 256 elements under a 32-way radix tree),
    \<open>Persistent_Vec_Tree\<close> and \<open>Persistent_Vec_Ops\<close> (the tree as a map from page numbers to pages, the single
    operations), \<open>Persistent_Vec_Correct\<close> (refinement of lists along every history, round trip, the exactness
    of the structural difference, termination of the growth loop). Twelve levels address every page a 64-bit
    length can have, so the capacity computation never saturates. \<open>Arc::ptr_eq\<close> is a parameter of the
    structural difference; all that is assumed of it is that nodes at one address are equal.
  \<^item> \<open>kernel-grounded-closure\<close>: \<open>Grounded_Program\<close> (programs, certificates, indices), \<open>Grounded_Solver\<close> (solver and
    checker), \<open>Grounded_Maintenance\<close> (incremental updates, structural patches, reconciliation), \<open>Grounded_Bipolar\<close>
    (greatest support). \<open>Grounded_Model\<close> defines the least model of a program and what a certificate proves;
    \<open>Grounded_Solver_Correct\<close> shows that the solver returns and computes the least model, with ranks that never
    saturate, and that the checker accepts exactly the exact certificates. \<open>Grounded_Insertion\<close>, \<open>Grounded_Deletion\<close>
    and \<open>Grounded_Maintenance_Correct\<close> treat the incremental maintenance: every history of updates and patches
    returns and keeps the derivable atoms live, histories that withdraw nothing stay exact, the checked
    operations return exact certificates or errors; the local recomputation after a deletion may also leave
    underivable atoms live, which is proved on a concrete program.

  \<^bold>\<open>Not modelled.\<close>
  \<^item> Heap-size estimates, storage probes and \<open>serde\<close> or \<open>Debug\<close> glue of the modelled crates: they observe memory
    layout, which a value-level model does not have.
  \<^item> \<open>cfmd-host\<close>, \<open>cfmd-transport-local\<close>, \<open>cfmd-secure-memory\<close>, \<open>cfmd-python-probe\<close>, \<open>kernel-durability\<close>,
    \<open>kernel-deployment\<close>, \<open>kernel-auth\<close>: sockets, files, locked memory pages, foreign bindings and cryptographic
    packages, whose behaviour lies in the operating system and in third-party crates.
  \<^item> \<open>cfmd-derive\<close> is a procedural macro, and \<open>cfmd\<close> re-exports the runtime.
  \<^item> The layers above (\<open>cfmd-runtime\<close>, \<open>cfmd-protocol\<close>, \<open>storage-memory\<close>, and the \<open>kernel-\<close> crates for
    aggregates, change, fixpoints, integration, lens, lifecycle, model, plan, query, realization, revision, schema, semantic index, semantics,
    transport and validation): they build on the modelled crates and on one another through the schema and value
    model, which is the next layer to model; nothing in this development assumes anything of them.
\<close>

end
